(* ===== verification/Prelude.thy ===== *)
theory Prelude
  imports Main "HOL-Library.Word" "HOL-Library.List_Lexorder" "HOL-Library.AList"
begin

text \<open>
  Shared vocabulary of the development: the machine types of the Go sources, the outcome type
  of a Go call (a value, an error value, or a run-time panic / \<open>log.Fatal\<close>), Go maps as
  association lists with distinct keys, and the little-endian byte encodings of
  \<open>encoding/binary\<close> that the stores use. Everything here is generic: no definition of this
  theory is specific to one component.
\<close>

named_theorems outcome_simps \<open>rewriting of Go outcomes\<close>
named_theorems gomap_simps \<open>lookup and size laws of Go maps\<close>
named_theorems le_simps \<open>little-endian codec laws\<close>

section \<open>Machine types\<close>

type_synonym byte = "8 word"
type_synonym u16 = "16 word"
type_synonym u32 = "32 word"
type_synonym u64 = "64 word"
type_synonym bytes = "byte list"

text \<open>A Go \<open>string\<close> is a byte sequence; it is ordered by \<open>bytes.Compare\<close>, the
  lexicographic order on unsigned bytes, which is the order of \<open>List_Lexorder\<close> on
  \<open>byte list\<close>.\<close>

type_synonym gostring = "byte list"

definition gostr :: "string \<Rightarrow> gostring" where
  "gostr s = map (\<lambda>c. of_nat (of_char c)) s"

section \<open>Outcomes of Go calls\<close>

datatype reason = IndexOutOfRange | NilDereference | DivideByZero | TypeAssertion | UnknownKind | LogFatal | ExplicitPanic

datatype ('e, 'a) outcome = Ok 'a | Err 'e | Panic reason

text \<open>A call that returns no error value but may panic.\<close>

type_synonym 'a may_panic = "(unit, 'a) outcome"

fun obind :: "('e, 'a) outcome \<Rightarrow> ('a \<Rightarrow> ('e, 'b) outcome) \<Rightarrow> ('e, 'b) outcome" where
  "obind (Ok x) f = f x"
| "obind (Err e) f = Err e"
| "obind (Panic r) f = Panic r"

fun omap :: "('a \<Rightarrow> 'b) \<Rightarrow> ('e, 'a) outcome \<Rightarrow> ('e, 'b) outcome" where
  "omap f (Ok x) = Ok (f x)"
| "omap f (Err e) = Err e"
| "omap f (Panic r) = Panic r"

fun oerr :: "('e \<Rightarrow> 'f) \<Rightarrow> ('e, 'a) outcome \<Rightarrow> ('f, 'a) outcome" where
  "oerr f (Ok x) = Ok x"
| "oerr f (Err e) = Err (f e)"
| "oerr f (Panic r) = Panic r"

fun is_ok :: "('e, 'a) outcome \<Rightarrow> bool" where
  "is_ok (Ok _) = True"
| "is_ok _ = False"

text \<open>The value of a call that succeeds.\<close>

fun ok_val :: "('e, 'a) outcome \<Rightarrow> 'a option" where
  "ok_val (Ok x) = Some x"
| "ok_val _ = None"

lemma ok_val_eq_Some [outcome_simps]: "ok_val m = Some x \<longleftrightarrow> m = Ok x"
  by (cases m) auto

lemma ok_val_map_Some [outcome_simps]: "map_option f (ok_val m) = Some y \<longleftrightarrow> (\<exists>x. m = Ok x \<and> f x = y)"
  by (cases m) auto

lemma obind_eq_Ok [outcome_simps]: "obind m f = Ok y \<longleftrightarrow> (\<exists>x. m = Ok x \<and> f x = Ok y)"
  by (cases m) auto

lemma omap_eq_Ok [outcome_simps]: "omap f m = Ok y \<longleftrightarrow> (\<exists>x. m = Ok x \<and> y = f x)"
  by (cases m) auto

lemma oerr_eq_Ok [outcome_simps]: "oerr f m = Ok y \<longleftrightarrow> m = Ok y"
  by (cases m) auto

lemma is_ok_iff [outcome_simps]: "is_ok m \<longleftrightarrow> (\<exists>x. m = Ok x)"
  by (cases m) auto

lemma obind_assoc: "obind (obind m f) g = obind m (\<lambda>x. obind (f x) g)"
  by (cases m) auto

lemma obind_cong [fundef_cong]:
  "m = m' \<Longrightarrow> (\<And>x. m' = Ok x \<Longrightarrow> f x = g x) \<Longrightarrow> obind m f = obind m' g"
  by (cases m') auto

text \<open>A loop that threads a state and stops at the first error or panic.\<close>

fun ofold :: "('a \<Rightarrow> 's \<Rightarrow> ('e, 's) outcome) \<Rightarrow> 'a list \<Rightarrow> 's \<Rightarrow> ('e, 's) outcome" where
  "ofold f [] s = Ok s"
| "ofold f (x # xs) s = obind (f x s) (ofold f xs)"

lemma ofold_cong [fundef_cong]:
  "xs = ys \<Longrightarrow> s = t \<Longrightarrow> (\<And>x u. x \<in> set ys \<Longrightarrow> f x u = g x u) \<Longrightarrow> ofold f xs s = ofold g ys t"
proof (induction xs arbitrary: s t ys)
  case (Cons x xs)
  then show ?case by (cases "g x t") auto
qed simp

lemma ofold_append: "ofold f (xs @ ys) s = obind (ofold f xs s) (ofold f ys)"
proof (induction xs arbitrary: s)
  case (Cons x xs)
  then have "ofold f (xs @ ys) = (\<lambda>u. obind (ofold f xs u) (ofold f ys))" by blast
  then show ?case by (simp add: obind_assoc)
qed simp

lemma ofold_invariant:
  assumes "ofold f xs s = Ok t" and "P s"
    and "\<And>x u v. x \<in> set xs \<Longrightarrow> P u \<Longrightarrow> f x u = Ok v \<Longrightarrow> P v"
  shows "P t"
  using assms
proof (induction xs arbitrary: s)
  case (Cons x xs)
  from Cons.prems(1) obtain u where u: "f x s = Ok u" "ofold f xs u = Ok t"
    by (auto simp: outcome_simps)
  moreover from Cons.prems(2,3) u(1) have "P u" by (meson list.set_intros(1))
  ultimately show ?case using Cons.IH Cons.prems(3) by (meson list.set_intros(2))
qed simp

section \<open>Go maps\<close>

text \<open>
  A Go map is an association list with distinct keys. \<open>map_of\<close> is the comma-ok read,
  \<open>AList.update\<close> the assignment, \<open>AList.delete\<close> the builtin \<open>delete\<close>; the list order
  stands for one iteration order (Go leaves it unspecified). A nil map reads like an empty one
  and every write of the sources is guarded by an allocation, so nil and empty are identified.
\<close>

type_synonym ('k, 'v) gomap = "('k \<times> 'v) list"

abbreviation mwf :: "('k, 'v) gomap \<Rightarrow> bool" where
  "mwf m \<equiv> distinct (map fst m)"

abbreviation mput :: "'k \<Rightarrow> 'v \<Rightarrow> ('k, 'v) gomap \<Rightarrow> ('k, 'v) gomap" where
  "mput \<equiv> AList.update"

abbreviation mdel :: "'k \<Rightarrow> ('k, 'v) gomap \<Rightarrow> ('k, 'v) gomap" where
  "mdel \<equiv> AList.delete"

definition mhas :: "('k, 'v) gomap \<Rightarrow> 'k \<Rightarrow> bool" where
  "mhas m k = (map_of m k \<noteq> None)"

definition mkeep :: "('k \<Rightarrow> bool) \<Rightarrow> ('k, 'v) gomap \<Rightarrow> ('k, 'v) gomap" where
  "mkeep P m = filter (\<lambda>e. P (fst e)) m"

lemma map_of_mput [gomap_simps]: "map_of (mput k v m) = (map_of m)(k \<mapsto> v)"
  by (rule update_conv')

lemma map_of_mdel [gomap_simps]: "map_of (mdel k m) = (map_of m)(k := None)"
  by (rule delete_conv')

lemma mhas_iff [gomap_simps]: "mhas m k \<longleftrightarrow> k \<in> fst ` set m"
  by (auto simp: mhas_def map_of_eq_None_iff)

lemma map_of_mkeep [gomap_simps]: "map_of (mkeep P m) k = (if P k then map_of m k else None)"
  by (induction m) (auto simp: mkeep_def)

lemma mwf_mkeep [simp, intro]: "mwf m \<Longrightarrow> mwf (mkeep P m)"
  by (induction m) (auto simp: mkeep_def)

lemma mwf_mput [simp, intro]: "mwf m \<Longrightarrow> mwf (mput k v m)"
  by (rule distinct_update)

lemma mwf_mdel [simp, intro]: "mwf m \<Longrightarrow> mwf (mdel k m)"
  by (simp add: distinct_delete)

lemma keys_mput [gomap_simps]: "fst ` set (mput k v m) = insert k (fst ` set m)"
  by (simp add: dom_update)

lemma keys_mdel [gomap_simps]: "fst ` set (mdel k m) = fst ` set m - {k}"
  by (induction m) auto

lemma length_mwf: "mwf m \<Longrightarrow> length m = card (fst ` set m)"
  by (metis distinct_card length_map list.set_map)

lemma length_mput [gomap_simps]:
  "mwf m \<Longrightarrow> length (mput k v m) = (if mhas m k then length m else Suc (length m))"
  by (simp add: length_mwf keys_mput mhas_iff card_insert_if)

lemma mdel_notin: "k \<notin> fst ` set m \<Longrightarrow> mdel k m = m"
  by (rule delete_id)

lemma length_mdel_less: "map_of m k \<noteq> None \<Longrightarrow> length (mdel k m) < length m"
  by (induction m) (auto simp: less_Suc_eq_le length_delete_le split: if_splits)

section \<open>Little-endian encodings\<close>

text \<open>\<open>binary.LittleEndian.PutUint16/32/64\<close> and their inverses, byte by byte.\<close>

definition putLE :: "nat \<Rightarrow> nat \<Rightarrow> bytes" where
  "putLE w v = map (\<lambda>i. of_nat (v div 256 ^ i)) [0..<w]"

fun getLE :: "bytes \<Rightarrow> nat" where
  "getLE [] = 0"
| "getLE (b # bs) = unat b + 256 * getLE bs"

lemma length_putLE [simp]: "length (putLE w v) = w"
  by (simp add: putLE_def)

lemma putLE_0 [simp]: "putLE 0 v = []"
  by (simp add: putLE_def)

lemma putLE_Suc: "putLE (Suc w) v = of_nat v # putLE w (v div 256)"
  by (simp add: putLE_def upt_conv_Cons map_Suc_upt [symmetric] div_mult2_eq o_def
      del: upt_Suc)

lemma getLE_putLE [le_simps]: "getLE (putLE w v) = v mod 256 ^ w"
proof (induction w arbitrary: v)
  case 0
  then show ?case by simp
next
  case (Suc w)
  have "unat (of_nat v :: byte) = v mod 256"
    by (simp add: unat_of_nat)
  with Suc show ?case
    by (simp add: putLE_Suc mod_mult2_eq)
qed

lemma getLE_bound: "getLE bs < 256 ^ length bs"
proof (induction bs)
  case (Cons b bs)
  have "unat b < 256"
    using unsigned_less [of b, where ?'a = nat] by simp
  then have "unat b + 256 * getLE bs < 256 + 256 * getLE bs" by simp
  also have "\<dots> \<le> 256 * 256 ^ length bs"
    using Cons.IH by (simp add: Suc_le_eq [symmetric])
  finally show ?case by simp
qed simp

definition PutUint16 :: "u16 \<Rightarrow> bytes" where "PutUint16 v = putLE 2 (unat v)"
definition PutUint32 :: "u32 \<Rightarrow> bytes" where "PutUint32 v = putLE 4 (unat v)"
definition PutUint64 :: "u64 \<Rightarrow> bytes" where "PutUint64 v = putLE 8 (unat v)"

text \<open>The readers panic on a slice that is too short and ignore what follows.\<close>

definition Uint16 :: "bytes \<Rightarrow> ('e, u16) outcome" where
  "Uint16 d = (if length d < 2 then Panic IndexOutOfRange else Ok (of_nat (getLE (take 2 d))))"

definition Uint32 :: "bytes \<Rightarrow> ('e, u32) outcome" where
  "Uint32 d = (if length d < 4 then Panic IndexOutOfRange else Ok (of_nat (getLE (take 4 d))))"

definition Uint64 :: "bytes \<Rightarrow> ('e, u64) outcome" where
  "Uint64 d = (if length d < 8 then Panic IndexOutOfRange else Ok (of_nat (getLE (take 8 d))))"

lemma length_PutUint [simp]:
  "length (PutUint16 a) = 2" "length (PutUint32 b) = 4" "length (PutUint64 c) = 8"
  by (simp_all add: PutUint16_def PutUint32_def PutUint64_def)

lemma Uint16_PutUint16 [le_simps]: "Uint16 (PutUint16 v @ d) = Ok v"
  using unsigned_less [of v, where ?'a = nat] by (simp add: Uint16_def PutUint16_def le_simps)

lemma Uint32_PutUint32 [le_simps]: "Uint32 (PutUint32 v @ d) = Ok v"
  using unsigned_less [of v, where ?'a = nat] by (simp add: Uint32_def PutUint32_def le_simps)

lemma Uint64_PutUint64 [le_simps]: "Uint64 (PutUint64 v @ d) = Ok v"
  using unsigned_less [of v, where ?'a = nat] by (simp add: Uint64_def PutUint64_def le_simps)

lemmas Uint_PutUint_exact [le_simps] =
  Uint16_PutUint16 [where d = "[]", simplified] Uint32_PutUint32 [where d = "[]", simplified]
  Uint64_PutUint64 [where d = "[]", simplified]

text \<open>A Go slice expression \<open>d[i:j]\<close> panics unless \<open>i \<le> j \<le> len(d)\<close>.\<close>

definition slice :: "bytes \<Rightarrow> nat \<Rightarrow> nat \<Rightarrow> ('e, bytes) outcome" where
  "slice d i j = (if i \<le> j \<and> j \<le> length d then Ok (take (j - i) (drop i d)) else Panic IndexOutOfRange)"

section \<open>Decimal printing\<close>

text \<open>\<open>strconv.FormatUint(v, 10)\<close> and the \<open>%d\<close> verb.\<close>

definition digit_char :: "nat \<Rightarrow> char" where
  "digit_char d = char_of (48 + d)"

fun decimal :: "nat \<Rightarrow> string" where
  "decimal n = (if n < 10 then [digit_char n] else decimal (n div 10) @ [digit_char (n mod 10)])"

declare decimal.simps [simp del]

section \<open>Word arithmetic\<close>

lemma unat_lt_64: "unat (w :: u64) < 18446744073709551616"
  using unsigned_less [of w, where ?'a = nat] by simp

lemma unat_lt_8: "unat (b :: byte) < 256"
  using unsigned_less [of b, where ?'a = nat] by simp

lemma ucast_of_unat: "ucast w = of_nat (unat w)"
  by simp

lemma of_nat_eq_if_unat: "unat w = n \<Longrightarrow> w = of_nat n"
  by (metis of_nat_unat ucast_id)

lemma unat_Suc_less: "c < n \<Longrightarrow> unat (c + 1) = unat c + 1" for c n :: u64
  using unat_lt_64 [of n] by (simp add: word_less_nat_alt unat_word_ariths)

lemma and_one_odd: "and w 1 \<noteq> 0 \<longleftrightarrow> odd (unat w)" for w :: u64
  by (simp add: and_one_eq word_unat_eq_iff unat_mod_distrib odd_iff_mod_2_eq_one)

lemma unat_of_nat_small:
  "n < 2 ^ LENGTH('a) \<Longrightarrow> unat (of_nat n :: 'a::len word) = n"
  by (simp add: unat_of_nat take_bit_nat_eq_self_iff)

end
