(* ===== verification/Lexinum.thy ===== *)
theory Lexinum
  imports Prelude "HOL-Library.While_Combinator"
begin

text \<open>
  \<open>internal/lexinum/lexinum.go\<close>: the encoding of \<open>uint64\<close> values that every database key of
  the broadcast store is built from. The three promises its clients rely on are collected in the
  locale \<open>order_codec\<close>: decoding inverts encoding, the encoding is strictly monotone for
  \<open>bytes.Compare\<close>, and no encoded byte is \<open>0x00\<close> (the separator of the key layout).
\<close>

unbundle bit_operations_syntax

section \<open>The code\<close>

definition maxSmall :: u64 where
  "maxSmall = 8258175"

function pow_loop :: "u64 \<Rightarrow> u64 \<Rightarrow> u64 \<Rightarrow> u64" where
  "pow_loop n a b =
     (if b > 0 then pow_loop (if b AND 1 \<noteq> 0 then n * a else n) (a * a) (drop_bit 1 b) else n)"
  by pat_completeness auto
termination
  by (relation "measure (\<lambda>(n, a, b). unat b)")
    (auto simp: unat_drop_bit_eq drop_bit_nat_def word_less_nat_alt)

declare pow_loop.simps [simp del]

definition pow :: "u64 \<Rightarrow> u64 \<Rightarrow> u64" where
  "pow a b = pow_loop 1 a b"

datatype lexinum_error = SliceTooSmall | FirstByteNegative byte | SmallIntTooSmall

fun decode_big :: "bytes \<Rightarrow> bytes \<Rightarrow> nat \<Rightarrow> u64 \<Rightarrow> (lexinum_error, u64 \<times> u64) outcome" where
  "decode_big d [] i v = Ok (v, 0)"
| "decode_big d (c # cs) i v =
     (if c = 1 then
        (if i + 3 < length d then Ok (v, ucast (d ! (i + 3))) else Panic IndexOutOfRange)
      else decode_big d cs (Suc i) (v + (v * 252 + ucast (c - 2))))"

definition Decode :: "bytes \<Rightarrow> (lexinum_error, u64) outcome" where
  "Decode d =
     (if length d < 2 then Err SliceTooSmall
      else if d ! 0 < 0x80 then Err (FirstByteNegative (d ! 0))
      else if d ! 0 = 0xff then
        omap (\<lambda>(v, rem). v * 255 + rem + maxSmall) (decode_big d (drop 2 d) 0 0)
      else if length d < 3 then Err SmallIntTooSmall
      else Ok ((ucast (d ! 0 - 128) * 255 + ucast (d ! 1 - 1)) * 255 + ucast (d ! 2 - 1)))"

function chars_loop :: "u64 \<Rightarrow> bytes \<Rightarrow> bytes" where
  "chars_loop lead chars =
     (if lead = 0 then chars
      else chars_loop (lead div 253) (chars @ [ucast (lead mod 253 + 2)]))"
  by pat_completeness auto
termination
  by (relation "measure (\<lambda>(lead, chars). unat lead)")
    (auto simp: unat_div unat_gt_0 intro: div_less_dividend)

declare chars_loop.simps [simp del]

definition count_loop :: "u64 \<Rightarrow> u64" where
  "count_loop lead = while (\<lambda>n. lead div pow 253 n > 0) (\<lambda>n. n + 1) 1"

definition Encode :: "u64 \<Rightarrow> bytes" where
  "Encode v =
     (if v = 0 then [0x80, 0x01, 0x01]
      else if v < maxSmall then
        (let div1 = v div 255; mod1 = v mod 255 in
         if div1 > 0 then
           (let div2 = div1 div 255; mod2 = div1 mod 255 in
            [if div2 > 0 then ucast (div2 + 128) else 0x80, ucast (mod2 + 1), ucast (mod1 + 1)])
         else [0x80, 0x01, ucast (mod1 + 1)])
      else
        (let v' = v - maxSmall; lead = v' div 255; rem = v' mod 255; n = count_loop lead;
             enc = [0xff, ucast n + 1] @ rev (chars_loop lead [])
         in if rem > 0 then enc @ [0x01, ucast rem] else enc))"

section \<open>Base-253 digits\<close>

text \<open>The reference reading of the big-number branch: most significant digit first.\<close>

fun digs :: "nat \<Rightarrow> nat list" where
  "digs n = (if n = 0 then [] else digs (n div 253) @ [n mod 253])"

declare digs.simps [simp del]

lemma digs_0 [simp]: "digs 0 = []"
  by (simp add: digs.simps)

lemma digs_pos: "n > 0 \<Longrightarrow> digs n = digs (n div 253) @ [n mod 253]"
  by (simp add: digs.simps [of n])

lemma digs_less: "d \<in> set (digs n) \<Longrightarrow> d < 253"
proof (induction n rule: digs.induct)
  case (1 n)
  then show ?case by (cases "n = 0") (auto simp: digs_pos)
qed

lemma length_digs: "length (digs n) \<le> k \<longleftrightarrow> n < 253 ^ k"
proof (induction k arbitrary: n)
  case 0
  show ?case by (cases "n = 0") (auto simp: digs_pos)
next
  case (Suc k)
  show ?case
  proof (cases "n = 0")
    case False
    then show ?thesis
      using Suc [of "n div 253"] by (simp add: digs_pos div_less_iff_less_mult mult.commute)
  qed simp
qed

definition undigs :: "nat \<Rightarrow> nat list \<Rightarrow> nat" where
  "undigs v ds = foldl (\<lambda>v d. v * 253 + d) v ds"

lemma undigs_digs: "undigs 0 (digs n) = n"
proof (induction n rule: digs.induct)
  case (1 n)
  then show ?case by (cases "n = 0") (auto simp: digs_pos undigs_def)
qed

lemma digs_hd_pos: "n > 0 \<Longrightarrow> digs n \<noteq> [] \<and> hd (digs n) > 0"
proof (induction n rule: digs.induct)
  case (1 n)
  show ?case
  proof (cases "n div 253 = 0")
    case True
    with 1(2) show ?thesis by (simp add: digs_pos)
  next
    case False
    with 1 have "digs (n div 253) \<noteq> []" "hd (digs (n div 253)) > 0" by auto
    with 1(2) show ?thesis by (simp add: digs_pos)
  qed
qed

section \<open>The loops compute what they should\<close>

lemma pow_loop_eq: "pow_loop n a b = n * a ^ unat b"
proof (induction n a b rule: pow_loop.induct)
  case (1 n a b)
  show ?case
  proof (cases "b > 0")
    case True
    let ?h = "unat b div 2"
    have half: "unat (drop_bit 1 b) = ?h"
      by (simp add: unat_drop_bit_eq drop_bit_nat_def)
    have odd: "(b AND 1 \<noteq> 0) = odd (unat b)"
      by (rule and_one_odd)
    have sq: "(a * a) ^ ?h = a ^ (2 * ?h)"
      by (simp add: power_mult power2_eq_square)
    have "pow_loop n a b = (if odd (unat b) then n * a else n) * a ^ (2 * ?h)"
      using 1 [OF True, unfolded odd half sq] True
      by (simp only: pow_loop.simps [of n a b] if_True odd)
    also have "\<dots> = n * a ^ unat b"
      by (cases "odd (unat b)")
        (simp_all add: odd_two_times_div_two_nat mult.assoc power_Suc [symmetric] del: power_Suc)
    finally show ?thesis .
  next
    case False
    then show ?thesis by (simp add: pow_loop.simps word_greater_zero_iff)
  qed
qed

lemma pow_eq: "pow a b = a ^ unat b"
  by (simp add: pow_def pow_loop_eq)

lemma unat_pow253: "k \<le> 8 \<Longrightarrow> unat ((253 :: u64) ^ k) = 253 ^ k"
proof -
  assume k: "k \<le> 8"
  have "(253 :: nat) ^ k \<le> 253 ^ 8"
    using k by (rule power_increasing) simp
  then have "(253 :: nat) ^ k < 2 ^ LENGTH(64)" by simp
  then have "unat (of_nat (253 ^ k) :: u64) = 253 ^ k"
    by (rule unat_of_nat_small)
  then show ?thesis by simp
qed

text \<open>The counting loop stops, and counts the base-253 digits (at least one).\<close>

definition ndigits :: "nat \<Rightarrow> nat" where
  "ndigits n = max 1 (length (digs n))"

lemma ndigits_le_8: "n < 253 ^ 8 \<Longrightarrow> ndigits n \<le> 8"
  by (simp add: ndigits_def length_digs)

lemma count_guard:
  assumes "unat lead < 253 ^ 8" and "unat n \<le> 8"
  shows "lead div pow 253 n > 0 \<longleftrightarrow> 253 ^ unat n \<le> unat lead"
  using assms
  by (simp add: pow_eq word_less_nat_alt unat_div unat_pow253 div_greater_zero_iff)

lemma count_loop_eq:
  assumes lead: "unat lead < 253 ^ 8"
  shows "count_loop lead = of_nat (ndigits (unat lead))"
proof -
  let ?k = "ndigits (unat lead)"
  have k8: "?k \<le> 8" by (rule ndigits_le_8 [OF lead])
  have guard: "lead div pow 253 n > 0 \<longleftrightarrow> unat n < length (digs (unat lead))" if "unat n \<le> 8" for n
    using count_guard [OF lead that] length_digs [of "unat lead" "unat n"] by auto
  have inc: "unat (n + 1) = Suc (unat n)" if "unat n \<le> 8" for n :: u64
    using that by (simp add: unat_word_ariths)
  show ?thesis
    unfolding count_loop_def
  proof (rule while_rule [where P = "\<lambda>n. 1 \<le> unat n \<and> unat n \<le> ?k" and r = "measure (\<lambda>n. ?k - unat n)"])
    show "1 \<le> unat (1 :: u64) \<and> unat (1 :: u64) \<le> ?k" by (simp add: ndigits_def)
  next
    fix n :: u64 assume "1 \<le> unat n \<and> unat n \<le> ?k" "0 < lead div pow 253 n"
    with k8 have "unat n \<le> 8" "unat n < length (digs (unat lead))" using guard [of n] by auto
    then show "1 \<le> unat (n + 1) \<and> unat (n + 1) \<le> ?k"
      using inc [of n] by (simp add: ndigits_def)
  next
    fix n :: u64 assume n: "1 \<le> unat n \<and> unat n \<le> ?k" "\<not> 0 < lead div pow 253 n"
    with k8 have "unat n \<le> 8" by simp
    with n guard [of n] have "unat n = ?k" by (auto simp: ndigits_def)
    then show "n = of_nat ?k" by (rule of_nat_eq_if_unat)
  next
    fix n :: u64 assume n: "1 \<le> unat n \<and> unat n \<le> ?k" "0 < lead div pow 253 n"
    with k8 have "unat n \<le> 8" by simp
    with n guard [of n] inc [of n] show "(n + 1, n) \<in> measure (\<lambda>n. ?k - unat n)"
      by (auto simp: ndigits_def)
  qed simp
qed

abbreviation digit_byte :: "nat \<Rightarrow> byte" where
  "digit_byte d \<equiv> of_nat (d + 2)"

lemma chars_loop_eq: "chars_loop lead cs = cs @ rev (map digit_byte (digs (unat lead)))"
proof (induction lead cs rule: chars_loop.induct)
  case (1 lead cs)
  show ?case
  proof (cases "lead = 0")
    case False
    then have pos: "unat lead > 0" by (simp add: unat_gt_0)
    have "(ucast (lead mod 253 + 2) :: byte) = digit_byte (unat lead mod 253)"
    proof -
      have "unat lead mod 253 + 2 < 2 ^ LENGTH(64)"
        using mod_less_divisor [of 253 "unat lead"] by (simp del: mod_less_divisor)
      then have "unat (lead mod 253 + 2) = unat lead mod 253 + 2"
        by (simp add: unat_word_ariths unat_mod_distrib)
      then show ?thesis
        by (simp only: ucast_of_unat)
    qed
    then show ?thesis
      using 1 [OF False] False pos
      by (simp add: chars_loop.simps [of lead cs] digs_pos unat_div)
  qed (simp add: chars_loop.simps)
qed

section \<open>Closed forms\<close>

definition enc_small :: "nat \<Rightarrow> bytes" where
  "enc_small n = [of_nat (128 + n div 65025), of_nat (1 + n div 255 mod 255), of_nat (1 + n mod 255)]"

definition enc_tail :: "nat \<Rightarrow> nat \<Rightarrow> bytes" where
  "enc_tail lead rem = map digit_byte (digs lead) @ (if rem = 0 then [] else [1, of_nat rem])"

definition enc_big :: "nat \<Rightarrow> bytes" where
  "enc_big n = 0xff # of_nat (ndigits (n div 255) + 1) # enc_tail (n div 255) (n mod 255)"

lemma unat_maxSmall [simp]: "unat maxSmall = 8258175"
  by (simp add: maxSmall_def)

lemma ucast_add_small:
  assumes "unat (w :: u64) + k < 2 ^ 64"
  shows "(ucast (w + of_nat k) :: byte) = of_nat (unat w + k)"
proof -
  have "unat (w + of_nat k) = unat w + k"
    using assms by (simp add: unat_word_ariths unat_of_nat_small)
  then show ?thesis by (simp only: ucast_of_unat)
qed

lemma Encode_small:
  assumes "v < maxSmall"
  shows "Encode v = enc_small (unat v)"
proof (cases "v = 0")
  case True
  then show ?thesis by (simp add: Encode_def enc_small_def)
next
  case False
  let ?n = "unat v"
  have n: "?n < 8258175" using assms by (simp add: word_less_nat_alt)
  have d1: "unat (v div 255) = ?n div 255" and m1: "unat (v mod 255) = ?n mod 255"
    by (simp_all add: unat_div unat_mod_distrib)
  have d2: "unat (v div 255 div 255) = ?n div 65025" and m2: "unat (v div 255 mod 255) = ?n div 255 mod 255"
    by (simp_all add: unat_div unat_mod_distrib div_mult2_eq [symmetric])
  have c0: "(ucast (v div 255 div 255 + 128) :: byte) = of_nat (128 + ?n div 65025)"
    using ucast_add_small [of "v div 255 div 255" 128] n by (simp add: d2 add.commute)
  have c1: "(ucast (v div 255 mod 255 + 1) :: byte) = of_nat (1 + ?n div 255 mod 255)"
    using ucast_add_small [of "v div 255 mod 255" 1] n by (simp add: m2 add.commute)
  have c2: "(ucast (v mod 255 + 1) :: byte) = of_nat (1 + ?n mod 255)"
    using ucast_add_small [of "v mod 255" 1] n by (simp add: m1 add.commute)
  have g1: "v div 255 > 0 \<longleftrightarrow> ?n div 255 > 0" and g2: "v div 255 div 255 > 0 \<longleftrightarrow> ?n div 65025 > 0"
    by (simp_all only: word_less_nat_alt d1 d2 unat_0)
  have z: "?n div 255 = 0 \<Longrightarrow> ?n div 65025 = 0"
    by (simp add: div_eq_0_iff)
  show ?thesis
    using False assms
    by (auto simp: Encode_def Let_def enc_small_def g1 g2 c0 c1 c2 z simp del: of_nat_add)
qed

lemma Encode_big:
  assumes "\<not> v < maxSmall"
  shows "Encode v = enc_big (unat v - 8258175)"
proof -
  let ?w = "v - maxSmall"
  let ?n = "unat v - 8258175"
  have ge: "8258175 \<le> unat v" using assms by (simp add: word_less_nat_alt)
  have w: "unat ?w = ?n"
    using ge by (simp add: unat_sub word_le_nat_alt)
  have lead: "unat (?w div 255) = ?n div 255" and rem: "unat (?w mod 255) = ?n mod 255"
    by (simp_all add: unat_div unat_mod_distrib w)
  have bound: "unat (?w div 255) < 253 ^ 8"
    using unat_lt_64 [of v] by (simp add: lead div_less_iff_less_mult)
  have nz: "v \<noteq> 0" using ge by auto
  have cnt: "(ucast (count_loop (?w div 255)) + 1 :: byte) = of_nat (ndigits (?n div 255) + 1)"
    using ndigits_le_8 [OF bound] bound
    by (simp add: count_loop_eq lead ucast_of_unat unat_of_nat_small del: of_nat_unat)
  have rem0: "?w mod 255 > 0 \<longleftrightarrow> ?n mod 255 \<noteq> 0"
    by (simp only: word_less_nat_alt rem unat_0 neq0_conv)
  have remb: "(ucast (?w mod 255) :: byte) = of_nat (?n mod 255)"
    by (simp only: ucast_of_unat rem)
  show ?thesis
    using assms nz
    by (simp add: Encode_def Let_def enc_big_def enc_tail_def cnt rem0 remb chars_loop_eq lead
        del: of_nat_add)
qed

section \<open>Decoding inverts encoding\<close>

lemma ucast_byte_of_nat: "k < 256 \<Longrightarrow> (ucast (of_nat k :: byte) :: u64) = of_nat k"
  by (simp only: ucast_of_unat unat_of_nat_small [where 'a = 8, simplified])

lemma unat_byte_of_nat: "k < 256 \<Longrightarrow> unat (of_nat k :: byte) = k"
  by (rule unat_of_nat_small) simp

lemma byte_of_nat_less: "j < 256 \<Longrightarrow> k < 256 \<Longrightarrow> (of_nat j :: byte) < of_nat k \<longleftrightarrow> j < k"
  by (simp add: word_less_nat_alt unat_byte_of_nat)

lemma byte_of_nat_eq: "j < 256 \<Longrightarrow> k < 256 \<Longrightarrow> (of_nat j :: byte) = of_nat k \<longleftrightarrow> j = k"
  by (simp add: word_unat_eq_iff unat_byte_of_nat)

lemma byte_of_nat_lessI: "j < k \<Longrightarrow> k < 256 \<Longrightarrow> (of_nat j :: byte) < of_nat k"
  by (subst byte_of_nat_less) simp_all

lemma byte_of_nat_neq0: "0 < k \<Longrightarrow> k < 256 \<Longrightarrow> (of_nat k :: byte) \<noteq> 0"
  using byte_of_nat_eq [of k 0] by simp

lemma Decode_enc_small:
  assumes n: "n < 8258175"
  shows "Decode (enc_small n) = Ok (of_nat n)"
proof -
  let ?a = "n div 65025" and ?b = "n div 255 mod 255" and ?c = "n mod 255"
  have a: "?a < 127" using n by (simp add: div_less_iff_less_mult)
  have b: "?b < 255" and c: "?c < 255" by simp_all
  have "\<not> (of_nat (128 + ?a) :: byte) < of_nat 128" "(of_nat (128 + ?a) :: byte) \<noteq> of_nat 255"
    using a by (simp_all add: byte_of_nat_less byte_of_nat_eq del: of_nat_add of_nat_numeral)
  then have h: "\<not> (of_nat (128 + ?a) :: byte) < 0x80" "(of_nat (128 + ?a) :: byte) \<noteq> 0xff"
    by simp_all
  have sub: "ucast (of_nat (128 + ?a) - 128 :: byte) = (of_nat ?a :: u64)"
    "ucast (of_nat (1 + ?b) - 1 :: byte) = (of_nat ?b :: u64)"
    "ucast (of_nat (1 + ?c) - 1 :: byte) = (of_nat ?c :: u64)"
    using a b c by (simp_all add: ucast_byte_of_nat)
  have "?a = n div 255 div 255"
    by (simp add: div_mult2_eq [symmetric])
  then have "(?a * 255 + ?b) * 255 + ?c = n"
    by (simp only: div_mult_mod_eq)
  then have "of_nat ((?a * 255 + ?b) * 255 + ?c) = (of_nat n :: u64)"
    by (rule arg_cong)
  then have "((of_nat ?a * 255 + of_nat ?b) * 255 + of_nat ?c :: u64) = of_nat n"
    by (simp only: of_nat_add of_nat_mult of_nat_numeral)
  moreover have "(ucast (of_nat ?b :: byte) :: u64) = of_nat ?b" "(ucast (of_nat ?c :: byte) :: u64) = of_nat ?c"
    using b c by (simp_all add: ucast_byte_of_nat)
  ultimately show ?thesis
    using h by (simp add: Decode_def enc_small_def sub del: of_nat_add)
qed

lemma decode_big_digits:
  assumes "\<And>x. x \<in> set ds \<Longrightarrow> x < 253"
  shows "decode_big d (map digit_byte ds @ cs) i (of_nat m) =
         decode_big d cs (i + length ds) (of_nat (undigs m ds))"
  using assms
proof (induction ds arbitrary: i m)
  case Nil
  then show ?case by (simp add: undigs_def)
next
  case (Cons x ds)
  from Cons.prems have x: "x < 253" by simp
  have ne: "digit_byte x \<noteq> of_nat 1"
    using x by (simp add: byte_of_nat_eq del: of_nat_1 of_nat_Suc of_nat_add)
  have sub: "(ucast (digit_byte x - 2) :: u64) = of_nat x"
    using x by (simp add: ucast_byte_of_nat)
  have step: "of_nat m + (of_nat m * 252 + of_nat x) = (of_nat (m * 253 + x) :: u64)"
    by (simp add: algebra_simps)
  have "decode_big d (map digit_byte (x # ds) @ cs) i (of_nat m) =
        decode_big d (map digit_byte ds @ cs) (Suc i) (of_nat m + (of_nat m * 252 + of_nat x))"
    using ne by (simp only: list.map append.simps decode_big.simps sub of_nat_1 if_False)
  also have "\<dots> = decode_big d cs (i + length (x # ds)) (of_nat (undigs m (x # ds)))"
    using Cons.IH [of "Suc i" "m * 253 + x"] Cons.prems
    by (simp only: step) (simp add: undigs_def)
  finally show ?case .
qed

lemma Decode_enc_big: "Decode (enc_big n) = Ok (of_nat n + maxSmall)"
proof -
  let ?l = "n div 255" and ?r = "n mod 255"
  let ?d = "enc_big n"
  have n: "(of_nat ?l * 255 + of_nat ?r :: u64) = of_nat n"
    by (metis div_mult_mod_eq of_nat_add of_nat_mult of_nat_numeral)
  have "decode_big ?d (drop 2 ?d) 0 (of_nat 0) =
        decode_big ?d (if ?r = 0 then [] else [1, of_nat ?r]) (length (digs ?l)) (of_nat ?l)"
    using decode_big_digits [of "digs ?l" ?d "if ?r = 0 then [] else [1, of_nat ?r]" 0 0, OF digs_less]
    by (simp only: undigs_digs add_0) (simp add: enc_big_def enc_tail_def)
  also have "\<dots> = Ok (of_nat ?l, of_nat ?r)"
    by (auto simp: enc_big_def enc_tail_def nth_append ucast_byte_of_nat)
  finally show ?thesis
    using n by (simp add: Decode_def) (simp add: enc_big_def)
qed

lemma Decode_Encode: "Decode (Encode v) = Ok v"
proof (cases "v < maxSmall")
  case True
  then show ?thesis
    by (simp add: Encode_small Decode_enc_small word_less_nat_alt)
next
  case False
  then have "8258175 \<le> unat v" by (simp add: word_less_nat_alt)
  then have "(of_nat (unat v - 8258175) + maxSmall :: u64) = v"
    by (simp add: of_nat_diff maxSmall_def)
  with False show ?thesis
    by (simp add: Encode_big Decode_enc_big)
qed

section \<open>The encoding is strictly monotone\<close>

lemma list_less_append: "length xs = length ys \<Longrightarrow> xs < ys \<Longrightarrow> xs @ a < ys @ b"
  for xs :: "'a::linorder list"
  by (induction xs ys rule: list_induct2) auto

lemma list_less_append_same: "xs @ a < xs @ b \<longleftrightarrow> a < b" for xs :: "'a::linorder list"
  by (induction xs) auto

lemma digit_byte_less: "a < 253 \<Longrightarrow> b < 253 \<Longrightarrow> a < b \<Longrightarrow> digit_byte a < digit_byte b"
  by (rule byte_of_nat_lessI) simp_all

lemma digs_mono: "a \<le> b \<Longrightarrow> length (digs a) \<le> length (digs b)"
  by (meson le_less_trans length_digs order_refl)

lemma digs_less_order:
  "a < b \<Longrightarrow> length (digs a) = length (digs b) \<Longrightarrow> map digit_byte (digs a) < map digit_byte (digs b)"
proof (induction b arbitrary: a rule: digs.induct)
  case (1 b)
  then have pos: "b > 0" by simp
  with 1(3) have a: "a > 0" by (cases "a = 0") (auto simp: digs_pos)
  note split = digs_pos [OF pos] digs_pos [OF a]
  show ?case
  proof (cases "a div 253 < b div 253")
    case True
    with 1(1) [of "a div 253"] pos 1(3) split
    have "map digit_byte (digs (a div 253)) < map digit_byte (digs (b div 253))" by simp
    with 1(3) split show ?thesis
      by (simp add: list_less_append del: of_nat_add)
  next
    case False
    with 1(2) have eq: "a div 253 = b div 253"
      by (meson div_le_mono le_neq_implies_less less_imp_le)
    with 1(2) have "a mod 253 < b mod 253"
      by (metis add_less_cancel_left div_mult_mod_eq)
    then have "digit_byte (a mod 253) < digit_byte (b mod 253)"
      by (intro digit_byte_less) simp_all
    with eq split show ?thesis
      by (simp add: list_less_append_same del: of_nat_add)
  qed
qed

lemma enc_tail_order:
  assumes less: "l < l' \<or> l = l' \<and> r < r'" and len: "ndigits l = ndigits l'" and r: "r < 255" "r' < 255"
  shows "enc_tail l r < enc_tail l' r'"
proof (cases "l < l'")
  case False
  with less have "l = l'" and "r < r'" by auto
  with r show ?thesis
    by (auto simp: enc_tail_def list_less_append_same byte_of_nat_less)
next
  case True
  show ?thesis
  proof (cases "l = 0")
    case zero: True
    obtain x xs where x: "digs l' = x # xs" "x > 0" "x < 253"
      using True digs_hd_pos [of l'] digs_less by (metis gr_implies_not0 list.collapse list.set_intros(1) neq0_conv)
    then have "(of_nat 1 :: byte) < digit_byte x"
      by (intro byte_of_nat_lessI) simp_all
    with zero x(1) show ?thesis
      by (simp add: enc_tail_def del: of_nat_add)
  next
    case False
    with True have "digs l \<noteq> []" "digs l' \<noteq> []"
      using digs_hd_pos [of l] digs_hd_pos [of l'] by auto
    then have "length (digs l) \<ge> 1" "length (digs l') \<ge> 1" by (simp_all add: Suc_le_eq)
    with len have "length (digs l) = length (digs l')" by (simp add: ndigits_def)
    with digs_less_order [OF True this] show ?thesis
      by (simp add: enc_tail_def list_less_append del: of_nat_add)
  qed
qed

lemma enc_big_order:
  assumes "m < n" and n: "n < 2 ^ 64"
  shows "enc_big m < enc_big n"
proof -
  let ?l = "m div 255" and ?l' = "n div 255"
  have le: "?l \<le> ?l'" using assms(1) by (simp add: div_le_mono)
  have lex: "?l < ?l' \<or> ?l = ?l' \<and> m mod 255 < n mod 255"
    using le assms(1) by (metis add_less_cancel_left div_mult_mod_eq le_neq_implies_less)
  have mono: "ndigits ?l \<le> ndigits ?l'"
    using digs_mono [OF le] by (auto simp: ndigits_def)
  have small: "ndigits ?l' \<le> 8"
    using n by (intro ndigits_le_8) (simp add: div_less_iff_less_mult)
  show ?thesis
  proof (cases "ndigits ?l = ndigits ?l'")
    case True
    with enc_tail_order [OF lex True] show ?thesis
      by (simp add: enc_big_def)
  next
    case False
    with mono small have "(of_nat (ndigits ?l + 1) :: byte) < of_nat (ndigits ?l' + 1)"
      by (intro byte_of_nat_lessI) simp_all
    then show ?thesis by (simp add: enc_big_def del: of_nat_add)
  qed
qed

lemma enc_small_order:
  assumes "m < n" and n: "n < 8258175"
  shows "enc_small m < enc_small n"
proof -
  have bound: "n div 65025 < 127" "m div 65025 < 127"
    using assms by (simp_all add: div_less_iff_less_mult)
  have "m div 65025 = m div 255 div 255" "n div 65025 = n div 255 div 255"
    by (simp_all add: div_mult2_eq [symmetric])
  then have "m div 65025 < n div 65025 \<or> m div 65025 = n div 65025 \<and>
      (m div 255 mod 255 < n div 255 mod 255 \<or>
       m div 255 mod 255 = n div 255 mod 255 \<and> m mod 255 < n mod 255)"
    using assms(1)
    by (metis add_less_cancel_left div_le_mono div_mult_mod_eq le_neq_implies_less less_imp_le)
  moreover have "k mod 255 + 1 < 256" for k :: nat
    using mod_less_divisor [of 255 k] by simp
  ultimately show ?thesis
    using bound by (auto simp: enc_small_def byte_of_nat_less byte_of_nat_eq simp del: of_nat_add of_nat_Suc)
qed

lemma Encode_strict_mono: "v < w \<Longrightarrow> Encode v < Encode w"
proof -
  assume less: "v < w"
  then have n: "unat v < unat w" by (simp add: word_less_nat_alt)
  consider (small) "w < maxSmall" | (mixed) "v < maxSmall" "\<not> w < maxSmall" | (big) "\<not> v < maxSmall"
    by blast
  then show ?thesis
  proof cases
    case small
    with less have "v < maxSmall" by simp
    with small n show ?thesis
      by (simp add: Encode_small enc_small_order word_less_nat_alt)
  next
    case mixed
    have "unat v div 65025 < 127" using mixed(1) by (simp add: word_less_nat_alt div_less_iff_less_mult)
    then have "(of_nat (128 + unat v div 65025) :: byte) < of_nat 255"
      by (simp add: byte_of_nat_less del: of_nat_add of_nat_numeral)
    with mixed show ?thesis
      by (simp add: Encode_small Encode_big enc_small_def enc_big_def)
  next
    case big
    with less have "\<not> w < maxSmall" by simp
    moreover have "unat v - 8258175 < unat w - 8258175"
      using big n by (simp add: word_less_nat_alt)
    ultimately show ?thesis
      using big unat_lt_64 [of w] by (simp add: Encode_big enc_big_order)
  qed
qed

section \<open>No separator byte occurs in an encoding\<close>

lemma Encode_nonzero: "0 \<notin> set (Encode v)"
proof (cases "v < maxSmall")
  case True
  then have a: "unat v div 65025 < 127" by (simp add: word_less_nat_alt div_less_iff_less_mult)
  have m: "k mod 255 < 255" for k :: nat by simp
  have "(of_nat (128 + unat v div 65025) :: byte) \<noteq> 0"
    "(of_nat (1 + unat v div 255 mod 255) :: byte) \<noteq> 0" "(of_nat (1 + unat v mod 255) :: byte) \<noteq> 0"
    using a m [of "unat v div 255"] m [of "unat v"] by (intro byte_of_nat_neq0; linarith)+
  with True show ?thesis
    by (auto simp: Encode_small enc_small_def simp del: of_nat_add of_nat_Suc)
next
  case False
  let ?n = "unat v - 8258175"
  have small: "ndigits (?n div 255) \<le> 8"
    using unat_lt_64 [of v] by (intro ndigits_le_8) (simp add: div_less_iff_less_mult)
  then have "(of_nat (ndigits (?n div 255) + 1) :: byte) \<noteq> 0"
    by (intro byte_of_nat_neq0) simp_all
  moreover have "digit_byte d \<noteq> 0" if "d \<in> set (digs k)" for d k
    using digs_less [OF that] by (intro byte_of_nat_neq0) simp_all
  moreover have "?n mod 255 \<noteq> 0 \<Longrightarrow> (of_nat (?n mod 255) :: byte) \<noteq> 0"
    by (intro byte_of_nat_neq0) (auto intro: less_trans [OF mod_less_divisor])
  ultimately show ?thesis
    using False by (auto simp: Encode_big enc_big_def enc_tail_def simp del: of_nat_add)
qed

section \<open>The contract of the key encoding\<close>

text \<open>
  What the key layouts of the broadcast store rely on. Inside the locale: two fields joined by the
  separator \<open>0x00\<close> can be taken apart again, and joined keys sort by their fields.
\<close>

lemma separated_less:
  "xs < ys \<Longrightarrow> 0 \<notin> set ys \<Longrightarrow> xs @ 0 # a < ys @ 0 # b" for xs ys :: bytes
proof (induction xs arbitrary: ys)
  case Nil
  then show ?case by (cases ys) (auto simp: word_neq_0_conv)
next
  case (Cons x xs)
  then show ?case by (cases ys) auto
qed

lemma separated_eq:
  "0 \<notin> set xs \<Longrightarrow> 0 \<notin> set ys \<Longrightarrow> xs @ 0 # a = ys @ 0 # b \<longleftrightarrow> xs = ys \<and> a = b" for xs ys :: bytes
proof (induction xs arbitrary: ys)
  case Nil
  then show ?case by (cases ys) auto
next
  case (Cons x xs)
  then show ?case by (cases ys) auto
qed

locale order_codec =
  fixes enc :: "'v::linorder \<Rightarrow> bytes" and dec :: "bytes \<Rightarrow> ('e, 'v) outcome"
  assumes dec_enc: "dec (enc v) = Ok v"
    and enc_mono: "v < w \<Longrightarrow> enc v < enc w"
    and enc_nonzero: "0 \<notin> set (enc v)"
begin

lemma enc_inj: "enc v = enc w \<longleftrightarrow> v = w"
  by (metis dec_enc outcome.inject(1))

lemma enc_less_iff: "enc v < enc w \<longleftrightarrow> v < w"
  by (metis enc_mono less_asym neqE)

lemma enc_nonempty_or_equal: "v < w \<Longrightarrow> enc w \<noteq> []"
  using enc_mono by fastforce

lemma enc_field_eq: "enc v @ 0 # a = enc w @ 0 # b \<longleftrightarrow> v = w \<and> a = b"
  by (simp add: separated_eq enc_nonzero enc_inj)

lemma enc_field_less: "enc v @ 0 # a < enc w @ 0 # b \<longleftrightarrow> v < w \<or> v = w \<and> a < b"
proof (cases v w rule: linorder_cases)
  case less
  then show ?thesis
    using separated_less [OF enc_mono [OF less] enc_nonzero] by auto
next
  case equal
  then show ?thesis by (simp add: list_less_append_same)
next
  case greater
  then have "enc w @ 0 # b < enc v @ 0 # a"
    by (intro separated_less enc_mono enc_nonzero)
  with greater show ?thesis by auto
qed

lemma enc_takeWhile: "takeWhile (\<lambda>c. c \<noteq> 0) (enc v @ 0 # a) = enc v"
  using enc_nonzero [of v] by (induction "enc v") (auto simp: takeWhile_append)

end

interpretation lex: order_codec Encode Decode
  by unfold_locales (rule Decode_Encode, rule Encode_strict_mono, assumption, rule Encode_nonzero)

section \<open>Properties\<close>

text \<open>\<^bold>\<open>C32\<close>: decoding an encoded number gives the number back, for every 64-bit value.\<close>

theorem lexinum_roundtrip: "Decode (Encode v) = Ok v"
  by (rule lex.dec_enc)

text \<open>\<^bold>\<open>C33\<close>: the encoding is order preserving: encoded values compare under \<open>bytes.Compare\<close>
  exactly as the numbers do, for all 64-bit values (small, big and mixed).\<close>

theorem lexinum_order: "Encode v < Encode w \<longleftrightarrow> v < w"
  by (rule lex.enc_less_iff)

end
