(* ===== verification/Bitset.thy ===== *)
theory Bitset
  imports Prelude
begin

text \<open>
  \<open>blockmania/bitset.go\<close>: the vote counters of the consensus. A bitset is two arrays of 64-bit
  words, indexed by node identifier. Its contract is the locale \<open>vote_set\<close> (an abstract finite
  set of voters with insertion, membership and cardinality), interpreted once on the prepares and
  once on the commits.
\<close>

unbundle bit_operations_syntax

named_theorems vote_simps \<open>laws of vote sets\<close>

section \<open>The code\<close>

record bitset =
  commits :: "u64 list"
  prepares :: "u64 list"

definition clone_bitset :: "bitset \<Rightarrow> bitset" where
  "clone_bitset b = \<lparr>commits = map id (commits b), prepares = map id (prepares b)\<rparr>"

text \<open>\<open>bits.OnesCount64\<close> of the standard library.\<close>

definition OnesCount64 :: "u64 \<Rightarrow> nat" where
  "OnesCount64 w = length (filter (bit w) [0..<64])"

definition commitCount :: "bitset \<Rightarrow> nat" where
  "commitCount b = fold (\<lambda>word c. c + OnesCount64 word) (commits b) 0"

definition word_test :: "u64 list \<Rightarrow> u64 \<Rightarrow> bool may_panic" where
  "word_test ws v =
     (let i = unat (drop_bit 6 v) in
      if i < length ws then Ok ((ws ! i) AND push_bit (unat (v AND 63)) 1 \<noteq> 0)
      else Panic IndexOutOfRange)"

definition word_mark :: "u64 list \<Rightarrow> u64 \<Rightarrow> (u64 list) may_panic" where
  "word_mark ws v =
     (let i = unat (drop_bit 6 v) in
      if i < length ws then Ok (ws[i := (ws ! i) OR push_bit (unat (v AND 63)) 1])
      else Panic IndexOutOfRange)"

definition hasCommit :: "bitset \<Rightarrow> u64 \<Rightarrow> bool may_panic" where
  "hasCommit b v = word_test (commits b) v"

definition hasPrepare :: "bitset \<Rightarrow> u64 \<Rightarrow> bool may_panic" where
  "hasPrepare b v = word_test (prepares b) v"

definition prepareCount :: "bitset \<Rightarrow> nat" where
  "prepareCount b = fold (\<lambda>word c. c + OnesCount64 word) (prepares b) 0"

definition setCommit :: "bitset \<Rightarrow> u64 \<Rightarrow> bitset may_panic" where
  "setCommit b v = omap (\<lambda>ws. b\<lparr>commits := ws\<rparr>) (word_mark (commits b) v)"

definition setPrepare :: "bitset \<Rightarrow> u64 \<Rightarrow> bitset may_panic" where
  "setPrepare b v = omap (\<lambda>ws. b\<lparr>prepares := ws\<rparr>) (word_mark (prepares b) v)"

definition newBitset :: "nat \<Rightarrow> bitset" where
  "newBitset sz =
     (let words = drop_bit 6 (sz + 63)
      in \<lparr>commits = replicate words 0, prepares = replicate words 0\<rparr>)"

section \<open>The set a word array stands for\<close>

definition members :: "u64 list \<Rightarrow> nat set" where
  "members ws = {v. v < 64 * length ws \<and> bit (ws ! (v div 64)) (v mod 64)}"

lemma members_code [code]: "members ws = set (filter (\<lambda>v. bit (ws ! (v div 64)) (v mod 64)) [0..<64 * length ws])"
  by (auto simp: members_def)

lemma members_Nil [simp]: "members [] = {}"
  by (simp add: members_def)

lemma members_replicate_0 [simp]: "members (replicate n 0) = {}"
  by (auto simp: members_def)

lemma members_bound: "members ws \<subseteq> {..<64 * length ws}"
  by (auto simp: members_def)

lemma finite_members [simp, intro]: "finite (members ws)"
  by (rule finite_subset [OF members_bound]) simp

lemma members_append1:
  "members (ws @ [w]) = members ws \<union> (\<lambda>j. 64 * length ws + j) ` {j. j < 64 \<and> bit w j}"
proof (rule set_eqI)
  fix v
  show "v \<in> members (ws @ [w]) \<longleftrightarrow>
        v \<in> members ws \<union> (\<lambda>j. 64 * length ws + j) ` {j. j < 64 \<and> bit w j}"
  proof (cases "v < 64 * length ws")
    case True
    then show ?thesis
      by (auto simp: members_def nth_append div_less_iff_less_mult mult.commute)
  next
    case False
    then obtain j where "v = 64 * length ws + j"
      by (metis le_add_diff_inverse not_less)
    then show ?thesis
      by (auto simp: members_def nth_append image_iff)
  qed
qed

lemma OnesCount64_card: "OnesCount64 w = card {j. j < 64 \<and> bit w j}"
proof -
  have "set (filter (bit w) [0..<64]) = {j. j < 64 \<and> bit w j}" by auto
  then show ?thesis
    unfolding OnesCount64_def by (metis distinct_card distinct_filter distinct_upt)
qed

lemma fold_count: "fold (\<lambda>word c. c + OnesCount64 word) ws n = n + card (members ws)"
proof (induction ws arbitrary: n rule: rev_induct)
  case (snoc w ws)
  have "card (members (ws @ [w])) = card (members ws) + OnesCount64 w"
    unfolding members_append1
    by (subst card_Un_disjoint)
      (use members_bound [of ws] in \<open>auto simp: card_image OnesCount64_card\<close>)
  with snoc show ?case by simp
qed simp

lemma voter_index: "unat (drop_bit 6 (v :: u64)) = unat v div 64" "unat (v AND 63) = unat v mod 64"
proof -
  show "unat (drop_bit 6 v) = unat v div 64"
    by (simp add: unat_drop_bit_eq drop_bit_eq_div unat_div)
  have "v AND 63 = take_bit 6 v"
    by (simp add: take_bit_eq_mask mask_eq_exp_minus_1)
  then show "unat (v AND 63) = unat v mod 64"
    by (simp add: unat_mod_distrib take_bit_eq_mod)
qed

lemma word_test_members:
  "word_test ws v = (if unat v < 64 * length ws then Ok (unat v \<in> members ws) else Panic IndexOutOfRange)"
proof -
  have "(w AND push_bit j 1 \<noteq> 0) = bit w j" if "j < 64" for w :: u64 and j
    using that by (metis and_exp_eq_0_iff_not_bit push_bit_of_1)
  then show ?thesis
    by (simp add: word_test_def voter_index members_def div_less_iff_less_mult mult.commute Let_def)
qed

lemma word_mark_members:
  assumes "unat v < 64 * length ws"
  obtains ws' where "word_mark ws v = Ok ws'" "length ws' = length ws"
    "members ws' = insert (unat v) (members ws)"
proof -
  let ?i = "unat v div 64" and ?j = "unat v mod 64"
  let ?ws = "ws[?i := (ws ! ?i) OR push_bit ?j 1]"
  have i: "?i < length ws" using assms by (simp add: div_less_iff_less_mult mult.commute)
  have bit: "bit ((ws ! ?i) OR push_bit ?j 1) k \<longleftrightarrow> bit (ws ! ?i) k \<or> k = ?j" if "k < 64" for k
    using that by (auto simp: bit_or_iff bit_exp_iff)
  have "members ?ws = insert (unat v) (members ws)"
  proof (rule set_eqI)
    fix x :: nat
    have split: "x = unat v \<longleftrightarrow> x div 64 = ?i \<and> x mod 64 = ?j"
      by (metis div_mult_mod_eq)
    show "x \<in> members ?ws \<longleftrightarrow> x \<in> insert (unat v) (members ws)"
      using i assms bit [of "x mod 64"]
      by (cases "x div 64 = ?i") (auto simp: members_def split nth_list_update)
  qed
  moreover have "word_mark ws v = Ok ?ws"
    using i by (simp add: word_mark_def voter_index Let_def)
  ultimately show thesis using that by simp
qed

lemma word_mark_panic: "\<not> unat v < 64 * length ws \<Longrightarrow> word_mark ws v = Panic IndexOutOfRange"
  by (simp add: word_mark_def voter_index div_less_iff_less_mult mult.commute)

lemma word_mark_Ok:
  assumes "word_mark ws v = Ok ws'"
  shows "unat v < 64 * length ws \<and> length ws' = length ws \<and> members ws' = insert (unat v) (members ws)"
proof (cases "unat v < 64 * length ws")
  case True
  with assms show ?thesis
    by (metis word_mark_members outcome.inject(1))
next
  case False
  with assms word_mark_panic [OF False] show ?thesis by (metis outcome.distinct(3))
qed

section \<open>The contract: a finite set of voters\<close>

locale vote_set =
  fixes mark :: "'s \<Rightarrow> u64 \<Rightarrow> 's may_panic"
    and has :: "'s \<Rightarrow> u64 \<Rightarrow> bool may_panic"
    and vote_count :: "'s \<Rightarrow> nat"
    and votes :: "'s \<Rightarrow> nat set"
    and capacity :: "'s \<Rightarrow> nat"
  assumes mark_defined: "unat v < capacity s \<Longrightarrow> \<exists>t. mark s v = Ok t"
    and mark_overflow: "\<not> unat v < capacity s \<Longrightarrow> mark s v = Panic IndexOutOfRange"
    and votes_mark: "mark s v = Ok t \<Longrightarrow> votes t = insert (unat v) (votes s)"
    and capacity_mark: "mark s v = Ok t \<Longrightarrow> capacity t = capacity s"
    and has_votes: "unat v < capacity s \<Longrightarrow> has s v = Ok (unat v \<in> votes s)"
    and has_overflow: "\<not> unat v < capacity s \<Longrightarrow> has s v = Panic IndexOutOfRange"
    and count_votes: "vote_count s = card (votes s)"
    and votes_capacity: "votes s \<subseteq> {..<capacity s}"
begin

lemma finite_votes: "finite (votes s)"
  by (rule finite_subset [OF votes_capacity]) simp

lemma mark_Ok_iff: "(\<exists>t. mark s v = Ok t) \<longleftrightarrow> unat v < capacity s"
  using mark_defined mark_overflow by fastforce

lemma has_Ok: "has s v = Ok b \<Longrightarrow> b = (unat v \<in> votes s)"
  using has_votes [of v s] has_overflow [of v s] by (cases "unat v < capacity s") auto

lemma count_mark:
  "mark s v = Ok t \<Longrightarrow> vote_count t = (if unat v \<in> votes s then vote_count s else Suc (vote_count s))"
  by (simp add: count_votes votes_mark card_insert_if finite_votes)

lemma count_mark_le: "mark s v = Ok t \<Longrightarrow> vote_count s \<le> vote_count t \<and> vote_count t \<le> Suc (vote_count s)"
  by (simp add: count_mark)

lemma votes_mark_all:
  "ofold (\<lambda>v s. mark s v) vs s = Ok t \<Longrightarrow> votes t = unat ` set vs \<union> votes s"
proof (induction vs arbitrary: s)
  case (Cons v vs)
  then obtain u where "mark s v = Ok u" "ofold (\<lambda>v s. mark s v) vs u = Ok t"
    by (auto simp: outcome_simps)
  with Cons.IH show ?case by (auto dest: votes_mark)
qed simp

text \<open>Two counters that both reached \<open>q\<close> inside a group of \<open>n\<close> nodes share at least
  \<open>2q - n\<close> voters.\<close>

lemma quorums_overlap:
  assumes "votes s \<subseteq> N" "votes t \<subseteq> N" "finite N" "q \<le> vote_count s" "q \<le> vote_count t"
  shows "2 * q \<le> card (votes s \<inter> votes t) + card N"
proof -
  have "card (votes s \<union> votes t) \<le> card N"
    using assms by (intro card_mono) auto
  moreover have "card (votes s) + card (votes t) = card (votes s \<union> votes t) + card (votes s \<inter> votes t)"
    by (rule card_Un_Int) (rule finite_votes)+
  ultimately show ?thesis
    using assms(4,5) by (simp add: count_votes)
qed

end

definition prepare_votes :: "bitset \<Rightarrow> nat set" where
  "prepare_votes b = members (prepares b)"

definition commit_votes :: "bitset \<Rightarrow> nat set" where
  "commit_votes b = members (commits b)"

definition prepare_capacity :: "bitset \<Rightarrow> nat" where
  "prepare_capacity b = 64 * length (prepares b)"

definition commit_capacity :: "bitset \<Rightarrow> nat" where
  "commit_capacity b = 64 * length (commits b)"

lemma setPrepare_unfold:
  "setPrepare b v = Ok c \<Longrightarrow> unat v < 64 * length (prepares b) \<and>
     members (prepares c) = insert (unat v) (members (prepares b)) \<and>
     length (prepares c) = length (prepares b) \<and> commits c = commits b"
  by (auto simp: setPrepare_def outcome_simps dest: word_mark_Ok)

lemma setCommit_unfold:
  "setCommit b v = Ok c \<Longrightarrow> unat v < 64 * length (commits b) \<and>
     members (commits c) = insert (unat v) (members (commits b)) \<and>
     length (commits c) = length (commits b) \<and> prepares c = prepares b"
  by (auto simp: setCommit_def outcome_simps dest: word_mark_Ok)

interpretation prep: vote_set setPrepare hasPrepare prepareCount prepare_votes prepare_capacity
proof unfold_locales
  fix b :: bitset and v :: u64
  assume "unat v < prepare_capacity b"
  then show "\<exists>c. setPrepare b v = Ok c"
    unfolding setPrepare_def prepare_capacity_def by (metis word_mark_members omap.simps(1))
qed (auto simp: setPrepare_def hasPrepare_def prepare_capacity_def prepare_votes_def word_test_members
    word_mark_panic prepareCount_def fold_count outcome_simps dest: word_mark_Ok members_bound [THEN subsetD])

interpretation comm: vote_set setCommit hasCommit commitCount commit_votes commit_capacity
proof unfold_locales
  fix b :: bitset and v :: u64
  assume "unat v < commit_capacity b"
  then show "\<exists>c. setCommit b v = Ok c"
    unfolding setCommit_def commit_capacity_def by (metis word_mark_members omap.simps(1))
qed (auto simp: setCommit_def hasCommit_def commit_capacity_def commit_votes_def word_test_members
    word_mark_panic commitCount_def fold_count outcome_simps dest: word_mark_Ok members_bound [THEN subsetD])

lemma newBitset_empty [vote_simps]:
  "prepare_votes (newBitset n) = {}" "commit_votes (newBitset n) = {}"
  by (simp_all add: newBitset_def prepare_votes_def commit_votes_def Let_def)

lemma newBitset_capacity [vote_simps]:
  "prepare_capacity (newBitset n) = 64 * ((n + 63) div 64)"
  "commit_capacity (newBitset n) = 64 * ((n + 63) div 64)"
  by (simp_all add: newBitset_def prepare_capacity_def commit_capacity_def drop_bit_eq_div Let_def)

lemma setPrepare_frame [vote_simps]: "setPrepare b v = Ok c \<Longrightarrow> commit_votes c = commit_votes b"
  by (auto simp: commit_votes_def dest: setPrepare_unfold)

lemma setCommit_frame [vote_simps]: "setCommit b v = Ok c \<Longrightarrow> prepare_votes c = prepare_votes b"
  by (auto simp: prepare_votes_def dest: setCommit_unfold)

lemma clone_bitset_id [simp]: "clone_bitset b = b"
  by (simp add: clone_bitset_def)

section \<open>Properties\<close>

text \<open>The bitset refines a pair of finite sets. On a bitset of any shape, marking
  an identifier in range adds exactly that identifier to the prepare set, leaves the commit set
  alone, is seen by \<open>hasPrepare\<close>, and \<open>prepareCount\<close> is the cardinality of the set, so a
  second vote of the same node never counts twice.\<close>

theorem setPrepare_refines_insert:
  assumes "unat v < prepare_capacity b"
  shows "\<exists>c. setPrepare b v = Ok c \<and> prepare_votes c = insert (unat v) (prepare_votes b) \<and>
    commit_votes c = commit_votes b \<and> hasPrepare c v = Ok True \<and>
    prepareCount c = card (insert (unat v) (prepare_votes b))"
proof -
  from assms obtain c where c: "setPrepare b v = Ok c"
    using prep.mark_defined by blast
  have cap: "unat v < prepare_capacity c"
    using assms prep.capacity_mark [OF c] by simp
  have "prepareCount c = card (insert (unat v) (prepare_votes b))"
    by (simp add: prep.count_votes prep.votes_mark [OF c])
  then show ?thesis
    using c prep.votes_mark [OF c] setPrepare_frame [OF c] prep.has_votes [OF cap] by auto
qed

theorem setPrepare_refines_insert_witness:
  "unat (65 :: u64) < prepare_capacity (newBitset 100) \<and>
   (\<exists>c. setPrepare (newBitset 100) 65 = Ok c \<and> hasPrepare c 65 = Ok True
      \<and> prepareCount c = 1)"
proof -
  have h: "unat (65 :: u64) < prepare_capacity (newBitset 100)"
    by (simp add: vote_simps)
  show ?thesis
    using h setPrepare_refines_insert [OF h] by (auto simp: vote_simps)
qed

text \<open>\<^bold>\<open>C31\<close>: the arrays are sized by the number of nodes, not by the largest identifier.
  A vote of node \<open>v\<close> in a bitset for \<open>n\<close> nodes panics exactly when \<open>v\<close> is not below \<open>n\<close>
  rounded up to a multiple of 64 (so node 64 of a 64-node shard crashes the node).\<close>

theorem setPrepare_panics_iff:
  "setPrepare (newBitset n) v = Panic IndexOutOfRange \<longleftrightarrow> 64 * ((n + 63) div 64) \<le> unat v"
proof (cases "unat v < prepare_capacity (newBitset n)")
  case True
  then obtain c where "setPrepare (newBitset n) v = Ok c"
    using prep.mark_defined by blast
  with True show ?thesis by (simp add: vote_simps)
next
  case False
  then show ?thesis
    using prep.mark_overflow [OF False] by (simp add: vote_simps)
qed

end
