(* ===== verification/Blockmania.thy ===== *)
theory Blockmania
  imports Bitset
begin

text \<open>
  The data model of the consensus: \<open>blockmania/blockmania.go\<close> (blocks and their identifiers),
  \<open>blockmania/messages\<close> (the five protocol messages) and \<open>blockmania/states\<close> (the keys of the
  per-block interpreter state).
\<close>

section \<open>Blocks (\<open>blockmania.go\<close>)\<close>

record BlockID =
  Hash :: gostring
  Node :: u64
  Round :: u64

abbreviation zero_BlockID :: BlockID where
  "zero_BlockID \<equiv> \<lparr>Hash = [], Node = 0, Round = 0\<rparr>"

record Dep =
  dep_Block :: BlockID
  dep_Deps :: "BlockID list"
  dep_Prev :: BlockID

record BlockGraph =
  bg_Block :: BlockID
  bg_Deps :: "Dep list"
  bg_Prev :: BlockID

record Interpreted =
  in_Blocks :: "BlockID list"
  in_Consumed :: u64
  in_Round :: u64

definition Valid :: "BlockID \<Rightarrow> bool" where
  "Valid b = (Hash b \<noteq> [])"

definition hexUpper :: string where
  "hexUpper = ''0123456789ABCDEF''"

definition hex_byte :: "byte \<Rightarrow> string" where
  "hex_byte c = [hexUpper ! (unat c div 16), hexUpper ! (unat c mod 16)]"

definition BlockID_String :: "BlockID \<Rightarrow> string may_panic" where
  "BlockID_String b =
     (let v = decimal (unat (Node b)) @ '' | '' @ decimal (unat (Round b)) in
      if Hash b \<noteq> [] then
        (if length (Hash b) < 12 then Panic IndexOutOfRange
         else Ok (v @ '' | '' @ concat (map hex_byte (map (\<lambda>i. Hash b ! i) [6..<12]))))
      else Ok v)"

section \<open>Messages (\<open>messages/*.go\<close>)\<close>

text \<open>The \<open>PrePrepare\<close> struct also keys the vote counters, so it has a type of its own.\<close>

datatype pre = Pre (pre_hash: gostring) (pre_node: u64) (pre_round: u64) (pre_view: u32)

text \<open>Fields in source order: hash, node, round, sender (not for a pre-prepare), view.\<close>

datatype message =
    PrePrepare pre
  | Prepare gostring u64 u64 u64 u32
  | Commit gostring u64 u64 u64 u32
  | ViewChange gostring u64 u64 u64 u32
  | NewView gostring u64 u64 u64 u32

datatype MessageKind = UnknownMsg | PrePrepareMsg | PrepareMsg | CommitMsg | ViewChangedMsg | NewViewMsg

fun message_Kind :: "message \<Rightarrow> MessageKind" where
  "message_Kind (PrePrepare _) = PrePrepareMsg"
| "message_Kind (Prepare _ _ _ _ _) = PrepareMsg"
| "message_Kind (Commit _ _ _ _ _) = CommitMsg"
| "message_Kind (ViewChange _ _ _ _ _) = ViewChangedMsg"
| "message_Kind (NewView _ _ _ _ _) = NewViewMsg"

fun NodeRound :: "message \<Rightarrow> u64 \<times> u64" where
  "NodeRound (PrePrepare p) = (pre_node p, pre_round p)"
| "NodeRound (Prepare h n r s v) = (n, r)"
| "NodeRound (Commit h n r s v) = (n, r)"
| "NodeRound (ViewChange h n r s v) = (n, r)"
| "NodeRound (NewView h n r s v) = (n, r)"

fun MessageKind_String :: "MessageKind \<Rightarrow> string" where
  "MessageKind_String CommitMsg = ''commit''"
| "MessageKind_String NewViewMsg = ''new-view''"
| "MessageKind_String PrepareMsg = ''prepare''"
| "MessageKind_String PrePrepareMsg = ''pre-prepare''"
| "MessageKind_String UnknownMsg = ''unknown''"
| "MessageKind_String ViewChangedMsg = ''view-change''"

definition fmtHash :: "gostring \<Rightarrow> string may_panic" where
  "fmtHash v = (if v = [] then Ok [] else omap (\<lambda>d. concat (map hex_byte d)) (slice v 6 12))"

definition fmt_fields :: "string \<Rightarrow> u64 \<Rightarrow> u64 \<Rightarrow> u32 \<Rightarrow> string \<Rightarrow> string" where
  "fmt_fields name n r v h =
     name @ ''{node: '' @ decimal (unat n) @ '', round: '' @ decimal (unat r) @ '', view: '' @
     decimal (unat v) @ '', hash: '' @ [CHR 0x27] @ h @ [CHR 0x27]"

fun message_String :: "message \<Rightarrow> string may_panic" where
  "message_String (PrePrepare p) =
     omap (\<lambda>h. fmt_fields ''pre-prepare'' (pre_node p) (pre_round p) (pre_view p) h @ ''}'')
       (fmtHash (pre_hash p))"
| "message_String (Prepare h n r s v) =
     omap (\<lambda>x. fmt_fields ''prepare'' n r v x @ '', sender: '' @ decimal (unat s) @ ''}'') (fmtHash h)"
| "message_String (Commit h n r s v) =
     omap (\<lambda>x. fmt_fields ''commit'' n r v x @ '', sender: '' @ decimal (unat s) @ ''}'') (fmtHash h)"
| "message_String (ViewChange h n r s v) =
     omap (\<lambda>x. fmt_fields ''view-change'' n r v x @ '', sender: '' @ decimal (unat s) @ ''}'') (fmtHash h)"
| "message_String (NewView h n r s v) =
     omap (\<lambda>x. fmt_fields ''new-view'' n r v x @ '', sender: '' @ decimal (unat s) @ ''}'') (fmtHash h)"

section \<open>State keys (\<open>states/*.go\<close>)\<close>

datatype StateData =
    Final u64 u64
  | HNV u64 u64 u32
  | PrePrepared u64 u64 u32
  | Prepared u64 u64 u32
  | View u64 u64
  | ViewChanged u64 u64 u32

datatype StateDataKind =
  UnknownState | FinalState | HNVState | PreparedState | PrePreparedState | ViewState | ViewChangedState

fun GetRound :: "StateData \<Rightarrow> u64" where
  "GetRound (Final n r) = r"
| "GetRound (HNV n r v) = r"
| "GetRound (PrePrepared n r v) = r"
| "GetRound (Prepared n r v) = r"
| "GetRound (View n r) = r"
| "GetRound (ViewChanged n r v) = r"

fun SdKind :: "StateData \<Rightarrow> StateDataKind" where
  "SdKind (Final _ _) = FinalState"
| "SdKind (HNV _ _ _) = HNVState"
| "SdKind (PrePrepared _ _ _) = PrePreparedState"
| "SdKind (Prepared _ _ _) = PreparedState"
| "SdKind (View _ _) = ViewState"
| "SdKind (ViewChanged _ _ _) = ViewChangedState"

fun StateDataKind_String :: "StateDataKind \<Rightarrow> string" where
  "StateDataKind_String FinalState = ''final''"
| "StateDataKind_String HNVState = ''hnv''"
| "StateDataKind_String PreparedState = ''prepared''"
| "StateDataKind_String PrePreparedState = ''preprepared''"
| "StateDataKind_String UnknownState = ''unknown''"
| "StateDataKind_String ViewState = ''viewState''"
| "StateDataKind_String ViewChangedState = ''viewchanged''"

lemma StateDataKind_String_inj: "StateDataKind_String a = StateDataKind_String b \<longleftrightarrow> a = b"
  by (cases a; cases b) simp_all

lemma MessageKind_String_inj: "MessageKind_String a = MessageKind_String b \<longleftrightarrow> a = b"
  by (cases a; cases b) simp_all

text \<open>How far a message is from the end of the protocol. Every reply has a smaller rank than the
  message it answers, which is why interpreting a block terminates.\<close>

fun message_rank :: "message \<Rightarrow> nat" where
  "message_rank (ViewChange _ _ _ _ _) = 5"
| "message_rank (NewView _ _ _ _ _) = 4"
| "message_rank (PrePrepare _) = 3"
| "message_rank (Prepare _ _ _ _ _) = 2"
| "message_rank (Commit _ _ _ _ _) = 1"

end
