(* ===== verification/BmState.thy ===== *)
theory BmState
  imports Blockmania
begin

text \<open>
  \<open>blockmania/state.go\<close>: the interpreter state attached to every block, its pruned copy for the
  next block (\<open>clone\<close>), and the accessors that allocate on first use. The values of the
  \<open>stateKV\<close> map are the five dynamic types the code stores there. A view-change tally is a Go
  map and hence shared by reference: the entry holds an address into the heap of the graph, so
  that \<open>clone\<close> copies the address and not the tally, as the code does.
\<close>

type_synonym nodeRound = "u64 \<times> u64"

record timeout =
  tm_node :: u64
  tm_round :: u64
  tm_view :: u32

datatype sval =
    SView u32
  | SHash gostring
  | SVcs nat
  | SMsg pre
  | SBool bool

record state =
  bitsets :: "(pre, bitset) gomap"
  data :: "(StateData, sval) gomap"
  delay :: "(u64, u64) gomap"
  final :: "(nodeRound, gostring) gomap"
  out :: "message list"
  stimeout :: u64
  timeouts :: "(u64, timeout list) gomap"

definition fresh_state :: state where
  "fresh_state = \<lparr>bitsets = [], data = [], delay = [], final = [], out = [], stimeout = 0, timeouts = []\<rparr>"

definition clone :: "state option \<Rightarrow> u64 \<Rightarrow> state" where
  "clone so minround =
     (case so of
        None \<Rightarrow> fresh_state
      | Some s \<Rightarrow>
          \<lparr>bitsets = map (\<lambda>(k, v). (k, clone_bitset v)) (mkeep (\<lambda>k. \<not> pre_round k < minround) (bitsets s)),
           data = mkeep (\<lambda>k. \<not> GetRound k < minround) (data s),
           delay = delay s,
           final = mkeep (\<lambda>k. \<not> snd k < minround) (final s),
           out = filter (\<lambda>msg. \<not> snd (NodeRound msg) < minround) (out s),
           stimeout = stimeout s,
           timeouts = mkeep (\<lambda>k. \<not> k < minround) (timeouts s)\<rparr>)"

definition getBitset :: "nat \<Rightarrow> pre \<Rightarrow> state \<Rightarrow> bitset \<times> state" where
  "getBitset sz pp s =
     (case map_of (bitsets s) pp of
        Some b \<Rightarrow> (b, s)
      | None \<Rightarrow> (let b = newBitset sz in (b, s\<lparr>bitsets := mput pp b (bitsets s)\<rparr>)))"

text \<open>The counters are pointers: writing one back is an update of the map.\<close>

definition putBitset :: "pre \<Rightarrow> bitset \<Rightarrow> state \<Rightarrow> state" where
  "putBitset pp b s = s\<lparr>bitsets := mput pp b (bitsets s)\<rparr>"

definition getOutput :: "state option \<Rightarrow> message list" where
  "getOutput so = (case so of None \<Rightarrow> [] | Some s \<Rightarrow> out s)"

definition setData :: "StateData \<Rightarrow> sval \<Rightarrow> state \<Rightarrow> state" where
  "setData k v s = s\<lparr>data := mput k v (data s)\<rparr>"

definition getView :: "u64 \<Rightarrow> u64 \<Rightarrow> state \<Rightarrow> (u32 \<times> state) may_panic" where
  "getView node round s =
     (case map_of (data s) (View node round) of
        Some (SView v) \<Rightarrow> Ok (v, s)
      | Some _ \<Rightarrow> Panic TypeAssertion
      | None \<Rightarrow> Ok (0, setData (View node round) (SView 0) s))"

definition diff :: "u64 \<Rightarrow> u64 \<Rightarrow> u64" where
  "diff a b = (if b \<le> a then a - b else b - a)"

section \<open>Well-formed states\<close>

text \<open>
  Every map has distinct keys and every key of \<open>data\<close> holds a value of the type the code
  asserts for it; no \<open>Final\<close> key is ever present (nothing in the sources stores one).
\<close>

fun sval_ok :: "StateData \<Rightarrow> sval \<Rightarrow> bool" where
  "sval_ok (Final n r) v = False"
| "sval_ok (HNV n r w) v = (\<exists>b. v = SBool b)"
| "sval_ok (PrePrepared n r w) v = (\<exists>p. v = SMsg p \<and> pre_node p = n \<and> pre_round p = r \<and> pre_view p = w)"
| "sval_ok (Prepared n r w) v = (\<exists>h. v = SHash h)"
| "sval_ok (View n r) v = (\<exists>w. v = SView w)"
| "sval_ok (ViewChanged n r w) v = (\<exists>a. v = SVcs a)"

text \<open>A counter for \<open>n\<close> nodes has room for the identifiers \<open>newBitset n\<close> has room for.\<close>

definition bitset_ok :: "nat \<Rightarrow> bitset \<Rightarrow> bool" where
  "bitset_ok n b \<longleftrightarrow> prepare_capacity b = prepare_capacity (newBitset n) \<and>
     commit_capacity b = commit_capacity (newBitset n)"

definition state_ok :: "nat \<Rightarrow> state \<Rightarrow> bool" where
  "state_ok n s \<longleftrightarrow> mwf (bitsets s) \<and> mwf (data s) \<and> mwf (delay s) \<and> mwf (final s) \<and> mwf (timeouts s) \<and>
     (\<forall>k v. map_of (data s) k = Some v \<longrightarrow> sval_ok k v) \<and>
     (\<forall>pp b. map_of (bitsets s) pp = Some b \<longrightarrow> bitset_ok n b)"

named_theorems state_intros \<open>preservation of \<open>state_ok\<close>\<close>

lemma bitset_ok_new [simp, state_intros]: "bitset_ok n (newBitset n)"
  by (simp add: bitset_ok_def)

lemma bitset_ok_setPrepare [state_intros]: "setPrepare b v = Ok c \<Longrightarrow> bitset_ok n b \<Longrightarrow> bitset_ok n c"
  using setPrepare_unfold [of b v c]
  by (auto simp: bitset_ok_def prepare_capacity_def commit_capacity_def)

lemma bitset_ok_setCommit [state_intros]: "setCommit b v = Ok c \<Longrightarrow> bitset_ok n b \<Longrightarrow> bitset_ok n c"
  using setCommit_unfold [of b v c]
  by (auto simp: bitset_ok_def prepare_capacity_def commit_capacity_def)

lemma state_ok_fresh [state_intros]: "state_ok n fresh_state"
  by (simp add: state_ok_def fresh_state_def)

lemma state_ok_setData [state_intros]: "state_ok n s \<Longrightarrow> sval_ok k v \<Longrightarrow> state_ok n (setData k v s)"
  by (auto simp: state_ok_def setData_def gomap_simps)

lemma state_ok_putBitset [state_intros]: "state_ok n s \<Longrightarrow> bitset_ok n b \<Longrightarrow> state_ok n (putBitset pp b s)"
  by (auto simp: state_ok_def putBitset_def gomap_simps)

lemma state_ok_getBitset [state_intros]:
  "getBitset n pp s = (b, t) \<Longrightarrow> state_ok n s \<Longrightarrow> state_ok n t \<and> bitset_ok n b"
  by (auto simp: getBitset_def Let_def state_ok_def gomap_simps split: option.splits if_splits)

lemma state_ok_getView [state_intros]: "getView nd r s = Ok (v, t) \<Longrightarrow> state_ok n s \<Longrightarrow> state_ok n t"
  by (auto simp: getView_def state_intros split: option.splits sval.splits)

lemma getView_defined: "state_ok n s \<Longrightarrow> \<exists>v t. getView nd r s = Ok (v, t)"
  unfolding state_ok_def getView_def by (fastforce split: option.splits sval.splits)

lemma map_of_clone_bitsets:
  "map_of (map (\<lambda>(k, v). (k, clone_bitset v)) m) = map_of m"
  by (simp add: case_prod_unfold)

lemma state_ok_clone [state_intros]:
  assumes "\<And>s. so = Some s \<Longrightarrow> state_ok n s"
  shows "state_ok n (clone so minround)"
proof (cases so)
  case None
  then show ?thesis by (simp add: clone_def state_intros)
next
  case (Some s)
  with assms have s: "state_ok n s" by simp
  then have "mwf (mkeep (\<lambda>k. \<not> pre_round k < minround) (bitsets s))" by (simp add: state_ok_def)
  then have "mwf (map (\<lambda>(k, v). (k, clone_bitset v)) (mkeep (\<lambda>k. \<not> pre_round k < minround) (bitsets s)))"
    by (simp add: case_prod_unfold comp_def)
  with s Some show ?thesis
    by (auto simp: clone_def state_ok_def map_of_clone_bitsets gomap_simps simp del: clone_bitset_id)
qed

lemma state_ok_no_Final: "state_ok n s \<Longrightarrow> map_of (data s) (Final nd r) = None"
  by (metis not_None_eq state_ok_def sval_ok.simps(1))

section \<open>Laws of the accessors\<close>

lemma getBitset_same: "getBitset sz pp s = (b, t) \<Longrightarrow> map_of (bitsets t) pp = Some b"
  by (auto simp: getBitset_def Let_def gomap_simps split: option.splits)

lemma getBitset_votes:
  "getBitset sz pp s = (b, t) \<Longrightarrow>
     prepare_votes b = (case map_of (bitsets s) pp of None \<Rightarrow> {} | Some c \<Rightarrow> prepare_votes c) \<and>
     commit_votes b = (case map_of (bitsets s) pp of None \<Rightarrow> {} | Some c \<Rightarrow> commit_votes c)"
  by (auto simp: getBitset_def vote_simps Let_def split: option.splits)

lemma getBitset_frame:
  "getBitset sz pp s = (b, t) \<Longrightarrow> data t = data s \<and> final t = final s \<and> timeouts t = timeouts s \<and>
     delay t = delay s \<and> stimeout t = stimeout s \<and> out t = out s"
  by (auto simp: getBitset_def Let_def split: option.splits)

lemma diff_nat: "unat (diff a b) = (if unat b \<le> unat a then unat a - unat b else unat b - unat a)"
  by (simp add: diff_def word_le_nat_alt unat_sub)

section \<open>Properties\<close>

text \<open>The copy a block starts from keeps exactly what still matters. A vote counter,
  a data entry or a final decision survives \<open>clone\<close> iff its round is not below the current
  round, and what survives is unchanged (so no vote is lost or invented by the copy).\<close>

lemma clone_keeps_current_rounds:
  "map_of (bitsets (clone (Some s) minround)) pp =
     (if minround \<le> pre_round pp then map_of (bitsets s) pp else None) \<and>
   map_of (data (clone (Some s) minround)) k =
     (if minround \<le> GetRound k then map_of (data s) k else None) \<and>
   map_of (final (clone (Some s) minround)) nr =
     (if minround \<le> snd nr then map_of (final s) nr else None)"
  by (simp add: clone_def map_of_clone_bitsets gomap_simps not_less del: clone_bitset_id)

end
