(* ===== verification/BmGraph.thy ===== *)
theory BmGraph
  imports BmState
begin

text \<open>
  \<open>blockmania/graph.go\<close>: the interpreter of the block graph. A \<open>graph\<close> is the \<open>Graph\<close>
  struct with its goroutine's view of it: the channel \<open>entries\<close> is a queue, the callback is the
  log of the values it was called with, and the tallies shared between the states of
  consecutive blocks live in \<open>vcsHeap\<close>. The mutex protects against readers outside of the
  interpreter and is not modelled; neither are debug logs. The backing arrays of the
  \<open>timeouts\<close> slices are taken to be unshared.
\<close>

section \<open>Types\<close>

record entry =
  e_block :: BlockID
  e_deps :: "BlockID list"
  e_prev :: BlockID

record blockInfo =
  bi_data :: BlockGraph
  bi_max :: u64

record Config =
  LastInterpreted :: u64
  Nodes :: "u64 list"
  SelfID :: u64
  TotalNodes :: u64

record graph =
  blocks :: "blockInfo list"
  cbs :: "Interpreted list"
  entries :: "BlockGraph list"
  maxs :: "(BlockID, u64) gomap"
  nodeCount :: nat
  nodes :: "u64 list"
  quorumf1 :: nat
  quorum2f :: nat
  quorum2f1 :: nat
  resolved :: "(u64, (u64, gostring) gomap) gomap"
  ground :: u64
  self :: u64
  statess :: "(BlockID, state) gomap"
  totalNodes :: u64
  vcsHeap :: "(u64, gostring) gomap list"

section \<open>Delivery\<close>

definition round_blocks :: "u64 \<Rightarrow> (u64, gostring) gomap \<Rightarrow> BlockID list" where
  "round_blocks round hashes =
     sort_key Hash (map (\<lambda>(node, hash). \<lparr>Hash = hash, Node = node, Round = round\<rparr>)
       (filter (\<lambda>(node, hash). hash \<noteq> []) hashes))"

text \<open>The blocks and dependencies a list of consumed block infos stands for.\<close>

definition info_ids :: "blockInfo \<Rightarrow> BlockID list" where
  "info_ids info = bg_Block (bi_data info) # map dep_Block (bg_Deps (bi_data info))"

definition drop_info :: "blockInfo \<Rightarrow> graph \<Rightarrow> graph" where
  "drop_info info g = fold (\<lambda>b g. g\<lparr>maxs := mdel b (maxs g), statess := mdel b (statess g)\<rparr>) (info_ids info) g"

text \<open>The part of \<open>deliverRound\<close> before it looks at the next round, for a graph that has blocks.\<close>

definition close_round :: "u64 \<Rightarrow> (u64, gostring) gomap \<Rightarrow> graph \<Rightarrow> graph" where
  "close_round round hashes g =
     (let blks = round_blocks round hashes;
          g1 = g\<lparr>resolved := mdel round (resolved g)\<rparr>;
          gone = takeWhile (\<lambda>info. \<not> round < bi_max info) (blocks g1);
          consumed = Round (bg_Block (bi_data (hd (blocks g1)))) - 1 + of_nat (length gone);
          g2 = fold drop_info gone g1;
          g3 = g2\<lparr>blocks := drop (length gone) (blocks g2), ground := ground g2 + 1\<rparr>
      in g3\<lparr>cbs := cbs g3 @ [\<lparr>in_Blocks = blks, in_Consumed = consumed, in_Round = round\<rparr>]\<rparr>)"

text \<open>Nothing but the two maps changes when infos are dropped.\<close>

lemma fold_drop_frame:
  "fold drop_info infos g =
     g\<lparr>maxs := maxs (fold drop_info infos g), statess := statess (fold drop_info infos g)\<rparr>"
proof -
  have one: "fold (\<lambda>b g. g\<lparr>maxs := mdel b (maxs g), statess := mdel b (statess g)\<rparr>) bs g =
      g\<lparr>maxs := fold mdel bs (maxs g), statess := fold mdel bs (statess g)\<rparr>" for bs and g :: graph
    by (induction bs arbitrary: g) simp_all
  have "fold drop_info infos g =
      g\<lparr>maxs := fold (\<lambda>i. fold mdel (info_ids i)) infos (maxs g),
        statess := fold (\<lambda>i. fold mdel (info_ids i)) infos (statess g)\<rparr>"
    by (induction infos arbitrary: g) (simp_all add: drop_info_def one)
  then show ?thesis by simp
qed

lemma fold_drop_simps [simp]:
  "resolved (fold drop_info infos g) = resolved g" "cbs (fold drop_info infos g) = cbs g"
  "ground (fold drop_info infos g) = ground g" "nodeCount (fold drop_info infos g) = nodeCount g"
  "blocks (fold drop_info infos g) = blocks g" "vcsHeap (fold drop_info infos g) = vcsHeap g"
  "quorum2f1 (fold drop_info infos g) = quorum2f1 g" "quorum2f (fold drop_info infos g) = quorum2f g"
  "nodes (fold drop_info infos g) = nodes g" "entries (fold drop_info infos g) = entries g"
  by (subst fold_drop_frame, simp)+

lemma close_round_simps [simp]:
  "resolved (close_round round hashes g) = mdel round (resolved g)"
  "cbs (close_round round hashes g) = cbs g @
     [\<lparr>in_Blocks = round_blocks round hashes,
       in_Consumed = Round (bg_Block (bi_data (hd (blocks g)))) - 1 +
         of_nat (length (takeWhile (\<lambda>info. \<not> round < bi_max info) (blocks g))),
       in_Round = round\<rparr>]"
  "ground (close_round round hashes g) = ground g + 1"
  "blocks (close_round round hashes g) = dropWhile (\<lambda>info. \<not> round < bi_max info) (blocks g)"
  "nodeCount (close_round round hashes g) = nodeCount g" "nodes (close_round round hashes g) = nodes g"
  "quorum2f1 (close_round round hashes g) = quorum2f1 g" "quorum2f (close_round round hashes g) = quorum2f g"
  "vcsHeap (close_round round hashes g) = vcsHeap g" "entries (close_round round hashes g) = entries g"
  by (simp_all add: close_round_def Let_def dropWhile_eq_drop)

function deliverRound :: "u64 \<Rightarrow> (u64, gostring) gomap \<Rightarrow> graph \<Rightarrow> graph may_panic" where
  "deliverRound round hashes g =
     (if blocks g = [] then Panic IndexOutOfRange
      else
        let g4 = close_round round hashes g in
        case map_of (resolved g4) (round + 1) of
          None \<Rightarrow> Ok g4
        | Some hs \<Rightarrow> if length hs = nodeCount g4 then deliverRound (round + 1) hs g4 else Ok g4)"
  by pat_completeness auto

termination deliverRound
proof (relation "measure (\<lambda>(round, hashes, g). length (mdel round (resolved g)))", goal_cases)
  case (2 round hashes g)
  then show ?case by (simp add: length_mdel_less)
qed simp

declare deliverRound.simps [simp del]

text \<open>The decisions of a round with one more: fatal when the node's entry has another hash.\<close>

definition add_decision :: "(u64, gostring) gomap option \<Rightarrow> u64 \<Rightarrow> gostring \<Rightarrow> (u64, gostring) gomap may_panic" where
  "add_decision old node hash =
     (case old of
        Some hashes \<Rightarrow>
          (case map_of hashes node of
             Some curhash \<Rightarrow> if curhash \<noteq> hash then Panic LogFatal else Ok hashes
           | None \<Rightarrow> Ok (mput node hash hashes))
      | None \<Rightarrow> Ok [(node, hash)])"

definition deliver :: "u64 \<Rightarrow> u64 \<Rightarrow> gostring \<Rightarrow> graph \<Rightarrow> graph may_panic" where
  "deliver node round hash g =
     (if round < ground g then Ok g
      else
        obind (add_decision (map_of (resolved g) round) node hash)
          (\<lambda>hashes.
             let g1 = g\<lparr>resolved := mput round hashes (resolved g)\<rparr> in
             if round \<noteq> ground g1 then Ok g1
             else if length hashes = nodeCount g1 then deliverRound round hashes g1
             else Ok g1))"

section \<open>Interpreting one message\<close>

text \<open>\<open>hashes of a view change\<close>: the one non-empty hash of the tally, fatal when there are two.\<close>

definition vcs_hash :: "(u64, gostring) gomap \<Rightarrow> gostring may_panic" where
  "vcs_hash vcs =
     ofold (\<lambda>(sender, hval) hash.
        if hval \<noteq> [] then (if hash \<noteq> [] \<and> hval \<noteq> hash then Panic LogFatal else Ok hval) else Ok hash) vcs []"

type_synonym reply = "graph \<times> state \<times> message option"

definition on_PrePrepare :: "graph \<Rightarrow> state \<Rightarrow> u64 \<Rightarrow> u64 \<Rightarrow> u32 \<Rightarrow> pre \<Rightarrow> reply may_panic" where
  "on_PrePrepare g s sender receiver v m =
     (if v \<noteq> pre_view m then Ok (g, s, None)
      else
        let pp = PrePrepared (pre_node m) (pre_round m) (pre_view m) in
        if mhas (data s) pp then Ok (g, s, None)
        else
          let (b, s1) = getBitset (nodeCount g) m s in
          obind (setPrepare b sender) (\<lambda>b1.
          obind (setPrepare b1 receiver) (\<lambda>b2.
            Ok (g, setData pp (SMsg m) (putBitset m b2 s1),
                Some (Prepare (pre_hash m) (pre_node m) (pre_round m) receiver (pre_view m))))))"

definition on_Prepare ::
  "graph \<Rightarrow> state \<Rightarrow> u64 \<Rightarrow> u32 \<Rightarrow> gostring \<Rightarrow> u64 \<Rightarrow> u64 \<Rightarrow> u64 \<Rightarrow> u32 \<Rightarrow> reply may_panic" where
  "on_Prepare g s receiver v hash node round snd_id view =
     (let m_Pre = Pre hash node round view in
      if v > view then Ok (g, s, None)
      else if v < view then
        (let (b, s1) = getBitset (nodeCount g) m_Pre s in
         obind (setPrepare b snd_id) (\<lambda>b1. Ok (g, putBitset m_Pre b1 s1, None)))
      else
        let (b, s1) = getBitset (nodeCount g) m_Pre s in
        obind (setPrepare b snd_id) (\<lambda>b1.
          let s2 = putBitset m_Pre b1 s1 in
          if prepareCount b1 \<noteq> quorum2f1 g then Ok (g, s2, None)
          else
            obind (hasCommit b1 receiver) (\<lambda>done.
              if done then Ok (g, s2, None)
              else
                obind (setCommit b1 receiver) (\<lambda>b2.
                  let s3 = putBitset m_Pre b2 s2;
                      p = Prepared node round view;
                      s4 = (if \<not> mhas (data s3) p then setData p (SHash hash) s3 else s3)
                  in Ok (g, s4, Some (Commit hash node round receiver view))))))"

definition on_Commit ::
  "graph \<Rightarrow> state \<Rightarrow> u32 \<Rightarrow> gostring \<Rightarrow> u64 \<Rightarrow> u64 \<Rightarrow> u64 \<Rightarrow> u32 \<Rightarrow> reply may_panic" where
  "on_Commit g s v hash node round snd_id view =
     (if v < view then Ok (g, s, None)
      else
        let m_Pre = Pre hash node round view;
            (b, s1) = getBitset (nodeCount g) m_Pre s
        in obind (setCommit b snd_id) (\<lambda>b1.
             let s2 = putBitset m_Pre b1 s1 in
             if commitCount b1 \<noteq> quorum2f1 g then Ok (g, s2, None)
             else if mhas (final s2) (node, round) then Ok (g, s2, None)
             else
               let s3 = s2\<lparr>final := mput (node, round) hash (final s2)\<rparr> in
               obind (deliver node round hash g) (\<lambda>g1. Ok (g1, s3, None))))"

definition on_ViewChange ::
  "graph \<Rightarrow> state \<Rightarrow> u64 \<Rightarrow> u32 \<Rightarrow> gostring \<Rightarrow> u64 \<Rightarrow> u64 \<Rightarrow> u64 \<Rightarrow> u32 \<Rightarrow> reply may_panic" where
  "on_ViewChange g s receiver v hash node round snd_id view =
     (if v > view then Ok (g, s, None)
      else
        let key = ViewChanged node round v in
        obind
          (case map_of (data s) key of
             Some (SVcs a) \<Rightarrow> Ok (a, g, s)
           | Some _ \<Rightarrow> Panic TypeAssertion
           | None \<Rightarrow>
               (let a = length (vcsHeap g) in
                Ok (a, g\<lparr>vcsHeap := vcsHeap g @ [[]]\<rparr>, setData key (SVcs a) s)))
          (\<lambda>(a, g1, s1).
             let vcs = mput snd_id hash (vcsHeap g1 ! a);
                 g2 = g1\<lparr>vcsHeap := (vcsHeap g1)[a := vcs]\<rparr>
             in if length vcs \<noteq> quorum2f1 g2 then Ok (g2, s1, None)
                else
                  let s2 = setData (View node round) (SView view) s1 in
                  obind (vcs_hash vcs) (\<lambda>h. Ok (g2, s2, Some (NewView h node round receiver view)))))"

definition on_NewView ::
  "graph \<Rightarrow> state \<Rightarrow> BlockID \<Rightarrow> u32 \<Rightarrow> gostring \<Rightarrow> u64 \<Rightarrow> u64 \<Rightarrow> u64 \<Rightarrow> u32 \<Rightarrow> reply may_panic" where
  "on_NewView g s origin v hash node round snd_id view =
     (if v > view then Ok (g, s, None)
      else
        let key = HNV node round view in
        if mhas (data s) key then Ok (g, s, None)
        else
          let s1 = setData (View node round) (SView view) s;
              tval = Round origin + stimeout s1 + 5;
              old = (case map_of (timeouts s1) tval of None \<Rightarrow> [] | Some ts \<Rightarrow> ts);
              s2 = s1\<lparr>timeouts := mput tval (old @ [\<lparr>tm_node = node, tm_round = round, tm_view = view\<rparr>])
                        (timeouts s1)\<rparr>;
              s3 = setData key (SBool True) s2
          in Ok (g, s3, Some (PrePrepare (Pre hash node round view))))"

definition processMessage ::
  "graph \<Rightarrow> state \<Rightarrow> u64 \<Rightarrow> u64 \<Rightarrow> BlockID \<Rightarrow> message \<Rightarrow> reply may_panic" where
  "processMessage g s sender receiver origin msg =
     (let (node, round) = NodeRound msg in
      if mhas (data s) (Final node round) then Ok (g, s, None)
      else
        obind (getView node round s) (\<lambda>(v, s0).
          case msg of
            PrePrepare m \<Rightarrow> on_PrePrepare g s0 sender receiver v m
          | Prepare h n r sn w \<Rightarrow> on_Prepare g s0 receiver v h n r sn w
          | Commit h n r sn w \<Rightarrow> on_Commit g s0 v h n r sn w
          | ViewChange h n r sn w \<Rightarrow> on_ViewChange g s0 receiver v h n r sn w
          | NewView h n r sn w \<Rightarrow> on_NewView g s0 origin v h n r sn w))"


section \<open>Interpreting a batch of messages\<close>

text \<open>Elimination rules: how each handler can return. All later proofs about the interpreter
  go through them.\<close>

lemma on_PrePrepare_cases:
  assumes "on_PrePrepare g s sender receiver v m = Ok (g1, s1, r)"
  obtains (ignored) "g1 = g" "s1 = s" "r = None"
  | (accepted) b t b1 b2 where "v = pre_view m"
      "map_of (data s) (PrePrepared (pre_node m) (pre_round m) (pre_view m)) = None"
      "getBitset (nodeCount g) m s = (b, t)" "setPrepare b sender = Ok b1" "setPrepare b1 receiver = Ok b2"
      "g1 = g" "s1 = setData (PrePrepared (pre_node m) (pre_round m) (pre_view m)) (SMsg m) (putBitset m b2 t)"
      "r = Some (Prepare (pre_hash m) (pre_node m) (pre_round m) receiver (pre_view m))"
  using assms
  by (auto simp: on_PrePrepare_def Let_def outcome_simps mhas_def split: prod.splits if_splits)

lemma on_Prepare_cases:
  assumes "on_Prepare g s receiver v h n rd sn w = Ok (g1, s1, r)"
  obtains (ignored) "g1 = g" "s1 = s" "r = None" "w < v"
  | (counted) b t b1 where "v \<le> w" "getBitset (nodeCount g) (Pre h n rd w) s = (b, t)"
      "setPrepare b sn = Ok b1" "g1 = g" "s1 = putBitset (Pre h n rd w) b1 t" "r = None"
  | (prepared) b t b1 b2 where "v = w" "getBitset (nodeCount g) (Pre h n rd w) s = (b, t)"
      "setPrepare b sn = Ok b1" "prepareCount b1 = quorum2f1 g" "hasCommit b1 receiver = Ok False"
      "setCommit b1 receiver = Ok b2" "g1 = g"
      "s1 = (let u = putBitset (Pre h n rd w) b2 (putBitset (Pre h n rd w) b1 t) in
             if \<not> mhas (data u) (Prepared n rd w) then setData (Prepared n rd w) (SHash h) u else u)"
      "r = Some (Commit h n rd receiver w)"
  using assms
  by (auto simp: on_Prepare_def Let_def outcome_simps not_less split: prod.splits if_splits)

lemma on_Commit_cases:
  assumes "on_Commit g s v h n rd sn w = Ok (g1, s1, r)"
  obtains (ignored) "g1 = g" "s1 = s" "r = None" "v < w"
  | (counted) b t b1 where "w \<le> v" "getBitset (nodeCount g) (Pre h n rd w) s = (b, t)" "setCommit b sn = Ok b1"
      "g1 = g" "s1 = putBitset (Pre h n rd w) b1 t" "r = None"
  | (decided) b t b1 where "w \<le> v" "getBitset (nodeCount g) (Pre h n rd w) s = (b, t)" "setCommit b sn = Ok b1"
      "commitCount b1 = quorum2f1 g" "map_of (final s) (n, rd) = None" "deliver n rd h g = Ok g1"
      "s1 = (putBitset (Pre h n rd w) b1 t)\<lparr>final := mput (n, rd) h (final s)\<rparr>" "r = None"
  using assms
  by (auto simp: on_Commit_def Let_def outcome_simps not_less mhas_def putBitset_def
      dest: getBitset_frame split: prod.splits if_splits)

lemma on_ViewChange_cases:
  assumes "on_ViewChange g s receiver v h n rd sn w = Ok (g1, s1, r)"
  obtains (ignored) "g1 = g" "s1 = s" "r = None" "w < v"
  | (tallied) a g0 s0 vcs where "v \<le> w" "vcs = mput sn h (vcsHeap g0 ! a)"
      "map_of (data s) (ViewChanged n rd v) = Some (SVcs a) \<and> g0 = g \<and> s0 = s \<or>
       map_of (data s) (ViewChanged n rd v) = None \<and> a = length (vcsHeap g) \<and>
         g0 = g\<lparr>vcsHeap := vcsHeap g @ [[]]\<rparr> \<and> s0 = setData (ViewChanged n rd v) (SVcs a) s"
      "g1 = g0\<lparr>vcsHeap := (vcsHeap g0)[a := vcs]\<rparr>"
      "length vcs \<noteq> quorum2f1 g \<and> s1 = s0 \<and> r = None \<or>
       length vcs = quorum2f1 g \<and> s1 = setData (View n rd) (SView w) s0 \<and>
         (\<exists>x. vcs_hash vcs = Ok x \<and> r = Some (NewView x n rd receiver w))"
proof (cases "w < v")
  case True
  with assms ignored show thesis by (simp add: on_ViewChange_def)
next
  case False
  show thesis
  proof (cases "map_of (data s) (ViewChanged n rd v)")
    case None
    with False assms show thesis
      by (intro tallied [of "mput sn h []" "g\<lparr>vcsHeap := vcsHeap g @ [[]]\<rparr>" "length (vcsHeap g)"
            "setData (ViewChanged n rd v) (SVcs (length (vcsHeap g))) s"])
        (auto simp: on_ViewChange_def Let_def outcome_simps split: if_splits)
  next
    case (Some d)
    with False assms obtain a where "d = SVcs a"
      by (cases d) (simp_all add: on_ViewChange_def Let_def)
    with Some False assms show thesis
      by (intro tallied [of "mput sn h (vcsHeap g ! a)" g a s])
        (auto simp: on_ViewChange_def Let_def outcome_simps split: if_splits)
  qed
qed

lemma on_NewView_cases:
  assumes "on_NewView g s origin v h n rd sn w = Ok (g1, s1, r)"
  obtains (ignored) "g1 = g" "s1 = s" "r = None"
  | (entered) tms where "v \<le> w" "map_of (data s) (HNV n rd w) = None" "g1 = g" "mwf (timeouts s) \<Longrightarrow> mwf tms"
      "s1 = setData (HNV n rd w) (SBool True) ((setData (View n rd) (SView w) s)\<lparr>timeouts := tms\<rparr>)"
      "r = Some (PrePrepare (Pre h n rd w))"
proof (cases "w < v \<or> mhas (data s) (HNV n rd w)")
  case True
  with assms ignored show thesis by (auto simp: on_NewView_def Let_def split: if_splits)
next
  case False
  then have new: "v \<le> w" "map_of (data s) (HNV n rd w) = None" by (auto simp: mhas_def)
  show thesis
    by (rule entered [OF new, where tms = "timeouts s1"])
      (use False assms in \<open>auto simp: on_NewView_def Let_def setData_def\<close>)
qed

lemma processMessage_cases:
  assumes "processMessage g s sender receiver origin msg = Ok (g1, s1, r)"
  obtains (decided) "g1 = g" "s1 = s" "r = None"
      "map_of (data s) (Final (fst (NodeRound msg)) (snd (NodeRound msg))) \<noteq> None"
  | (pre_prepare) m v s0 where "msg = PrePrepare m" "getView (pre_node m) (pre_round m) s = Ok (v, s0)"
      "on_PrePrepare g s0 sender receiver v m = Ok (g1, s1, r)"
  | (prepare) h n rd sn w v s0 where "msg = Prepare h n rd sn w" "getView n rd s = Ok (v, s0)"
      "on_Prepare g s0 receiver v h n rd sn w = Ok (g1, s1, r)"
  | (commit) h n rd sn w v s0 where "msg = Commit h n rd sn w" "getView n rd s = Ok (v, s0)"
      "on_Commit g s0 v h n rd sn w = Ok (g1, s1, r)"
  | (view_change) h n rd sn w v s0 where "msg = ViewChange h n rd sn w" "getView n rd s = Ok (v, s0)"
      "on_ViewChange g s0 receiver v h n rd sn w = Ok (g1, s1, r)"
  | (new_view) h n rd sn w v s0 where "msg = NewView h n rd sn w" "getView n rd s = Ok (v, s0)"
      "on_NewView g s0 origin v h n rd sn w = Ok (g1, s1, r)"
proof (cases "mhas (data s) (Final (fst (NodeRound msg)) (snd (NodeRound msg)))")
  case True
  with assms decided show thesis by (auto simp: processMessage_def mhas_def split: prod.splits)
next
  case False
  with assms obtain v s0 where "getView (fst (NodeRound msg)) (snd (NodeRound msg)) s = Ok (v, s0)"
    "(case msg of PrePrepare m \<Rightarrow> on_PrePrepare g s0 sender receiver v m
      | Prepare h n r sn w \<Rightarrow> on_Prepare g s0 receiver v h n r sn w
      | Commit h n r sn w \<Rightarrow> on_Commit g s0 v h n r sn w
      | ViewChange h n r sn w \<Rightarrow> on_ViewChange g s0 receiver v h n r sn w
      | NewView h n r sn w \<Rightarrow> on_NewView g s0 origin v h n r sn w) = Ok (g1, s1, r)"
    by (auto simp: processMessage_def outcome_simps split: prod.splits)
  with pre_prepare prepare commit view_change new_view show thesis by (cases msg) simp_all
qed

lemmas handler_cases =
  on_PrePrepare_cases on_Prepare_cases on_Commit_cases on_ViewChange_cases on_NewView_cases

text \<open>Every reply is one step closer to the end of the protocol than the message it answers.\<close>

lemma processMessage_rank:
  assumes "processMessage g s sender receiver origin msg = Ok (g1, s1, Some m)"
  shows "message_rank m < message_rank msg"
  using assms by (elim processMessage_cases) (auto elim!: handler_cases)

lemma message_rank_pos [simp]: "0 < message_rank m"
  by (cases m) simp_all

text \<open>The accumulator of both loops: graph, state, the set of processed messages, replies.\<close>

type_synonym pm_acc = "graph \<times> state \<times> message list \<times> message list"

definition process_one :: "u64 \<Rightarrow> u64 \<Rightarrow> BlockID \<Rightarrow> message \<Rightarrow> pm_acc \<Rightarrow> pm_acc may_panic" where
  "process_one sender receiver origin msg acc =
     (case acc of (g, s, processed, outs) \<Rightarrow>
        if msg \<in> set processed then Ok acc
        else
          obind (processMessage g s sender receiver origin msg) (\<lambda>(g1, s1, resp).
            Ok (g1, s1, msg # processed, outs @ (case resp of None \<Rightarrow> [] | Some m \<Rightarrow> [m]))))"

definition pm_outs :: "pm_acc \<Rightarrow> message list" where
  "pm_outs acc = snd (snd (snd acc))"

lemma process_one_outs:
  assumes "process_one sender receiver origin msg acc = Ok acc1"
  obtains ms where "pm_outs acc1 = pm_outs acc @ ms"
    and "sum_list (map message_rank ms) < message_rank msg" and "length ms \<le> 1"
proof -
  obtain g s processed outs where acc: "acc = (g, s, processed, outs)" by (cases acc) auto
  show thesis
  proof (cases "msg \<in> set processed")
    case True
    with assms acc that [of "[]"] show ?thesis by (simp add: process_one_def)
  next
    case False
    with assms acc obtain g1 s1 resp where
      r: "processMessage g s sender receiver origin msg = Ok (g1, s1, resp)"
      and a: "acc1 = (g1, s1, msg # processed, outs @ (case resp of None \<Rightarrow> [] | Some m \<Rightarrow> [m]))"
      by (auto simp: process_one_def outcome_simps)
    show ?thesis
    proof (cases resp)
      case None
      with a acc that [of "[]"] show ?thesis by (simp add: pm_outs_def)
    next
      case (Some m)
      with r processMessage_rank have "message_rank m < message_rank msg" by blast
      with Some a acc that [of "[m]"] show ?thesis by (simp add: pm_outs_def)
    qed
  qed
qed

definition pending_rank :: "nat \<Rightarrow> pm_acc \<Rightarrow> nat" where
  "pending_rank i acc = sum_list (map message_rank (drop i (pm_outs acc)))"

lemma pending_rank_step:
  assumes "process_one sender receiver origin (pm_outs acc ! i) acc = Ok acc1" and "i < length (pm_outs acc)"
  shows "pending_rank (Suc i) acc1 < pending_rank i acc"
proof -
  from assms(1) obtain ms where ms: "pm_outs acc1 = pm_outs acc @ ms"
    "sum_list (map message_rank ms) < message_rank (pm_outs acc ! i)"
    by (rule process_one_outs)
  have "drop i (pm_outs acc) = pm_outs acc ! i # drop (Suc i) (pm_outs acc)"
    using assms(2) by (rule Cons_nth_drop_Suc [symmetric])
  with ms assms(2) show ?thesis by (simp add: pending_rank_def)
qed

function pm_loop :: "u64 \<Rightarrow> u64 \<Rightarrow> BlockID \<Rightarrow> nat \<Rightarrow> pm_acc \<Rightarrow> pm_acc may_panic" where
  "pm_loop sender receiver origin i acc =
     (if i < length (pm_outs acc) then
        obind (process_one sender receiver origin (pm_outs acc ! i) acc)
          (\<lambda>acc1. pm_loop sender receiver origin (Suc i) acc1)
      else Ok acc)"
  by pat_completeness auto

termination pm_loop
proof (relation "measure (\<lambda>(sender, receiver, origin, i, acc). pending_rank i acc)", goal_cases)
  case 1
  show ?case by simp
next
  case (2 sender receiver origin i acc acc1)
  then show ?case using pending_rank_step [of sender receiver origin acc i acc1] by simp
qed

declare pm_loop.simps [simp del]

definition processMessages ::
  "graph \<Rightarrow> state \<Rightarrow> message list \<Rightarrow> u64 \<Rightarrow> u64 \<Rightarrow> BlockID \<Rightarrow> message list \<Rightarrow> pm_acc may_panic" where
  "processMessages g s processed sender receiver origin msgs =
     obind (ofold (process_one sender receiver origin) msgs (g, s, processed, []))
       (pm_loop sender receiver origin 0)"

section \<open>Interpreting a block\<close>

definition findOrCreateState :: "graph \<Rightarrow> entry \<Rightarrow> state" where
  "findOrCreateState g e =
     (if Valid (e_prev e) then clone (map_of (statess g) (e_prev e)) (ground g) else fresh_state)"

definition block_timeout :: "graph \<Rightarrow> state \<Rightarrow> u64" where
  "block_timeout g s =
     (let tval = 10 in
      if quorum2f1 g < length (delay s) then
        (let xval = sort (map snd (delay s)) ! quorum2f g in if xval > tval then xval else tval)
      else fold (\<lambda>val t. if val > t then val else t) (map snd (delay s)) tval)"

definition append_timeout :: "u64 \<Rightarrow> timeout \<Rightarrow> state \<Rightarrow> state" where
  "append_timeout tround tm s =
     s\<lparr>timeouts := mput tround ((case map_of (timeouts s) tround of None \<Rightarrow> [] | Some ts \<Rightarrow> ts) @ [tm]) (timeouts s)\<rparr>"

definition on_timeout :: "u64 \<Rightarrow> timeout \<Rightarrow> state \<times> message list \<Rightarrow> (state \<times> message list) may_panic" where
  "on_timeout node tm acc =
     (case acc of (s, outs) \<Rightarrow>
        if mhas (data s) (Final (tm_node tm) (tm_round tm)) then Ok (s, outs)
        else
          let skey = View (tm_node tm) (tm_round tm) in
          obind (case map_of (data s) skey of None \<Rightarrow> Ok 0 | Some (SView v) \<Rightarrow> Ok v | Some _ \<Rightarrow> Panic TypeAssertion)
            (\<lambda>v.
               if v > tm_view tm then Ok (s, outs)
               else
                 obind (case map_of (data s) (Prepared (tm_node tm) (tm_round tm) (tm_view tm)) of
                          None \<Rightarrow> Ok [] | Some (SHash h) \<Rightarrow> Ok h | Some _ \<Rightarrow> Panic TypeAssertion)
                   (\<lambda>hval.
                      Ok (setData skey (SView (v + 1)) s,
                          outs @ [ViewChange hval (tm_node tm) (tm_round tm) node (tm_view tm + 1)]))))"

definition process_dep :: "u64 \<Rightarrow> BlockID \<Rightarrow> BlockID \<Rightarrow> pm_acc \<Rightarrow> pm_acc may_panic" where
  "process_dep node origin dep acc =
     (case acc of (g, s, processed, outs) \<Rightarrow>
        obind (processMessages g s processed (Node dep) node origin (getOutput (map_of (statess g) dep)))
          (\<lambda>(g1, s1, processed1, replies). Ok (g1, s1, processed1, outs @ replies)))"

definition process :: "entry \<Rightarrow> graph \<Rightarrow> graph may_panic" where
  "process ntry g =
     (let s0 = findOrCreateState g ntry;
          node = Node (e_block ntry); round = Round (e_block ntry);
          out0 = [PrePrepare (Pre (Hash (e_block ntry)) node round 0)];
          s1 = s0\<lparr>delay := fold (\<lambda>dep d. mput (Node dep) (diff round (Round dep) * 10) d) (e_deps ntry) (delay s0)\<rparr>;
          tval = block_timeout g s1;
          s2 = s1\<lparr>stimeout := tval\<rparr>;
          tround = round + tval;
          s3 = fold (\<lambda>xnode. append_timeout tround \<lparr>tm_node = xnode, tm_round = round, tm_view = 0\<rparr>) (nodes g) s2
      in obind (ofold (on_timeout node)
                  (case map_of (timeouts s3) round of None \<Rightarrow> [] | Some ts \<Rightarrow> ts) (s3, out0))
           (\<lambda>(s4, out1).
         obind (processMessages g s4 [] node node (e_block ntry) out1)
           (\<lambda>(g5, s5, processed, replies).
         obind (ofold (process_dep node (e_block ntry)) (e_deps ntry) (g5, s5, processed, out1 @ replies))
           (\<lambda>(g6, s6, processed6, outs).
         Ok (g6\<lparr>statess := mput (e_block ntry) (s6\<lparr>out := outs\<rparr>) (statess g6)\<rparr>)))))"

section \<open>The interpreter loop, \<open>Add\<close> and \<open>New\<close>\<close>

text \<open>One lookup in \<open>graph.max\<close>: raise the running maximum, or set the flag when absent.\<close>

definition max_step :: "(BlockID, u64) gomap \<Rightarrow> BlockID \<Rightarrow> u64 \<times> bool \<Rightarrow> u64 \<times> bool" where
  "max_step ms link acc =
     (case map_of ms link of
        None \<Rightarrow> (fst acc, True)
      | Some linkMax \<Rightarrow> (if linkMax > fst acc then linkMax else fst acc, snd acc))"

definition dep_entry :: "Dep \<Rightarrow> entry" where
  "dep_entry dep =
     \<lparr>e_block = dep_Block dep,
      e_deps = (if Round (dep_Block dep) \<noteq> 1 then dep_Prev dep # dep_Deps dep else dep_Deps dep),
      e_prev = dep_Prev dep\<rparr>"

definition dep_max :: "u64 \<Rightarrow> Dep \<Rightarrow> graph \<times> u64 \<Rightarrow> graph \<times> u64" where
  "dep_max round dep acc =
     (case acc of (g, mx) \<Rightarrow>
        let start = (Round (dep_Block dep), False);
            a1 = (if Round (dep_Block dep) \<noteq> 1 then max_step (maxs g) (dep_Prev dep) start else start);
            (depMax, rcheck) = fold (max_step (maxs g)) (dep_Deps dep) a1;
            depMax' = (if rcheck \<and> round > depMax then round else depMax)
        in (g\<lparr>maxs := mput (dep_Block dep) depMax' (maxs g)\<rparr>, if depMax' > mx then depMax' else mx))"

definition register_block :: "BlockGraph \<Rightarrow> graph \<Rightarrow> graph" where
  "register_block bg g =
     (let round = ground g;
          (g1, mx) = fold (dep_max round) (bg_Deps bg) (g, Round (bg_Block bg));
          (mx1, rcheck) =
            (if Round (bg_Block bg) \<noteq> 1 then max_step (maxs g1) (bg_Prev bg) (mx, False) else (mx, False));
          mx2 = (if rcheck \<and> round > mx1 then round else mx1)
      in g1\<lparr>maxs := mput (bg_Block bg) mx2 (maxs g1),
            blocks := blocks g1 @ [\<lparr>bi_data = bg, bi_max = mx2\<rparr>]\<rparr>)"

definition self_entry :: "BlockGraph \<Rightarrow> entry" where
  "self_entry bg =
     \<lparr>e_block = bg_Block bg, e_deps = bg_Prev bg # map dep_Block (bg_Deps bg), e_prev = bg_Prev bg\<rparr>"

definition interpret_block :: "BlockGraph \<Rightarrow> graph \<Rightarrow> graph may_panic" where
  "interpret_block bg g =
     ofold process (map dep_entry (bg_Deps bg) @ [self_entry bg]) (register_block bg g)"

text \<open>One iteration of \<open>run\<close> with a block in the channel; \<open>None\<close> when it would wait.\<close>

definition run_step :: "graph \<Rightarrow> graph may_panic option" where
  "run_step g = (case entries g of [] \<Rightarrow> None | bg # rest \<Rightarrow> Some (interpret_block bg (g\<lparr>entries := rest\<rparr>)))"

text \<open>\<open>Add\<close> blocks (\<open>None\<close>) while the channel holds its 10000 blocks.\<close>

definition Add :: "BlockGraph \<Rightarrow> graph \<Rightarrow> graph option" where
  "Add bg g = (if length (entries g) < 10000 then Some (g\<lparr>entries := entries g @ [bg]\<rparr>) else None)"

definition New :: "Config \<Rightarrow> graph" where
  "New cfg =
     (let f = (length (Nodes cfg) - 1) div 3 in
      \<lparr>blocks = [], cbs = [], entries = [], maxs = [], nodeCount = length (Nodes cfg), nodes = Nodes cfg,
       quorumf1 = f + 1, quorum2f = 2 * f, quorum2f1 = 2 * f + 1, resolved = [],
       ground = LastInterpreted cfg + 1, self = SelfID cfg, statess = [], totalNodes = TotalNodes cfg,
       vcsHeap = []\<rparr>)"

end
