(* ===== verification/BmDelivery.thy ===== *)
theory BmDelivery
  imports BmGraph "HOL-Library.Multiset"
begin

text \<open>
  What the interpreter guarantees to the application behind the callback: rounds are delivered
  one after the other without a gap, a decision once taken is reported unchanged, and each report
  is a sorted list of distinct blocks of its round. Every guarantee is a reflexive and transitive
  relation between the graph before and after; the locale \<open>interp_rel\<close> lifts what one message
  does to a batch of messages and \<open>graph_rel\<close> lifts what \<open>deliver\<close> does to a whole block.
\<close>

section \<open>Lifting a relation through the interpreter\<close>

locale interp_rel =
  fixes T :: "graph \<times> state \<Rightarrow> graph \<times> state \<Rightarrow> bool"
  assumes T_refl: "T c c"
    and T_trans: "T c d \<Longrightarrow> T d e \<Longrightarrow> T c e"
    and T_message: "processMessage g s sender receiver origin msg = Ok (g1, s1, r) \<Longrightarrow> T (g, s) (g1, s1)"
begin

lemma T_process_one:
  "process_one sender receiver origin msg (g, s, p, o1) = Ok (g1, s1, p1, o2) \<Longrightarrow> T (g, s) (g1, s1)"
  by (auto simp: process_one_def outcome_simps T_refl dest: T_message split: if_splits)

lemma T_process_all:
  "ofold (process_one sender receiver origin) msgs (g, s, p, o1) = Ok (g1, s1, p1, o2) \<Longrightarrow> T (g, s) (g1, s1)"
proof (induction msgs arbitrary: g s p o1)
  case (Cons msg msgs)
  from Cons.prems obtain ga sa pa oa where
    "process_one sender receiver origin msg (g, s, p, o1) = Ok (ga, sa, pa, oa)"
    "ofold (process_one sender receiver origin) msgs (ga, sa, pa, oa) = Ok (g1, s1, p1, o2)"
    by (auto simp: outcome_simps)
  with Cons.IH T_process_one T_trans show ?case by blast
qed (simp add: T_refl)

lemma T_pm_loop:
  "pm_loop sender receiver origin i acc = Ok acc1 \<Longrightarrow> T (fst acc, fst (snd acc)) (fst acc1, fst (snd acc1))"
proof (induction sender receiver origin i acc rule: pm_loop.induct)
  case (1 sender receiver origin i acc)
  show ?case
  proof (cases "i < length (pm_outs acc)")
    case True
    with "1.prems" obtain acc2 where
      a: "process_one sender receiver origin (pm_outs acc ! i) acc = Ok acc2"
      and l: "pm_loop sender receiver origin (Suc i) acc2 = Ok acc1"
      by (subst (asm) pm_loop.simps) (auto simp: outcome_simps)
    have "T (fst acc, fst (snd acc)) (fst acc2, fst (snd acc2))"
      using a by (cases acc; cases acc2) (auto dest: T_process_one)
    then show ?thesis using "1.IH" [OF True a l] by (rule T_trans)
  next
    case False
    with "1.prems" have "acc1 = acc" by (subst (asm) pm_loop.simps) simp
    then show ?thesis by (simp add: T_refl)
  qed
qed

lemma T_processMessages:
  assumes "processMessages g s p sender receiver origin msgs = Ok (g1, s1, p1, o1)"
  shows "T (g, s) (g1, s1)"
proof -
  from assms obtain acc where
    a: "ofold (process_one sender receiver origin) msgs (g, s, p, []) = Ok acc"
    and l: "pm_loop sender receiver origin 0 acc = Ok (g1, s1, p1, o1)"
    by (auto simp: processMessages_def outcome_simps)
  from a have "T (g, s) (fst acc, fst (snd acc))" by (cases acc) (auto dest: T_process_all)
  moreover from T_pm_loop [OF l] have "T (fst acc, fst (snd acc)) (g1, s1)" by simp
  ultimately show ?thesis by (rule T_trans)
qed

lemma T_process_deps:
  "ofold (process_dep node origin) deps (g, s, p, o1) = Ok (g1, s1, p1, o2) \<Longrightarrow> T (g, s) (g1, s1)"
proof (induction deps arbitrary: g s p o1)
  case (Cons dep deps)
  from Cons.prems obtain ga sa pa oa where
    d: "process_dep node origin dep (g, s, p, o1) = Ok (ga, sa, pa, oa)"
    and "ofold (process_dep node origin) deps (ga, sa, pa, oa) = Ok (g1, s1, p1, o2)"
    by (auto simp: outcome_simps)
  moreover from d have "T (g, s) (ga, sa)"
    by (auto simp: process_dep_def outcome_simps dest: T_processMessages)
  ultimately show ?case using Cons.IH T_trans by blast
qed (simp add: T_refl)

end

lemma append_timeouts_frame: "\<exists>ts. fold (append_timeout tr) tms s = s\<lparr>timeouts := ts\<rparr>"
proof (induction tms arbitrary: s)
  case Nil
  show ?case by (rule exI [of _ "timeouts s"]) simp
next
  case (Cons tm tms)
  obtain ts where t: "append_timeout tr tm s = s\<lparr>timeouts := ts\<rparr>" by (auto simp: append_timeout_def)
  obtain us where "fold (append_timeout tr) tms (s\<lparr>timeouts := ts\<rparr>) = s\<lparr>timeouts := ts\<rparr>\<lparr>timeouts := us\<rparr>"
    using Cons.IH by blast
  with t show ?case by (intro exI [of _ us]) simp
qed

text \<open>How interpreting one block splits into its phases.\<close>

lemma process_cases:
  assumes "process ntry g = Ok g1"
  obtains s3 s4 out1 g5 s5 p5 replies g6 s6 p6 outs where
    "ofold (on_timeout (Node (e_block ntry)))
       (case map_of (timeouts s3) (Round (e_block ntry)) of None \<Rightarrow> [] | Some ts \<Rightarrow> ts)
       (s3, [PrePrepare (Pre (Hash (e_block ntry)) (Node (e_block ntry)) (Round (e_block ntry)) 0)]) = Ok (s4, out1)"
    "\<exists>d t ts. s3 = (findOrCreateState g ntry)\<lparr>delay := d, stimeout := t, timeouts := ts\<rparr>"
    "processMessages g s4 [] (Node (e_block ntry)) (Node (e_block ntry)) (e_block ntry) out1 = Ok (g5, s5, p5, replies)"
    "ofold (process_dep (Node (e_block ntry)) (e_block ntry)) (e_deps ntry) (g5, s5, p5, out1 @ replies) = Ok (g6, s6, p6, outs)"
    "g1 = g6\<lparr>statess := mput (e_block ntry) (s6\<lparr>out := outs\<rparr>) (statess g6)\<rparr>"
proof -
  define s2 where "s2 = (findOrCreateState g ntry)\<lparr>delay :=
      fold (\<lambda>dep d. mput (Node dep) (diff (Round (e_block ntry)) (Round dep) * 10) d) (e_deps ntry)
        (delay (findOrCreateState g ntry))\<rparr>"
  define s3 where "s3 = fold (\<lambda>xnode. append_timeout (Round (e_block ntry) + block_timeout g s2)
      \<lparr>tm_node = xnode, tm_round = Round (e_block ntry), tm_view = 0\<rparr>) (nodes g) (s2\<lparr>stimeout := block_timeout g s2\<rparr>)"
  obtain ts where "s3 = s2\<lparr>stimeout := block_timeout g s2\<rparr>\<lparr>timeouts := ts\<rparr>"
    using append_timeouts_frame [of _ "map (\<lambda>xnode. \<lparr>tm_node = xnode, tm_round = Round (e_block ntry), tm_view = 0\<rparr>) (nodes g)"]
    unfolding s3_def fold_map comp_def by blast
  then have s3: "\<exists>d t ts. s3 = (findOrCreateState g ntry)\<lparr>delay := d, stimeout := t, timeouts := ts\<rparr>"
    unfolding s2_def by (intro exI) simp
  obtain s4 out1 g5 s5 p5 replies g6 s6 p6 outs where
    "ofold (on_timeout (Node (e_block ntry)))
       (case map_of (timeouts s3) (Round (e_block ntry)) of None \<Rightarrow> [] | Some ts \<Rightarrow> ts)
       (s3, [PrePrepare (Pre (Hash (e_block ntry)) (Node (e_block ntry)) (Round (e_block ntry)) 0)]) = Ok (s4, out1)"
    "processMessages g s4 [] (Node (e_block ntry)) (Node (e_block ntry)) (e_block ntry) out1 = Ok (g5, s5, p5, replies)"
    "ofold (process_dep (Node (e_block ntry)) (e_block ntry)) (e_deps ntry) (g5, s5, p5, out1 @ replies) = Ok (g6, s6, p6, outs)"
    "g1 = g6\<lparr>statess := mput (e_block ntry) (s6\<lparr>out := outs\<rparr>) (statess g6)\<rparr>"
    using assms [unfolded process_def Let_def, folded s2_def, folded s3_def]
    by (auto simp: outcome_simps)
  with that s3 show thesis by blast
qed


locale graph_rel =
  fixes R :: "graph \<Rightarrow> graph \<Rightarrow> bool"
  assumes R_refl: "R g g"
    and R_trans: "R g h \<Longrightarrow> R h k \<Longrightarrow> R g k"
    and R_deliver: "deliver node round hash g = Ok g1 \<Longrightarrow> R g g1"
    and R_local: "R g (g\<lparr>vcsHeap := v\<rparr>)" "R g (g\<lparr>statess := st\<rparr>)" "R g (g\<lparr>maxs := ms\<rparr>)"
      "R g (g\<lparr>blocks := bs\<rparr>)" "R g (g\<lparr>entries := es\<rparr>)"
begin

lemma R_heap_twice: "R g (g\<lparr>vcsHeap := v\<rparr>\<lparr>vcsHeap := w\<rparr>)"
  by (simp add: R_local)

lemma R_message: "processMessage g s sender receiver origin msg = Ok (g1, s1, r) \<Longrightarrow> R g g1"
proof (erule processMessage_cases)
  fix h n rd sn w v s0
  assume "on_ViewChange g s0 receiver v h n rd sn w = Ok (g1, s1, r)"
  then show ?thesis
    by (rule on_ViewChange_cases) (auto simp: R_refl R_local R_heap_twice)
qed (auto elim!: on_PrePrepare_cases on_Prepare_cases on_Commit_cases on_NewView_cases
    simp: R_refl intro: R_deliver)

end

sublocale graph_rel \<subseteq> interp_rel "\<lambda>c d. R (fst c) (fst d)"
  by unfold_locales (auto simp: R_refl intro: R_trans R_message)

context graph_rel
begin

lemma R_process:
  assumes "process ntry g = Ok g1"
  shows "R g g1"
  using assms
proof (rule process_cases, goal_cases)
  case (1 s3 s4 out1 g5 s5 p5 replies g6 s6 p6 outs)
  from 1(3) have "R g g5" by (auto dest: T_processMessages)
  moreover from 1(4) have "R g5 g6" by (auto dest: T_process_deps)
  moreover from 1(5) have "R g6 g1" by (simp add: R_local)
  ultimately show ?case by (blast intro: R_trans)
qed

lemma R_dep_max: "R g (fst (dep_max round dep (g, mx)))"
  by (simp add: dep_max_def Let_def R_local split: prod.splits)

lemma R_deps_max: "R g (fst (fold (dep_max round) deps (g, mx)))"
proof (induction deps arbitrary: g mx)
  case (Cons dep deps)
  show ?case
    using R_dep_max [of g round dep mx] Cons.IH [of "fst (dep_max round dep (g, mx))" "snd (dep_max round dep (g, mx))"]
    by (simp add: R_trans [of g "fst (dep_max round dep (g, mx))"])
qed (simp add: R_refl)

lemma R_register: "R g (register_block bg g)"
proof -
  obtain g1 mx where f: "fold (dep_max (ground g)) (bg_Deps bg) (g, Round (bg_Block bg)) = (g1, mx)"
    by fastforce
  with R_deps_max have "R g g1" by (metis fst_conv)
  moreover have "R g1 (register_block bg g)"
    unfolding register_block_def Let_def f
    by (simp split: prod.splits) (blast intro: R_trans [OF R_local(3) R_local(4)])
  ultimately show ?thesis by (rule R_trans)
qed

lemma R_interpret:
  assumes "interpret_block bg g = Ok g1"
  shows "R g g1"
proof (rule ofold_invariant [where P = "R g", OF assms [unfolded interpret_block_def] R_register])
  show "\<And>x u v. R g u \<Longrightarrow> process x u = Ok v \<Longrightarrow> R g v"
    by (blast intro: R_trans R_process)
qed

lemma R_run:
  assumes "run_step g = Some (Ok g1)"
  shows "R g g1"
proof -
  from assms obtain bg rest where "interpret_block bg (g\<lparr>entries := rest\<rparr>) = Ok g1"
    by (auto simp: run_step_def split: list.splits)
  then have "R (g\<lparr>entries := rest\<rparr>) g1" by (rule R_interpret)
  with R_local(5) show ?thesis by (rule R_trans)
qed

end

section \<open>Rounds are delivered in order\<close>

definition same_config :: "graph \<Rightarrow> graph \<Rightarrow> bool" where
  "same_config g h \<longleftrightarrow> nodeCount h = nodeCount g \<and> nodes h = nodes g \<and> quorum2f h = quorum2f g \<and>
     quorum2f1 h = quorum2f1 g"

text \<open>\<open>h\<close> has reported the rounds from \<open>ground g\<close> on, without a gap, on top of what \<open>g\<close> had
  reported, and expects the next one.\<close>

definition delivers :: "graph \<Rightarrow> graph \<Rightarrow> bool" where
  "delivers g h \<longleftrightarrow>
     (\<exists>new. cbs h = cbs g @ new \<and> ground h = ground g + of_nat (length new) \<and>
        map in_Round new = map (\<lambda>i. ground g + of_nat i) [0..<length new])"

lemma delivers_refl [simp]: "delivers g g"
  by (simp add: delivers_def)

lemma rounds_from_append:
  fixes r :: u64
  assumes "map f xs = map (\<lambda>i. r + of_nat i) [0..<length xs]"
    and "map f ys = map (\<lambda>i. r + of_nat (length xs) + of_nat i) [0..<length ys]"
  shows "map f (xs @ ys) = map (\<lambda>i. r + of_nat i) [0..<length (xs @ ys)]"
proof -
  have u: "[0..<length (xs @ ys)] = [0..<length xs] @ map (\<lambda>i. i + length xs) [0..<length ys]"
    unfolding length_append map_add_upt
    by (subst upt_add_eq_append) (simp_all only: le0 add.commute [of "length xs"])
  have "map (\<lambda>i. r + of_nat (i + length xs)) [0..<length ys] = map f ys"
    unfolding assms(2) by (rule map_cong) (simp_all only: of_nat_add ac_simps)
  with assms(1) show ?thesis
    unfolding u map_append map_map comp_def by simp
qed

lemma delivers_trans:
  assumes "delivers g h" "delivers h k"
  shows "delivers g k"
proof -
  from assms obtain xs ys where
    x: "cbs h = cbs g @ xs" "ground h = ground g + of_nat (length xs)"
       "map in_Round xs = map (\<lambda>i. ground g + of_nat i) [0..<length xs]" and
    y: "cbs k = cbs h @ ys" "ground k = ground h + of_nat (length ys)"
       "map in_Round ys = map (\<lambda>i. ground h + of_nat i) [0..<length ys]"
    by (auto simp: delivers_def)
  have "map in_Round (xs @ ys) = map (\<lambda>i. ground g + of_nat i) [0..<length (xs @ ys)]"
    by (rule rounds_from_append) (use x y in simp_all)
  with x y show ?thesis
    unfolding delivers_def by (intro exI [of _ "xs @ ys"]) simp
qed

lemma delivers_cong:
  "cbs g1 = cbs g \<Longrightarrow> ground g1 = ground g \<Longrightarrow> delivers g1 h \<Longrightarrow> delivers g h"
  by (simp add: delivers_def)

lemma deliverRound_cases:
  assumes "deliverRound round hashes g = Ok h"
  obtains (last) "blocks g \<noteq> []" "h = close_round round hashes g"
  | (next_round) hs where "blocks g \<noteq> []" "map_of (resolved (close_round round hashes g)) (round + 1) = Some hs"
      "length hs = nodeCount (close_round round hashes g)" "deliverRound (round + 1) hs (close_round round hashes g) = Ok h"
  using assms deliverRound.simps [of round hashes g] last next_round
  by (cases "map_of (resolved (close_round round hashes g)) (round + 1)")
    (simp_all add: Let_def split: if_splits del: close_round_simps)

lemma deliverRound_delivers:
  "deliverRound round hashes g = Ok h \<Longrightarrow> round = ground g \<Longrightarrow> delivers g h"
proof (induction round hashes g rule: deliverRound.induct)
  case (1 round hashes g)
  let ?c = "close_round round hashes g"
  have c: "delivers g ?c"
    using "1.prems"(2) by (simp add: delivers_def)
  from "1.prems"(1) show ?case
  proof (cases rule: deliverRound_cases)
    case last
    with c show ?thesis by simp
  next
    case 2: (next_round hs)
    with "1.IH" [OF 2(1) refl 2(2,3,4)] "1.prems"(2) have "delivers ?c h" by simp
    with c show ?thesis by (rule delivers_trans)
  qed
qed

lemma deliver_cases:
  assumes "deliver node round hash g = Ok h"
  obtains (stale) "round < ground g" "h = g"
  | (recorded) hashes where "\<not> round < ground g"
      "add_decision (map_of (resolved g) round) node hash = Ok hashes"
      "round \<noteq> ground g \<or> length hashes \<noteq> nodeCount g" "h = g\<lparr>resolved := mput round hashes (resolved g)\<rparr>"
  | (completed) hashes where "round = ground g"
      "add_decision (map_of (resolved g) round) node hash = Ok hashes"
      "length hashes = nodeCount g"
      "deliverRound round hashes (g\<lparr>resolved := mput round hashes (resolved g)\<rparr>) = Ok h"
  using assms
  by (auto simp: deliver_def Let_def outcome_simps split: if_splits)

lemma deliver_delivers:
  assumes "deliver node round hash g = Ok h"
  shows "delivers g h"
  using assms
proof (cases rule: deliver_cases)
  case (recorded hashes)
  then show ?thesis by (simp add: delivers_def)
next
  case (completed hashes)
  then have "delivers (g\<lparr>resolved := mput round hashes (resolved g)\<rparr>) h"
    by (intro deliverRound_delivers) simp_all
  then show ?thesis by (simp add: delivers_def)
qed simp

interpretation order: graph_rel delivers
proof unfold_locales
  show "delivers g h \<Longrightarrow> delivers h k \<Longrightarrow> delivers g k" for g h k by (rule delivers_trans)
  show "deliver node round hash g = Ok g1 \<Longrightarrow> delivers g g1" for node round hash g g1 by (rule deliver_delivers)
qed (simp_all add: delivers_def)

section \<open>Decisions are reported unchanged\<close>

definition decided :: "graph \<Rightarrow> u64 \<Rightarrow> u64 \<Rightarrow> gostring \<Rightarrow> bool" where
  "decided g node round hash \<longleftrightarrow> (\<exists>hs. map_of (resolved g) round = Some hs \<and> map_of hs node = Some hash)"

text \<open>The report \<open>i\<close> carries the decision: the block itself, or nothing for an empty hash.\<close>

definition reports :: "Interpreted \<Rightarrow> u64 \<Rightarrow> u64 \<Rightarrow> gostring \<Rightarrow> bool" where
  "reports i node round hash \<longleftrightarrow> in_Round i = round \<and>
     (hash \<noteq> [] \<longrightarrow> \<lparr>Hash = hash, Node = node, Round = round\<rparr> \<in> set (in_Blocks i))"

definition settles :: "graph \<Rightarrow> graph \<Rightarrow> bool" where
  "settles g h \<longleftrightarrow>
     (\<exists>new. cbs h = cbs g @ new \<and>
        (\<forall>node round hash. decided g node round hash \<longrightarrow>
           decided h node round hash \<or> (\<exists>i \<in> set new. reports i node round hash)))"

lemma settles_refl: "settles g g"
  by (simp add: settles_def)

lemma settles_trans:
  assumes "settles g h" "settles h k"
  shows "settles g k"
proof -
  from assms obtain xs ys where
    x: "cbs h = cbs g @ xs" "\<And>n r s. decided g n r s \<Longrightarrow> decided h n r s \<or> (\<exists>i \<in> set xs. reports i n r s)" and
    y: "cbs k = cbs h @ ys" "\<And>n r s. decided h n r s \<Longrightarrow> decided k n r s \<or> (\<exists>i \<in> set ys. reports i n r s)"
    unfolding settles_def by blast
  show ?thesis
    unfolding settles_def
  proof (intro exI [of _ "xs @ ys"] conjI allI impI)
    fix n r s
    assume "decided g n r s"
    with x(2) y(2) show "decided k n r s \<or> (\<exists>i \<in> set (xs @ ys). reports i n r s)"
      by fastforce
  qed (simp add: x y)
qed

lemma round_blocks_mem:
  "b \<in> set (round_blocks round hashes) \<longleftrightarrow> (Node b, Hash b) \<in> set hashes \<and> Hash b \<noteq> [] \<and> Round b = round"
  by (cases b) (auto simp: round_blocks_def image_iff)

lemma close_round_settles:
  assumes "map_of (resolved g) round = Some hashes"
  shows "settles g (close_round round hashes g)"
proof -
  have "decided (close_round round hashes g) n r s \<or> reports (last (cbs (close_round round hashes g))) n r s"
    if "decided g n r s" for n r s
  proof (cases "r = round")
    case True
    with assms that have "(n, s) \<in> set hashes" by (auto simp: decided_def dest: map_of_SomeD)
    with True show ?thesis by (auto simp: reports_def round_blocks_mem)
  next
    case False
    with that show ?thesis by (simp add: decided_def gomap_simps)
  qed
  then show ?thesis unfolding settles_def by (intro exI [of _ "[last (cbs (close_round round hashes g))]"]) auto
qed

lemma deliverRound_settles:
  "deliverRound round hashes g = Ok h \<Longrightarrow> map_of (resolved g) round = Some hashes \<Longrightarrow> settles g h"
proof (induction round hashes g rule: deliverRound.induct)
  case (1 round hashes g)
  let ?c = "close_round round hashes g"
  from "1.prems"(2) have c: "settles g ?c" by (rule close_round_settles)
  from "1.prems"(1) show ?case
  proof (cases rule: deliverRound_cases)
    case last
    with c show ?thesis by simp
  next
    case 2: (next_round hs)
    then have "settles ?c h" by (intro "1.IH" [OF 2(1) refl 2(2,3,4)]) simp
    with c show ?thesis by (rule settles_trans)
  qed
qed


lemma add_decision_keeps:
  "add_decision (map_of (resolved g) round) node hash = Ok hashes \<Longrightarrow> decided g n r s \<Longrightarrow>
     decided (g\<lparr>resolved := mput round hashes (resolved g)\<rparr>) n r s"
  by (auto simp: add_decision_def decided_def gomap_simps split: option.splits if_splits)

lemma deliver_settles:
  assumes "deliver node round hash g = Ok h"
  shows "settles g h"
  using assms
proof (cases rule: deliver_cases)
  case (recorded hashes)
  then show ?thesis by (auto simp: settles_def dest: add_decision_keeps)
next
  case (completed hashes)
  let ?g1 = "g\<lparr>resolved := mput round hashes (resolved g)\<rparr>"
  from completed(2) have "settles g ?g1" by (auto simp: settles_def dest: add_decision_keeps)
  moreover have "settles ?g1 h"
    using completed(4) by (rule deliverRound_settles) (simp add: gomap_simps)
  ultimately show ?thesis by (rule settles_trans)
qed (simp add: settles_refl)

interpretation settle: graph_rel settles
proof unfold_locales
  show "settles g h \<Longrightarrow> settles h k \<Longrightarrow> settles g k" for g h k by (rule settles_trans)
  show "deliver node round hash g = Ok g1 \<Longrightarrow> settles g g1" for node round hash g g1 by (rule deliver_settles)
qed (simp_all add: settles_def decided_def)

section \<open>Reports are well formed\<close>

definition report_ok :: "nat \<Rightarrow> Interpreted \<Rightarrow> bool" where
  "report_ok n i \<longleftrightarrow> sorted (map Hash (in_Blocks i)) \<and> distinct (map Node (in_Blocks i)) \<and>
     length (in_Blocks i) \<le> n \<and> list_all (\<lambda>b. Valid b \<and> Round b = in_Round i) (in_Blocks i)"

definition reporting :: "graph \<Rightarrow> bool" where
  "reporting g \<longleftrightarrow> (\<forall>i \<in> set (cbs g). report_ok (nodeCount g) i) \<and>
     (\<forall>r hs. map_of (resolved g) r = Some hs \<longrightarrow> mwf hs)"

lemma round_blocks_ok:
  assumes "mwf hashes"
  shows "report_ok (length hashes) \<lparr>in_Blocks = round_blocks round hashes, in_Consumed = c, in_Round = round\<rparr>"
proof -
  let ?bs = "map (\<lambda>(node, hash). \<lparr>Hash = hash, Node = node, Round = round\<rparr>) (filter (\<lambda>(node, hash). hash \<noteq> []) hashes)"
  have nodes: "map Node ?bs = map fst (filter (\<lambda>(node, hash). hash \<noteq> []) hashes)"
    by (simp add: comp_def case_prod_unfold)
  with assms have "distinct (map Node ?bs)" by (simp only: distinct_map_filter)
  moreover have "mset (map Node (round_blocks round hashes)) = mset (map Node ?bs)"
    unfolding round_blocks_def mset_map mset_sort ..
  ultimately have "distinct (map Node (round_blocks round hashes))"
    using mset_eq_imp_distinct_iff by blast
  moreover have "length (round_blocks round hashes) \<le> length hashes"
    unfolding round_blocks_def length_sort length_map by (rule length_filter_le)
  moreover have "sorted (map Hash (round_blocks round hashes))"
    unfolding round_blocks_def by (rule sorted_sort_key)
  moreover have "list_all (\<lambda>b. Valid b \<and> Round b = round) (round_blocks round hashes)"
    by (simp add: list_all_iff round_blocks_mem Valid_def)
  ultimately show ?thesis by (simp add: report_ok_def)
qed

lemma close_round_reporting:
  assumes "reporting g" "mwf hashes" "length hashes = nodeCount g"
  shows "reporting (close_round round hashes g)"
  using assms round_blocks_ok [OF assms(2)] by (auto simp: reporting_def gomap_simps split: if_splits)

lemma deliverRound_reporting:
  "deliverRound round hashes g = Ok h \<Longrightarrow> reporting g \<Longrightarrow> mwf hashes \<Longrightarrow> length hashes = nodeCount g \<Longrightarrow> reporting h"
proof (induction round hashes g rule: deliverRound.induct)
  case (1 round hashes g)
  let ?c = "close_round round hashes g"
  from "1.prems" have c: "reporting ?c" by (intro close_round_reporting)
  from "1.prems"(1) show ?case
  proof (cases rule: deliverRound_cases)
    case last
    with c show ?thesis by simp
  next
    case 2: (next_round hs)
    with c have "mwf hs" unfolding reporting_def by blast
    with 2(3) c show ?thesis by (intro "1.IH" [OF 2(1) refl 2(2,3,4)])
  qed
qed

lemma deliver_reporting:
  assumes "deliver node round hash g = Ok h" "reporting g"
  shows "reporting h"
proof -
  have "mwf hashes" if "add_decision (map_of (resolved g) round) node hash = Ok hashes" for hashes
    using that assms(2) by (auto simp: add_decision_def reporting_def split: option.splits if_splits)
  then have wf: "mwf hashes \<and> reporting (g\<lparr>resolved := mput round hashes (resolved g)\<rparr>)"
    if "add_decision (map_of (resolved g) round) node hash = Ok hashes" for hashes
    using that assms(2) by (auto simp: reporting_def gomap_simps split: if_splits)
  from assms(1) show ?thesis
  proof (cases rule: deliver_cases)
    case stale
    with assms(2) show ?thesis by simp
  next
    case (recorded hashes)
    with wf show ?thesis by simp
  next
    case (completed hashes)
    with wf [OF completed(2)] show ?thesis by (intro deliverRound_reporting [OF completed(4)]) simp_all
  qed
qed

definition keeps_reporting :: "graph \<Rightarrow> graph \<Rightarrow> bool" where
  "keeps_reporting g h \<longleftrightarrow> (reporting g \<longrightarrow> reporting h)"

lemma reporting_local:
  "reporting (g\<lparr>vcsHeap := v\<rparr>) = reporting g" "reporting (g\<lparr>statess := st\<rparr>) = reporting g"
  "reporting (g\<lparr>maxs := ms\<rparr>) = reporting g" "reporting (g\<lparr>blocks := bs\<rparr>) = reporting g"
  "reporting (g\<lparr>entries := es\<rparr>) = reporting g"
  by (simp_all add: reporting_def)

interpretation rep: graph_rel keeps_reporting
proof unfold_locales
  show "deliver node round hash g = Ok g1 \<Longrightarrow> keeps_reporting g g1" for node round hash g g1
    unfolding keeps_reporting_def using deliver_reporting by blast
  show "keeps_reporting g h \<Longrightarrow> keeps_reporting h k \<Longrightarrow> keeps_reporting g k" for g h k
    unfolding keeps_reporting_def by blast
qed (simp_all add: keeps_reporting_def reporting_local)

section \<open>Runs of the interpreter\<close>

text \<open>A guarantee of one block is a guarantee of every sequence of blocks.\<close>

context graph_rel
begin

lemma R_blocks:
  assumes "ofold interpret_block bgs g = Ok h"
  shows "R g h"
proof (rule ofold_invariant [where P = "R g", OF assms R_refl])
  show "\<And>x u v. R g u \<Longrightarrow> interpret_block x u = Ok v \<Longrightarrow> R g v"
    by (blast intro: R_trans R_interpret)
qed

end

lemma New_simps [simp]:
  "cbs (New cfg) = []" "ground (New cfg) = LastInterpreted cfg + 1" "resolved (New cfg) = []"
  "nodeCount (New cfg) = length (Nodes cfg)" "nodes (New cfg) = Nodes cfg"
  "quorumf1 (New cfg) = (length (Nodes cfg) - 1) div 3 + 1"
  "quorum2f (New cfg) = 2 * ((length (Nodes cfg) - 1) div 3)"
  "quorum2f1 (New cfg) = 2 * ((length (Nodes cfg) - 1) div 3) + 1"
  "statess (New cfg) = []" "blocks (New cfg) = []" "vcsHeap (New cfg) = []" "maxs (New cfg) = []"
  by (simp_all add: New_def Let_def)

definition demo_cfg :: Config where
  "demo_cfg = \<lparr>LastInterpreted = 0, Nodes = [0], SelfID = 0, TotalNodes = 1\<rparr>"

definition demo_block :: "byte \<Rightarrow> u64 \<Rightarrow> BlockID" where
  "demo_block h r = \<lparr>Hash = [h], Node = 0, Round = r\<rparr>"

definition demo_run :: "graph may_panic" where
  "demo_run = ofold interpret_block
     [\<lparr>bg_Block = demo_block 7 1, bg_Deps = [], bg_Prev = zero_BlockID\<rparr>,
      \<lparr>bg_Block = demo_block 3 2, bg_Deps = [], bg_Prev = demo_block 7 1\<rparr>] (New demo_cfg)"

lemma demo_run_ok:
  "map_option cbs (ok_val demo_run) =
     Some [\<lparr>in_Blocks = [demo_block 7 1], in_Consumed = 1, in_Round = 1\<rparr>,
           \<lparr>in_Blocks = [demo_block 3 2], in_Consumed = 2, in_Round = 2\<rparr>]"
  by code_simp


lemma demo_run_length: "\<exists>h. demo_run = Ok h \<and> length (cbs h) = 2"
  using demo_run_ok unfolding ok_val_map_Some by fastforce

definition demo_pair :: graph where
  "demo_pair = (New \<lparr>LastInterpreted = 0, Nodes = [0, 1], SelfID = 0, TotalNodes = 2\<rparr>)
     \<lparr>resolved := [(1, [(1, [9])])]\<rparr>"

definition demo_pair_run :: "graph may_panic" where
  "demo_pair_run = ofold interpret_block [\<lparr>bg_Block = demo_block 7 1, bg_Deps = [], bg_Prev = zero_BlockID\<rparr>] demo_pair"

lemma demo_pair_ok:
  "map_option (\<lambda>h. (resolved h, map in_Blocks (cbs h))) (ok_val demo_pair_run) =
     Some ([], [[\<lparr>Hash = [7], Node = 0, Round = 1\<rparr>, \<lparr>Hash = [9], Node = 1, Round = 1\<rparr>]])"
  by code_simp

lemma demo_pair_resolved: "\<exists>h. demo_pair_run = Ok h \<and> resolved h = []"
  using demo_pair_ok unfolding ok_val_map_Some by fastforce

section \<open>Properties\<close>

text \<open>\<^bold>\<open>C6\<close>: whatever sequence of blocks a new graph interprets, the rounds it reports to the
  callback are \<open>LastInterpreted + 1\<close>, \<open>LastInterpreted + 2\<close>, \dots in this order and without a
  gap, and \<open>round\<close> is the next one.\<close>

theorem rounds_delivered_in_order:
  assumes "ofold interpret_block bgs (New cfg) = Ok h"
  shows "map in_Round (cbs h) = map (\<lambda>i. LastInterpreted cfg + 1 + of_nat i) [0..<length (cbs h)] \<and>
         ground h = LastInterpreted cfg + 1 + of_nat (length (cbs h))"
  using order.R_blocks [OF assms] by (auto simp: delivers_def)

theorem rounds_delivered_in_order_witness:
  "\<exists>h. demo_run = Ok h \<and> length (cbs h) = 2 \<and> map in_Round (cbs h) = [1, 2] \<and> ground h = 3"
proof -
  obtain h where h: "demo_run = Ok h" "length (cbs h) = 2"
    using demo_run_length by auto
  have e: "LastInterpreted demo_cfg = 0" "[0..<2] = [0, Suc 0]"
    by (simp_all add: demo_cfg_def numeral_2_eq_2)
  have "map in_Round (cbs h) = [1, 2] \<and> ground h = 3"
    using rounds_delivered_in_order [OF h(1) [unfolded demo_run_def], unfolded h(2)]
    unfolding e list.map by simp
  with h show ?thesis by auto
qed

text \<open>\<^bold>\<open>C7\<close>: a decision for a node and round is never lost or replaced. After interpreting any
  further blocks it is still recorded with the same hash, or the callback was given the report of
  that round, which contains the decided block (an empty hash stands for no block).\<close>

theorem decisions_reported_unchanged:
  assumes "ofold interpret_block bgs g = Ok h"
    and "map_of (resolved g) round = Some hs" and "map_of hs node = Some hash"
  shows "(\<exists>hs'. map_of (resolved h) round = Some hs' \<and> map_of hs' node = Some hash) \<or>
         (\<exists>i \<in> set (drop (length (cbs g)) (cbs h)). in_Round i = round \<and>
            (hash \<noteq> [] \<longrightarrow> \<lparr>Hash = hash, Node = node, Round = round\<rparr> \<in> set (in_Blocks i)))"
proof -
  from settle.R_blocks [OF assms(1)] obtain new where new: "cbs h = cbs g @ new"
    "decided g node round hash \<Longrightarrow> decided h node round hash \<or> (\<exists>i \<in> set new. reports i node round hash)"
    unfolding settles_def by blast
  moreover from assms(2,3) have "decided g node round hash" by (simp add: decided_def)
  ultimately show ?thesis by (auto simp: decided_def reports_def)
qed

theorem decisions_reported_unchanged_witness:
  "\<exists>h. demo_pair_run = Ok h \<and> resolved h = [] \<and>
     (\<exists>i \<in> set (cbs h). in_Round i = 1 \<and> \<lparr>Hash = [9], Node = 1, Round = 1\<rparr> \<in> set (in_Blocks i))"
proof -
  obtain h where h: "demo_pair_run = Ok h" "resolved h = []"
    using demo_pair_resolved by auto
  have "map_of (resolved demo_pair) 1 = Some [(1, [9])]" "cbs demo_pair = []"
    by (simp_all add: demo_pair_def)
  with decisions_reported_unchanged [OF h(1) [unfolded demo_pair_run_def], of 1 "[(1, [9])]" 1 "[9]"] h
  show ?thesis by auto
qed

text \<open>\<^bold>\<open>C24\<close>: every report is a canonical list of blocks: sorted by hash, at most one block per
  node, at most as many as there are nodes, every block with a hash and of the reported round.\<close>

theorem reports_well_formed:
  assumes "ofold interpret_block bgs (New cfg) = Ok h"
  shows "\<forall>i \<in> set (cbs h). sorted (map Hash (in_Blocks i)) \<and> distinct (map Node (in_Blocks i)) \<and>
     length (in_Blocks i) \<le> nodeCount h \<and> list_all (\<lambda>b. Valid b \<and> Round b = in_Round i) (in_Blocks i)"
proof -
  have "reporting (New cfg)" by (simp add: reporting_def)
  with rep.R_blocks [OF assms] have "reporting h" by (simp add: keeps_reporting_def)
  then show ?thesis by (simp add: reporting_def report_ok_def)
qed

theorem reports_well_formed_witness:
  "\<exists>h. demo_run = Ok h \<and> length (cbs h) = 2 \<and> (\<forall>i \<in> set (cbs h). list_all Valid (in_Blocks i))"
proof -
  obtain h where h: "demo_run = Ok h" "length (cbs h) = 2"
    using demo_run_length by auto
  with reports_well_formed [OF h(1) [unfolded demo_run_def]] show ?thesis by (auto simp: list_all_iff)
qed

end
