(* ===== verification/BmProtocol.thy ===== *)
theory BmProtocol
  imports BmDelivery
begin

text \<open>
  What the interpreter does to the state of one block: nothing that was accepted, prepared or
  decided is taken back, views only grow and votes only accumulate (\<open>advances\<close>); replies are
  made on a quorum only; interpreting a batch of messages terminates with a bounded number of
  replies; and no dynamic type assertion of the code can fail (\<open>safe\<close> triples).
\<close>

section \<open>States only advance\<close>

definition permanent :: "StateData \<Rightarrow> bool" where
  "permanent k = (case k of PrePrepared _ _ _ \<Rightarrow> True | Prepared _ _ _ \<Rightarrow> True | HNV _ _ _ \<Rightarrow> True
     | ViewChanged _ _ _ \<Rightarrow> True | Final _ _ \<Rightarrow> True | View _ _ \<Rightarrow> False)"

definition advances :: "state \<Rightarrow> state \<Rightarrow> bool" where
  "advances s t \<longleftrightarrow>
     (\<forall>nr h. map_of (final s) nr = Some h \<longrightarrow> map_of (final t) nr = Some h) \<and>
     (\<forall>k d. permanent k \<longrightarrow> map_of (data s) k = Some d \<longrightarrow> map_of (data t) k = Some d) \<and>
     (\<forall>n r v. map_of (data s) (View n r) = Some (SView v) \<longrightarrow>
        (\<exists>w. map_of (data t) (View n r) = Some (SView w) \<and> v \<le> w)) \<and>
     (\<forall>pp b. map_of (bitsets s) pp = Some b \<longrightarrow>
        (\<exists>c. map_of (bitsets t) pp = Some c \<and> prepare_votes b \<subseteq> prepare_votes c \<and> commit_votes b \<subseteq> commit_votes c))"

lemma advances_refl [simp]: "advances s s"
  by (auto simp: advances_def)

lemma advances_trans:
  assumes "advances s t" "advances t u"
  shows "advances s u"
  unfolding advances_def
proof (intro conjI allI impI)
  fix n r v
  assume "map_of (data s) (View n r) = Some (SView v)"
  with assms(1) obtain w where "map_of (data t) (View n r) = Some (SView w)" "v \<le> w"
    unfolding advances_def by blast
  moreover from this(1) assms(2) obtain x where "map_of (data u) (View n r) = Some (SView x)" "w \<le> x"
    unfolding advances_def by blast
  ultimately show "\<exists>w. map_of (data u) (View n r) = Some (SView w) \<and> v \<le> w" by auto
next
  fix pp b
  assume "map_of (bitsets s) pp = Some b"
  with assms(1) obtain c where "map_of (bitsets t) pp = Some c"
    "prepare_votes b \<subseteq> prepare_votes c" "commit_votes b \<subseteq> commit_votes c"
    unfolding advances_def by blast
  moreover from this(1) assms(2) obtain d where "map_of (bitsets u) pp = Some d"
    "prepare_votes c \<subseteq> prepare_votes d" "commit_votes c \<subseteq> commit_votes d"
    unfolding advances_def by blast
  ultimately show "\<exists>c. map_of (bitsets u) pp = Some c \<and> prepare_votes b \<subseteq> prepare_votes c \<and> commit_votes b \<subseteq> commit_votes c"
    by auto
qed (use assms in \<open>auto simp: advances_def\<close>)

lemma map_of_setData: "map_of (data (setData k d s)) j = (if j = k then Some d else map_of (data s) j)"
  by (simp add: setData_def gomap_simps)

lemma advances_setData_new: "map_of (data s) k = None \<Longrightarrow> advances s (setData k d s)"
  by (auto simp: advances_def setData_def gomap_simps)

lemma advances_setData_View:
  "map_of (data s) (View n r) = Some (SView v) \<Longrightarrow> v \<le> w \<Longrightarrow> advances s (setData (View n r) (SView w) s)"
  by (auto simp: advances_def setData_def gomap_simps permanent_def)

lemma advances_getBitset:
  assumes "getBitset sz pp s = (b, t)" "prepare_votes b \<subseteq> prepare_votes c" "commit_votes b \<subseteq> commit_votes c"
  shows "advances s (putBitset pp c t)"
  using assms by (auto simp: advances_def getBitset_def putBitset_def Let_def gomap_simps split: option.splits)

lemma advances_frame:
  "advances s (t\<lparr>timeouts := tms\<rparr>) = advances s t" "advances s (t\<lparr>out := os\<rparr>) = advances s t"
  by (simp_all add: advances_def)

lemma advances_final:
  "map_of (final s) nr = None \<Longrightarrow> advances s t \<Longrightarrow> advances s (t\<lparr>final := mput nr h (final s)\<rparr>)"
  by (auto simp: advances_def gomap_simps)

lemma getView_View: "getView n r s = Ok (v, t) \<Longrightarrow> map_of (data t) (View n r) = Some (SView v)"
  by (auto simp: getView_def setData_def gomap_simps split: option.splits sval.splits)

lemma advances_getView: "getView n r s = Ok (v, t) \<Longrightarrow> advances s t"
  by (auto simp: getView_def advances_setData_new split: option.splits sval.splits)

lemma votes_setPrepare:
  "setPrepare b v = Ok c \<Longrightarrow> prepare_votes c = insert (unat v) (prepare_votes b) \<and> commit_votes c = commit_votes b"
  by (simp add: prep.votes_mark setPrepare_frame)

lemma votes_setCommit:
  "setCommit b v = Ok c \<Longrightarrow> commit_votes c = insert (unat v) (commit_votes b) \<and> prepare_votes c = prepare_votes b"
  by (simp add: comm.votes_mark setCommit_frame)

lemma putBitset_twice: "putBitset pp c (putBitset pp b s) = putBitset pp c s"
  by (simp add: putBitset_def)

text \<open>One lemma per handler.\<close>

lemma advances_PrePrepare:
  assumes "on_PrePrepare g s sender receiver v m = Ok (g1, s1, r)"
  shows "advances s s1"
  using assms
proof (cases rule: on_PrePrepare_cases)
  case (accepted b t b1 b2)
  let ?u = "putBitset m b2 t"
  from accepted(4,5) have "advances s ?u"
    by (intro advances_getBitset [OF accepted(3)]) (auto dest!: votes_setPrepare)
  moreover have "data ?u = data s"
    using getBitset_frame [OF accepted(3)] by (simp add: putBitset_def)
  then have "advances ?u s1"
    unfolding accepted(7) using accepted(2) by (intro advances_setData_new) simp
  ultimately show ?thesis by (rule advances_trans)
qed simp

lemma advances_Prepare:
  assumes "on_Prepare g s receiver v h n rd sn w = Ok (g1, s1, r)"
  shows "advances s s1"
  using assms
proof (cases rule: on_Prepare_cases)
  case (counted b t b1)
  then show ?thesis using advances_getBitset [OF counted(2)] votes_setPrepare [OF counted(3)] by auto
next
  case (prepared b t b1 b2)
  let ?u = "putBitset (Pre h n rd w) b2 t"
  have "advances s ?u"
    using votes_setPrepare [OF prepared(3)] votes_setCommit [OF prepared(6)]
    by (intro advances_getBitset [OF prepared(2)]) auto
  moreover have "advances ?u s1"
    unfolding prepared(8) by (auto simp: Let_def putBitset_twice mhas_def intro: advances_setData_new)
  ultimately show ?thesis by (rule advances_trans)
qed simp

lemma advances_Commit:
  assumes "on_Commit g s v h n rd sn w = Ok (g1, s1, r)"
  shows "advances s s1"
  using assms
proof (cases rule: on_Commit_cases)
  case (counted b t b1)
  then show ?thesis using advances_getBitset [OF counted(2)] votes_setCommit [OF counted(3)] by auto
next
  case (decided b t b1)
  then show ?thesis
    using advances_getBitset [OF decided(2)] votes_setCommit [OF decided(3)]
    by (auto intro!: advances_final)
qed simp

lemma advances_ViewChange:
  assumes "on_ViewChange g s receiver v h n rd sn w = Ok (g1, s1, r)"
    and v: "map_of (data s) (View n rd) = Some (SView v)"
  shows "advances s s1"
  using assms(1)
proof (cases rule: on_ViewChange_cases)
  case (tallied a g0 s0 vcs)
  have s0: "advances s s0 \<and> map_of (data s0) (View n rd) = Some (SView v)"
    using tallied(3) v by (auto intro: advances_setData_new simp: map_of_setData)
  with tallied(1,5) show ?thesis
    by (blast intro: advances_trans advances_setData_View)
qed simp

lemma advances_NewView:
  assumes "on_NewView g s origin v h n rd sn w = Ok (g1, s1, r)"
    and v: "map_of (data s) (View n rd) = Some (SView v)"
  shows "advances s s1"
  using assms(1)
proof (cases rule: on_NewView_cases)
  case (entered tms)
  let ?u = "(setData (View n rd) (SView w) s)\<lparr>timeouts := tms\<rparr>"
  from entered(1) v have "advances s ?u" by (simp add: advances_frame advances_setData_View)
  moreover have "advances ?u s1"
    unfolding entered(5) using entered(2) by (intro advances_setData_new) (simp add: setData_def gomap_simps)
  ultimately show ?thesis by (rule advances_trans)
qed simp

lemma processMessage_advances:
  assumes "processMessage g s sender receiver origin msg = Ok (g1, s1, r)"
  shows "advances s s1"
  using assms
proof (cases rule: processMessage_cases)
  case (pre_prepare m v s0)
  then show ?thesis using advances_getView advances_PrePrepare advances_trans by blast
next
  case (prepare h n rd sn w v s0)
  then show ?thesis using advances_getView advances_Prepare advances_trans by blast
next
  case (commit h n rd sn w v s0)
  then show ?thesis using advances_getView advances_Commit advances_trans by blast
next
  case (view_change h n rd sn w v s0)
  show ?thesis
    using view_change(2) advances_ViewChange [OF view_change(3) getView_View [OF view_change(2)]]
    by (rule advances_trans [OF advances_getView])
next
  case (new_view h n rd sn w v s0)
  show ?thesis
    using new_view(2) advances_NewView [OF new_view(3) getView_View [OF new_view(2)]]
    by (rule advances_trans [OF advances_getView])
qed simp

interpretation adv: interp_rel "\<lambda>c d. advances (snd c) (snd d)"
  by unfold_locales (auto intro: advances_trans processMessage_advances)


section \<open>Quorums behind commits and decisions\<close>

text \<open>What a state claims is backed by the votes it holds: a prepared hash by a quorum of
  prepares, a final hash by a quorum of commits, for the same block and some view.\<close>

definition justified :: "nat \<Rightarrow> state \<Rightarrow> bool" where
  "justified q s \<longleftrightarrow>
     (\<forall>n r h. map_of (final s) (n, r) = Some h \<longrightarrow>
        (\<exists>w b. map_of (bitsets s) (Pre h n r w) = Some b \<and> q \<le> card (commit_votes b))) \<and>
     (\<forall>n r w h. map_of (data s) (Prepared n r w) = Some (SHash h) \<longrightarrow>
        (\<exists>b. map_of (bitsets s) (Pre h n r w) = Some b \<and> q \<le> card (prepare_votes b)))"

lemma advances_bitset:
  assumes "advances s t" "map_of (bitsets s) pp = Some b"
  obtains c where "map_of (bitsets t) pp = Some c" "card (prepare_votes b) \<le> card (prepare_votes c)"
    "card (commit_votes b) \<le> card (commit_votes c)"
  using assms unfolding advances_def by (meson card_mono prep.finite_votes comm.finite_votes)

text \<open>An advancing state stays justified if what it newly claims is.\<close>

lemma justified_advances:
  assumes adv: "advances s t" and old: "justified q s"
    and fin: "\<And>n r h. map_of (final t) (n, r) = Some h \<Longrightarrow> map_of (final s) (n, r) = None \<Longrightarrow>
        \<exists>w b. map_of (bitsets t) (Pre h n r w) = Some b \<and> q \<le> card (commit_votes b)"
    and prp: "\<And>n r w h. map_of (data t) (Prepared n r w) = Some (SHash h) \<Longrightarrow> map_of (data s) (Prepared n r w) = None \<Longrightarrow>
        \<exists>b. map_of (bitsets t) (Pre h n r w) = Some b \<and> q \<le> card (prepare_votes b)"
  shows "justified q t"
  unfolding justified_def
proof (intro conjI allI impI)
  fix n r h
  assume t: "map_of (final t) (n, r) = Some h"
  show "\<exists>w b. map_of (bitsets t) (Pre h n r w) = Some b \<and> q \<le> card (commit_votes b)"
  proof (cases "map_of (final s) (n, r)")
    case (Some h')
    with adv t have "h' = h" unfolding advances_def by fastforce
    with old Some obtain w b where "map_of (bitsets s) (Pre h n r w) = Some b" "q \<le> card (commit_votes b)"
      unfolding justified_def by blast
    with adv show ?thesis by (meson advances_bitset le_trans)
  qed (use fin t in blast)
next
  fix n r w h
  assume t: "map_of (data t) (Prepared n r w) = Some (SHash h)"
  show "\<exists>b. map_of (bitsets t) (Pre h n r w) = Some b \<and> q \<le> card (prepare_votes b)"
  proof (cases "map_of (data s) (Prepared n r w)")
    case (Some d)
    moreover have "permanent (Prepared n r w)" by (simp add: permanent_def)
    ultimately have "d = SHash h" using adv t unfolding advances_def by fastforce
    with old Some obtain b where "map_of (bitsets s) (Pre h n r w) = Some b" "q \<le> card (prepare_votes b)"
      unfolding justified_def by blast
    with adv show ?thesis by (meson advances_bitset le_trans)
  qed (use prp t in blast)
qed

lemma justified_same:
  assumes "advances s t" "justified q s" "final t = final s"
    and "\<And>n r w. map_of (data t) (Prepared n r w) = map_of (data s) (Prepared n r w)"
  shows "justified q t"
  by (rule justified_advances [OF assms(1,2)]) (simp_all add: assms(3,4))

lemma map_of_putBitset: "map_of (bitsets (putBitset pp b s)) qq = (if qq = pp then Some b else map_of (bitsets s) qq)"
  by (simp add: putBitset_def gomap_simps)

lemma putBitset_frame [simp]:
  "data (putBitset pp b s) = data s" "final (putBitset pp b s) = final s" "bitsets (setData k d s) = bitsets s"
  "final (setData k d s) = final s"
  by (simp_all add: putBitset_def setData_def)

lemma justified_frame:
  "justified q (setData (View n r) d s) = justified q s"
  "justified q (setData (ViewChanged n r w) d s) = justified q s"
  "justified q (setData (HNV n r w) d s) = justified q s"
  "justified q (setData (PrePrepared n r w) d s) = justified q s"
  "justified q (s\<lparr>timeouts := tms\<rparr>) = justified q s" "justified q (s\<lparr>out := ms\<rparr>) = justified q s"
  "justified q (s\<lparr>delay := dl\<rparr>) = justified q s" "justified q (s\<lparr>stimeout := tv\<rparr>) = justified q s"
  by (simp_all add: justified_def map_of_setData)

lemma getView_frame:
  "getView n r s = Ok (v, t) \<Longrightarrow> final t = final s \<and> bitsets t = bitsets s \<and>
     map_of (data t) (Prepared a b c) = map_of (data s) (Prepared a b c)"
  by (auto simp: getView_def map_of_setData split: option.splits sval.splits)

lemma justified_Prepare:
  assumes "on_Prepare g s receiver v h n rd sn w = Ok (g1, s1, r)" "justified (quorum2f1 g) s"
  shows "justified (quorum2f1 g) s1"
  using assms(1)
proof (cases rule: on_Prepare_cases)
  case (counted b t b1)
  show ?thesis
    by (rule justified_same [OF advances_Prepare [OF assms(1)] assms(2)])
      (use getBitset_frame [OF counted(2)] counted(5) in simp_all)
next
  case (prepared b t b1 b2)
  have fr: "data t = data s" "final t = final s" using getBitset_frame [OF prepared(2)] by simp_all
  have bs: "map_of (bitsets s1) (Pre h n rd w) = Some b2"
    unfolding prepared(8) by (simp add: Let_def map_of_putBitset)
  have q: "quorum2f1 g \<le> card (prepare_votes b2)"
    using prepared(4) votes_setCommit [OF prepared(6)] by (simp add: prep.count_votes)
  show ?thesis
  proof (rule justified_advances [OF advances_Prepare [OF assms(1)] assms(2)])
    fix n' r' w' h'
    assume "map_of (data s1) (Prepared n' r' w') = Some (SHash h')" "map_of (data s) (Prepared n' r' w') = None"
    then have "n' = n" "r' = rd" "w' = w" "h' = h"
      unfolding prepared(8) by (auto simp: Let_def map_of_setData fr split: if_splits)
    with bs q show "\<exists>b. map_of (bitsets s1) (Pre h' n' r' w') = Some b \<and> quorum2f1 g \<le> card (prepare_votes b)"
      by blast
  qed (simp add: prepared(8) Let_def fr split: if_splits)
qed (use assms(2) in simp)

lemma justified_Commit:
  assumes "on_Commit g s v h n rd sn w = Ok (g1, s1, r)" "justified (quorum2f1 g) s"
  shows "justified (quorum2f1 g) s1"
  using assms(1)
proof (cases rule: on_Commit_cases)
  case (counted b t b1)
  show ?thesis
    by (rule justified_same [OF advances_Commit [OF assms(1)] assms(2)])
      (use getBitset_frame [OF counted(2)] counted(5) in simp_all)
next
  case (decided b t b1)
  have fr: "data t = data s" using getBitset_frame [OF decided(2)] by simp
  show ?thesis
  proof (rule justified_advances [OF advances_Commit [OF assms(1)] assms(2)])
    fix n' r' h'
    assume "map_of (final s1) (n', r') = Some h'" "map_of (final s) (n', r') = None"
    then have "n' = n" "r' = rd" "h' = h" unfolding decided(7) by (auto simp: gomap_simps split: if_splits)
    moreover have "map_of (bitsets s1) (Pre h n rd w) = Some b1" "quorum2f1 g \<le> card (commit_votes b1)"
      using decided(4) unfolding decided(7) by (simp_all add: map_of_putBitset comm.count_votes)
    ultimately show "\<exists>w b. map_of (bitsets s1) (Pre h' n' r' w) = Some b \<and> quorum2f1 g \<le> card (commit_votes b)"
      by blast
  qed (simp add: decided(7) fr)
qed (use assms(2) in simp)

lemma processMessage_justified:
  assumes "processMessage g s sender receiver origin msg = Ok (g1, s1, r)" "justified (quorum2f1 g) s"
  shows "justified (quorum2f1 g) s1"
proof -
  have view: "justified (quorum2f1 g) s0" if "getView n rd s = Ok (v, s0)" for n rd v s0
    by (rule justified_same [OF advances_getView [OF that] assms(2)]) (use getView_frame [OF that] in simp_all)
  from assms(1) show ?thesis
  proof (cases rule: processMessage_cases)
    case (pre_prepare m v s0)
    from pre_prepare(3) show ?thesis
    proof (cases rule: on_PrePrepare_cases)
      case (accepted b t b1 b2)
      show ?thesis
        by (rule justified_same [OF advances_PrePrepare [OF pre_prepare(3)] view [OF pre_prepare(2)]])
          (use getBitset_frame [OF accepted(3)] accepted(7) in \<open>simp_all add: map_of_setData\<close>)
    qed (use view pre_prepare(2) in simp)
  next
    case (prepare h n rd sn w v s0)
    then show ?thesis using justified_Prepare view by blast
  next
    case (commit h n rd sn w v s0)
    then show ?thesis using justified_Commit view by blast
  next
    case (view_change h n rd sn w v s0)
    from view_change(3) show ?thesis
      by (cases rule: on_ViewChange_cases) (use view [OF view_change(2)] in \<open>auto simp: justified_frame\<close>)
  next
    case (new_view h n rd sn w v s0)
    from new_view(3) show ?thesis
      by (cases rule: on_NewView_cases) (use view [OF new_view(2)] in \<open>auto simp: justified_frame\<close>)
  qed (use assms(2) in simp)
qed


section \<open>From one message to the whole graph\<close>

text \<open>Delivery only removes states, and leaves configuration and heap alone.\<close>

definition prunes :: "graph \<Rightarrow> graph \<Rightarrow> bool" where
  "prunes g h \<longleftrightarrow> same_config g h \<and> map_of (statess h) \<subseteq>\<^sub>m map_of (statess g) \<and> vcsHeap h = vcsHeap g"

lemma prunes_refl [simp]: "prunes g g"
  by (simp add: prunes_def same_config_def)

lemma prunes_trans: "prunes g h \<Longrightarrow> prunes h k \<Longrightarrow> prunes g k"
  by (auto simp: prunes_def same_config_def intro: map_le_trans)

lemma statess_fold_drop: "map_of (statess (fold drop_info infos g)) \<subseteq>\<^sub>m map_of (statess g)"
proof -
  have one: "map_of (statess (fold (\<lambda>b g. g\<lparr>maxs := mdel b (maxs g), statess := mdel b (statess g)\<rparr>) bs g))
      \<subseteq>\<^sub>m map_of (statess g)" for bs and g :: graph
  proof (induction bs arbitrary: g)
    case (Cons b bs)
    let ?g = "g\<lparr>maxs := mdel b (maxs g), statess := mdel b (statess g)\<rparr>"
    have "map_of (statess ?g) \<subseteq>\<^sub>m map_of (statess g)" by (auto simp: gomap_simps map_le_def)
    moreover note Cons.IH [of ?g]
    ultimately show ?case unfolding fold_simps by (blast intro: map_le_trans)
  qed simp
  show ?thesis
  proof (induction infos arbitrary: g)
    case (Cons i infos)
    have "map_of (statess (drop_info i g)) \<subseteq>\<^sub>m map_of (statess g)" unfolding drop_info_def by (rule one)
    moreover note Cons.IH [of "drop_info i g"]
    ultimately show ?case unfolding fold_simps by (blast intro: map_le_trans)
  qed simp
qed

lemma close_round_prunes: "prunes g (close_round round hashes g)"
proof -
  have "map_of (statess (close_round round hashes g)) \<subseteq>\<^sub>m map_of (statess g)"
    using statess_fold_drop [of "takeWhile (\<lambda>info. \<not> round < bi_max info) (blocks g)" "g\<lparr>resolved := mdel round (resolved g)\<rparr>"]
    by (simp add: close_round_def Let_def)
  then show ?thesis by (simp add: prunes_def same_config_def)
qed

lemma deliverRound_prunes: "deliverRound round hashes g = Ok h \<Longrightarrow> prunes g h"
proof (induction round hashes g rule: deliverRound.induct)
  case (1 round hashes g)
  from "1.prems" show ?case
  proof (cases rule: deliverRound_cases)
    case last
    then show ?thesis by (simp add: close_round_prunes)
  next
    case 2: (next_round hs)
    show ?thesis
      using close_round_prunes "1.IH" [OF 2(1) refl 2(2,3,4)] by (rule prunes_trans)
  qed
qed

lemma deliver_prunes:
  assumes "deliver node round hash g = Ok h"
  shows "prunes g h"
  using assms
proof (cases rule: deliver_cases)
  case (recorded hashes)
  then show ?thesis by (simp add: prunes_def same_config_def)
next
  case (completed hashes)
  have "prunes (g\<lparr>resolved := mput round hashes (resolved g)\<rparr>) h"
    using completed(4) by (rule deliverRound_prunes)
  then show ?thesis by (simp add: prunes_def same_config_def)
qed simp

lemma processMessage_config:
  assumes "processMessage g s sender receiver origin msg = Ok (g1, s1, r)"
  shows "same_config g g1 \<and> map_of (statess g1) \<subseteq>\<^sub>m map_of (statess g) \<and> length (vcsHeap g) \<le> length (vcsHeap g1)"
  using assms
proof (cases rule: processMessage_cases)
  case (commit h n rd sn w v s0)
  from commit(3) show ?thesis
    by (cases rule: on_Commit_cases) (auto simp: same_config_def prunes_def dest!: deliver_prunes)
next
  case (view_change h n rd sn w v s0)
  from view_change(3) show ?thesis
    by (cases rule: on_ViewChange_cases) (auto simp: same_config_def)
qed (auto elim!: on_PrePrepare_cases on_Prepare_cases on_NewView_cases simp: same_config_def)

definition evolves :: "graph \<times> state \<Rightarrow> graph \<times> state \<Rightarrow> bool" where
  "evolves c d \<longleftrightarrow> same_config (fst c) (fst d) \<and> map_of (statess (fst d)) \<subseteq>\<^sub>m map_of (statess (fst c)) \<and>
     (justified (quorum2f1 (fst c)) (snd c) \<longrightarrow> justified (quorum2f1 (fst c)) (snd d))"

interpretation evo: interp_rel evolves
proof unfold_locales
  show "evolves c c" for c by (simp add: evolves_def same_config_def)
  show "evolves c d \<Longrightarrow> evolves d e \<Longrightarrow> evolves c e" for c d e
    by (auto simp: evolves_def same_config_def intro: map_le_trans)
  show "processMessage g s sender receiver origin msg = Ok (g1, s1, r) \<Longrightarrow> evolves (g, s) (g1, s1)"
    for g s sender receiver origin msg g1 s1 r
    using processMessage_config processMessage_justified by (simp add: evolves_def)
qed

lemma justified_clone: "(\<And>s. so = Some s \<Longrightarrow> justified q s) \<Longrightarrow> justified q (clone so minround)"
proof (cases so)
  case (Some s)
  assume "\<And>s. so = Some s \<Longrightarrow> justified q s"
  with Some have s: "justified q s" by simp
  show ?thesis
    unfolding Some justified_def clone_def
    using s by (simp add: justified_def map_of_clone_bitsets gomap_simps del: clone_bitset_id)
qed (simp add: clone_def justified_def fresh_state_def)

lemma on_timeout_justified:
  "on_timeout node tm (s, ms) = Ok (t, ns) \<Longrightarrow> justified q s \<Longrightarrow> justified q t"
  by (auto simp: on_timeout_def Let_def outcome_simps justified_frame split: if_splits)

definition all_justified :: "graph \<Rightarrow> bool" where
  "all_justified g \<longleftrightarrow> (\<forall>b s. map_of (statess g) b = Some s \<longrightarrow> justified (quorum2f1 g) s)"

lemma findOrCreateState_justified: "all_justified g \<Longrightarrow> justified (quorum2f1 g) (findOrCreateState g e)"
  unfolding findOrCreateState_def all_justified_def
  by (auto intro: justified_clone) (simp add: justified_def fresh_state_def)

lemma process_justified:
  assumes "process ntry g = Ok g1" "all_justified g"
  shows "all_justified g1"
  using assms(1)
proof (rule process_cases, goal_cases)
  case (1 s3 s4 out1 g5 s5 p5 replies g6 s6 p6 outs)
  have "justified (quorum2f1 g) s3"
    using 1(2) findOrCreateState_justified [OF assms(2), of ntry] by (auto simp: justified_frame)
  then have s4: "justified (quorum2f1 g) (fst (s4, out1))"
    using on_timeout_justified
    by (intro ofold_invariant [where P = "\<lambda>c. justified (quorum2f1 g) (fst c)", OF 1(1)]) auto
  have e1: "evolves (g, s4) (g5, s5)" using 1(3) by (rule evo.T_processMessages)
  have e2: "evolves (g5, s5) (g6, s6)" using 1(4) by (rule evo.T_process_deps)
  have e: "evolves (g, s4) (g6, s6)" using e1 e2 by (rule evo.T_trans)
  then have q: "quorum2f1 g6 = quorum2f1 g" "map_of (statess g6) \<subseteq>\<^sub>m map_of (statess g)" "justified (quorum2f1 g) s6"
    using s4 by (simp_all add: evolves_def same_config_def)
  show ?case
    unfolding all_justified_def
  proof (intro allI impI)
    fix b s
    assume "map_of (statess g1) b = Some s"
    with 1(5) have "s = s6\<lparr>out := outs\<rparr> \<or> map_of (statess g6) b = Some s"
      by (auto simp: gomap_simps split: if_splits)
    then show "justified (quorum2f1 g1) s"
    proof
      assume "map_of (statess g6) b = Some s"
      with q(2) have "map_of (statess g) b = Some s" by (metis domI map_le_def)
      with assms(2) show ?thesis using 1(5) q(1) by (simp add: all_justified_def)
    qed (use 1(5) q in \<open>simp add: justified_frame\<close>)
  qed
qed

lemma dep_max_frame: "\<exists>ms. fst (fold (dep_max round) deps (g, mx)) = g\<lparr>maxs := ms\<rparr>"
proof (induction deps arbitrary: g mx)
  case Nil
  show ?case by (rule exI [of _ "maxs g"]) simp
next
  case (Cons dep deps)
  have "fst (dep_max round dep (g, mx)) = g\<lparr>maxs := maxs (fst (dep_max round dep (g, mx)))\<rparr>"
    by (simp add: dep_max_def Let_def case_prod_unfold)
  then obtain ms my where "dep_max round dep (g, mx) = (g\<lparr>maxs := ms\<rparr>, my)" by (metis prod.collapse)
  then show ?case using Cons.IH [of "g\<lparr>maxs := ms\<rparr>" my] by simp
qed

lemma register_block_frame: "\<exists>ms bs. register_block bg g = g\<lparr>maxs := ms, blocks := bs\<rparr>"
proof -
  obtain g1 mx where f: "fold (dep_max (ground g)) (bg_Deps bg) (g, Round (bg_Block bg)) = (g1, mx)"
    by fastforce
  with dep_max_frame [of "ground g" "bg_Deps bg" g] obtain ms where "g1 = g\<lparr>maxs := ms\<rparr>" by (metis fst_conv)
  then show ?thesis
    unfolding register_block_def Let_def f case_prod_unfold by (intro exI) simp
qed

lemma interpret_block_justified:
  assumes "interpret_block bg g = Ok h" "all_justified g"
  shows "all_justified h"
proof (rule ofold_invariant [where P = all_justified, OF assms(1) [unfolded interpret_block_def]])
  show "all_justified (register_block bg g)"
    using register_block_frame [of bg g] assms(2) by (auto simp: all_justified_def)
qed (rule process_justified)


section \<open>Bounded replies\<close>

lemma process_all_rank:
  "ofold (process_one sender receiver origin) msgs acc = Ok acc1 \<Longrightarrow>
     sum_list (map message_rank (pm_outs acc1)) \<le> sum_list (map message_rank (pm_outs acc)) + 4 * length msgs"
proof (induction msgs arbitrary: acc)
  case (Cons msg msgs)
  from Cons.prems obtain acc2 where a: "process_one sender receiver origin msg acc = Ok acc2"
    and l: "ofold (process_one sender receiver origin) msgs acc2 = Ok acc1"
    by (auto simp: outcome_simps)
  from a obtain ms where "pm_outs acc2 = pm_outs acc @ ms" "sum_list (map message_rank ms) < message_rank msg"
    by (rule process_one_outs)
  moreover have "message_rank msg \<le> 5" by (cases msg) simp_all
  ultimately show ?case using Cons.IH [OF l] by simp
qed simp

lemma pm_loop_length:
  "pm_loop sender receiver origin i acc = Ok acc1 \<Longrightarrow> i \<le> length (pm_outs acc) \<Longrightarrow>
     length (pm_outs acc1) \<le> i + pending_rank i acc"
proof (induction sender receiver origin i acc rule: pm_loop.induct)
  case (1 sender receiver origin i acc)
  show ?case
  proof (cases "i < length (pm_outs acc)")
    case True
    with "1.prems"(1) obtain acc2 where
      a: "process_one sender receiver origin (pm_outs acc ! i) acc = Ok acc2"
      and l: "pm_loop sender receiver origin (Suc i) acc2 = Ok acc1"
      by (subst (asm) pm_loop.simps) (auto simp: outcome_simps)
    from a obtain ms where "pm_outs acc2 = pm_outs acc @ ms" by (rule process_one_outs)
    with True have "length (pm_outs acc1) \<le> Suc i + pending_rank (Suc i) acc2"
      by (intro "1.IH" [OF True a l]) simp
    with pending_rank_step [OF a True] show ?thesis by simp
  next
    case False
    with "1.prems" have "acc1 = acc" "i = length (pm_outs acc)" by (subst (asm) pm_loop.simps, simp)+
    then show ?thesis by simp
  qed
qed

lemma processMessages_length:
  assumes "processMessages g s p sender receiver origin msgs = Ok (g1, s1, p1, replies)"
  shows "length replies \<le> 4 * length msgs"
proof -
  from assms obtain acc where a: "ofold (process_one sender receiver origin) msgs (g, s, p, []) = Ok acc"
    and l: "pm_loop sender receiver origin 0 acc = Ok (g1, s1, p1, replies)"
    by (auto simp: processMessages_def outcome_simps)
  have "length replies \<le> pending_rank 0 acc" using pm_loop_length [OF l] by (simp add: pm_outs_def)
  also have "\<dots> \<le> 4 * length msgs"
    using process_all_rank [OF a] by (simp add: pending_rank_def pm_outs_def)
  finally show ?thesis .
qed

definition demo_batch :: "pm_acc may_panic" where
  "demo_batch = processMessages (New demo_cfg) fresh_state [] 0 0 (demo_block 7 1)
     [ViewChange [9] 0 6 0 1, PrePrepare (Pre [7] 0 5 0)]"

lemma demo_batch_ok:
  "map_option (\<lambda>(g, s, p, ms). (ms, final s)) (ok_val demo_batch) =
     Some ([NewView [9] 0 6 0 1, Prepare [7] 0 5 0 0, PrePrepare (Pre [9] 0 6 1), Commit [7] 0 5 0 0,
            Prepare [9] 0 6 0 1, Commit [9] 0 6 0 1], [((0, 5), [7]), ((0, 6), [9])])"
  by code_simp

lemma demo_batch_result: "\<exists>g s p ms. demo_batch = Ok (g, s, p, ms) \<and> length ms = 6"
  using demo_batch_ok unfolding ok_val_map_Some by fastforce

definition demo_seen :: state where
  "demo_seen = fresh_state\<lparr>final := [((0, 5), [8])], data := [(View 0 6, SView 1), (PrePrepared 0 6 1, SMsg (Pre [4] 0 6 1))]\<rparr>"

definition demo_late :: "pm_acc may_panic" where
  "demo_late = processMessages (New demo_cfg) demo_seen [] 0 0 (demo_block 7 1)
     [ViewChange [9] 0 6 0 1, PrePrepare (Pre [7] 0 5 0)]"

lemma demo_late_ok:
  "map_option (\<lambda>(g, s, p, ms). final s) (ok_val demo_late) = Some [((0, 5), [8])]"
  by code_simp

lemma demo_late_result: "\<exists>g s p ms. demo_late = Ok (g, s, p, ms)"
  using demo_late_ok unfolding ok_val_map_Some by fastforce

lemma demo_run_states:
  "map_option (\<lambda>h. map_option final (map_of (statess h) (demo_block 3 2))) (ok_val demo_run) = Some (Some [((0, 2), [3]), ((0, 1), [7])])"
  by code_simp

lemma demo_run_final: "\<exists>h s. demo_run = Ok h \<and> map_of (statess h) (demo_block 3 2) = Some s \<and> map_of (final s) (0, 2) = Some [3]"
  using demo_run_states unfolding ok_val_map_Some by fastforce

section \<open>Properties\<close>

text \<open>Interpreting a batch of messages, with all the replies they trigger, ends with at
  most four replies per message given (a view change leads to a new view, a pre-prepare, a
  prepare and a commit); the work list the code appends to while it walks it does not run away.\<close>

theorem replies_bounded:
  assumes "processMessages g s processed sender receiver origin msgs = Ok (g1, s1, processed1, replies)"
  shows "length replies \<le> 4 * length msgs"
  using assms by (rule processMessages_length)

theorem replies_bounded_witness: "\<exists>g s p ms. demo_batch = Ok (g, s, p, ms) \<and> length ms = 6 \<and> length ms \<le> 4 * 2"
proof -
  obtain g s p ms where "demo_batch = Ok (g, s, p, ms)" "length ms = 6" using demo_batch_result by auto
  with replies_bounded [of "New demo_cfg" fresh_state "[]" 0 0 "demo_block 7 1"
      "[ViewChange [9] 0 6 0 1, PrePrepare (Pre [7] 0 5 0)]"]
  show ?thesis by (auto simp: demo_batch_def)
qed

text \<open>\<^bold>\<open>C18\<close>: the state of a block only moves forward while messages are interpreted. A final
  hash, an accepted pre-prepare and a prepared hash are never replaced, the view of a block never
  goes back, and no vote that was counted is lost.\<close>

theorem interpreting_only_advances:
  assumes "processMessages g s processed sender receiver origin msgs = Ok (g1, s1, processed1, replies)"
  shows "(map_of (final s) nr = Some h \<longrightarrow> map_of (final s1) nr = Some h) \<and>
     (map_of (data s) (PrePrepared n r w) = Some d \<longrightarrow> map_of (data s1) (PrePrepared n r w) = Some d) \<and>
     (map_of (data s) (Prepared n r w) = Some e \<longrightarrow> map_of (data s1) (Prepared n r w) = Some e) \<and>
     (map_of (data s) (View n r) = Some (SView v) \<longrightarrow>
        (\<exists>v1. map_of (data s1) (View n r) = Some (SView v1) \<and> v \<le> v1)) \<and>
     (map_of (bitsets s) pp = Some b \<longrightarrow>
        (\<exists>c. map_of (bitsets s1) pp = Some c \<and> prepare_votes b \<subseteq> prepare_votes c \<and> commit_votes b \<subseteq> commit_votes c))"
proof -
  have a: "advances s s1" using adv.T_processMessages [OF assms] by simp
  have "permanent (PrePrepared n r w)" "permanent (Prepared n r w)" by (simp_all add: permanent_def)
  with a show ?thesis unfolding advances_def by blast
qed

theorem interpreting_only_advances_witness:
  "\<exists>g s p ms. demo_late = Ok (g, s, p, ms) \<and> map_of (final s) (0, 5) = Some [8] \<and>
     map_of (data s) (PrePrepared 0 6 1) = Some (SMsg (Pre [4] 0 6 1))"
proof -
  obtain g s p ms where l: "demo_late = Ok (g, s, p, ms)" using demo_late_result by auto
  have "map_of (final demo_seen) (0, 5) = Some [8]"
    "map_of (data demo_seen) (PrePrepared 0 6 1) = Some (SMsg (Pre [4] 0 6 1))"
    by (simp_all add: demo_seen_def)
  with interpreting_only_advances [OF l [unfolded demo_late_def], of "(0, 5)" "[8]" 0 6 1 "SMsg (Pre [4] 0 6 1)"]
  have "map_of (final s) (0, 5) = Some [8]" "map_of (data s) (PrePrepared 0 6 1) = Some (SMsg (Pre [4] 0 6 1))"
    by simp_all
  with l show ?thesis by auto
qed

text \<open>\<^bold>\<open>C1\<close>: no block is decided without a quorum. In every state of every run of a new graph, a
  final hash for a node and round comes with a counter, for this very hash and some view, that
  holds the commits of at least \<open>2f + 1\<close> different nodes, and a prepared hash with one that holds
  as many prepares.\<close>

theorem decisions_have_quorums:
  assumes "ofold interpret_block bgs (New cfg) = Ok h" and "map_of (statess h) b = Some s"
  shows "(map_of (final s) (n, r) = Some hash \<longrightarrow>
       (\<exists>w c. map_of (bitsets s) (Pre hash n r w) = Some c \<and> quorum2f1 h \<le> commitCount c)) \<and>
     (map_of (data s) (Prepared n r v) = Some (SHash hash) \<longrightarrow>
       (\<exists>c. map_of (bitsets s) (Pre hash n r v) = Some c \<and> quorum2f1 h \<le> prepareCount c))"
proof -
  have "all_justified h"
    by (rule ofold_invariant [where P = all_justified, OF assms(1)])
      (simp_all add: all_justified_def interpret_block_justified [unfolded all_justified_def])
  with assms(2) have "justified (quorum2f1 h) s" by (simp add: all_justified_def)
  then show ?thesis by (simp add: justified_def comm.count_votes prep.count_votes)
qed

theorem decisions_have_quorums_witness:
  "\<exists>h s. demo_run = Ok h \<and> map_of (statess h) (demo_block 3 2) = Some s \<and>
     (\<exists>w c. map_of (bitsets s) (Pre [3] 0 2 w) = Some c \<and> quorum2f1 h \<le> commitCount c)"
proof -
  obtain h s where h: "demo_run = Ok h" "map_of (statess h) (demo_block 3 2) = Some s" "map_of (final s) (0, 2) = Some [3]"
    using demo_run_final by auto
  from decisions_have_quorums [OF h(1) [unfolded demo_run_def] h(2), of 0 2 "[3]"] h
  show ?thesis by auto
qed

text \<open>\<^bold>\<open>C20\<close>: when a shard has \<open>3f + 1\<close> nodes, two prepare quorums of the graph, whatever they
  voted for, have at least \<open>f + 1\<close> nodes in common, hence a correct one when at most \<open>f\<close> are
  faulty.\<close>

theorem prepare_quorums_intersect:
  assumes "length (Nodes cfg) = 3 * f + 1"
    and "prepare_votes a \<subseteq> unat ` set (Nodes cfg)" and "prepare_votes b \<subseteq> unat ` set (Nodes cfg)"
    and "prepareCount a = quorum2f1 (New cfg)" and "prepareCount b = quorum2f1 (New cfg)"
  shows "quorumf1 (New cfg) \<le> card (prepare_votes a \<inter> prepare_votes b)"
proof -
  have "card (unat ` set (Nodes cfg)) \<le> 3 * f + 1"
    using card_image_le [of "set (Nodes cfg)" unat] card_length [of "Nodes cfg"] assms(1) by simp
  moreover have "2 * quorum2f1 (New cfg) \<le> card (prepare_votes a \<inter> prepare_votes b) + card (unat ` set (Nodes cfg))"
    using assms by (intro prep.quorums_overlap) simp_all
  ultimately show ?thesis using assms(1) by simp
qed

definition votes_of :: "u64 \<Rightarrow> bitset" where
  "votes_of w = \<lparr>commits = [0], prepares = [w]\<rparr>"

lemma votes_of_members:
  "prepare_votes (votes_of 7) = {0, 1, 2}" "prepare_votes (votes_of 14) = {1, 2, 3}"
  by code_simp+

theorem prepare_quorums_intersect_witness:
  "prepareCount (votes_of 7) = 3 \<and> prepareCount (votes_of 14) = 3 \<and>
   2 \<le> card (prepare_votes (votes_of 7) \<inter> prepare_votes (votes_of 14))"
proof -
  let ?cfg = "\<lparr>LastInterpreted = 0, Nodes = [0, 1, 2, 3], SelfID = 0, TotalNodes = 4\<rparr>"
  have c: "prepareCount (votes_of 7) = 3" "prepareCount (votes_of 14) = 3" by code_simp+
  with prepare_quorums_intersect [of ?cfg 1 "votes_of 7" "votes_of 14"] show ?thesis
    by (simp add: votes_of_members)
qed


text \<open>The size of the shard is not checked anywhere, and with other sizes than \<open>3f + 1\<close> the
  overlap is smaller: with six nodes two quorums can be disjoint.\<close>

lemma six_node_quorums_disjoint:
  "length (Nodes cfg) = 6 \<Longrightarrow> quorum2f1 (New cfg) = prepareCount (votes_of 7) \<and>
     quorum2f1 (New cfg) = prepareCount (votes_of 56) \<and>
     prepare_votes (votes_of 7) \<inter> prepare_votes (votes_of 56) = {}"
proof -
  have "prepareCount (votes_of 7) = 3" "prepareCount (votes_of 56) = 3" "prepare_votes (votes_of 56) = {3, 4, 5}"
    by code_simp+
  then show "length (Nodes cfg) = 6 \<Longrightarrow> ?thesis" by (simp add: votes_of_members)
qed

end
