(* ===== verification/BmSafety.thy ===== *)
theory BmSafety
  imports BmProtocol
begin

text \<open>
  Dynamic typing of the interpreter state. The code keeps values of five types in one map and
  asserts the type when it reads; \<open>safe\<close> is a Hoare triple for calls that may panic, and the
  lemmas below carry the typing invariant through every operation of the interpreter. Only an
  index out of range and a fatal log are left as ways to stop.
\<close>

section \<open>Triples\<close>

definition benign :: "reason \<Rightarrow> bool" where
  "benign r \<longleftrightarrow> r = IndexOutOfRange \<or> r = LogFatal"

fun safe :: "('a \<Rightarrow> bool) \<Rightarrow> 'a may_panic \<Rightarrow> bool" where
  "safe P (Ok x) = P x"
| "safe P (Err e) = False"
| "safe P (Panic r) = benign r"

named_theorems safe_intros \<open>introduction of triples\<close>

lemma safe_obind: "safe P m \<Longrightarrow> (\<And>x. P x \<Longrightarrow> safe Q (f x)) \<Longrightarrow> safe Q (obind m f)"
  by (cases m) auto

lemma safe_mono: "safe P m \<Longrightarrow> (\<And>x. P x \<Longrightarrow> Q x) \<Longrightarrow> safe Q m"
  by (cases m) auto

lemma safe_ofold:
  "P s \<Longrightarrow> (\<And>x s. x \<in> set xs \<Longrightarrow> P s \<Longrightarrow> safe P (f x s)) \<Longrightarrow> safe P (ofold f xs s)"
proof (induction xs arbitrary: s)
  case (Cons x xs)
  then have "safe P (f x s)" by simp
  then show ?case
    by (simp, rule safe_obind) (use Cons in simp)
qed simp

lemma safe_iff: "safe P m \<longleftrightarrow> (\<forall>x. m = Ok x \<longrightarrow> P x) \<and> (\<forall>r. m = Panic r \<longrightarrow> benign r) \<and> (\<forall>e. m \<noteq> Err e)"
  by (cases m) auto

section \<open>The typing invariant\<close>

definition refs_ok :: "nat \<Rightarrow> state \<Rightarrow> bool" where
  "refs_ok n s \<longleftrightarrow> (\<forall>k a. map_of (data s) k = Some (SVcs a) \<longrightarrow> a < n)"

definition typed :: "graph \<Rightarrow> state \<Rightarrow> bool" where
  "typed g s \<longleftrightarrow> state_ok (nodeCount g) s \<and> refs_ok (length (vcsHeap g)) s"

definition graph_typed :: "graph \<Rightarrow> bool" where
  "graph_typed g \<longleftrightarrow> (\<forall>b s. map_of (statess g) b = Some s \<longrightarrow> typed g s)"

text \<open>How one step may change the graph: states are only dropped, the heap only grows.\<close>

definition grows :: "graph \<Rightarrow> graph \<Rightarrow> bool" where
  "grows g h \<longleftrightarrow> same_config g h \<and> map_of (statess h) \<subseteq>\<^sub>m map_of (statess g) \<and>
     length (vcsHeap g) \<le> length (vcsHeap h)"

lemma grows_refl [simp]: "grows g g"
  by (simp add: grows_def same_config_def)

lemma grows_trans: "grows g h \<Longrightarrow> grows h k \<Longrightarrow> grows g k"
  by (auto simp: grows_def same_config_def intro: map_le_trans)

lemma typed_grows: "grows g h \<Longrightarrow> typed g s \<Longrightarrow> typed h s"
  unfolding grows_def same_config_def typed_def refs_ok_def by fastforce

lemma graph_typed_grows: "grows g h \<Longrightarrow> graph_typed g \<Longrightarrow> graph_typed h"
  unfolding graph_typed_def by (metis domI grows_def map_le_def typed_grows)

lemma prunes_grows: "prunes g h \<Longrightarrow> grows g h"
  by (simp add: prunes_def grows_def)

lemma typed_setData: "typed g s \<Longrightarrow> sval_ok k d \<Longrightarrow> (\<And>a. d \<noteq> SVcs a) \<Longrightarrow> typed g (setData k d s)"
  by (auto simp: typed_def refs_ok_def map_of_setData intro: state_ok_setData split: if_splits)

lemma typed_putBitset: "typed g s \<Longrightarrow> bitset_ok (nodeCount g) b \<Longrightarrow> typed g (putBitset pp b s)"
  by (auto simp: typed_def refs_ok_def intro: state_ok_putBitset)

lemma typed_getBitset:
  "typed g s \<Longrightarrow> getBitset (nodeCount g) pp s = (b, t) \<Longrightarrow> typed g t \<and> bitset_ok (nodeCount g) b"
  using getBitset_frame [of "nodeCount g" pp s b t] state_ok_getBitset [of "nodeCount g" pp s b t]
  by (auto simp: typed_def refs_ok_def)

lemma typed_frame:
  "typed g (s\<lparr>out := ms\<rparr>) = typed g s" "typed g (s\<lparr>stimeout := tv\<rparr>) = typed g s"
  "mwf tms \<Longrightarrow> typed g s \<Longrightarrow> typed g (s\<lparr>timeouts := tms\<rparr>)" "mwf dl \<Longrightarrow> typed g s \<Longrightarrow> typed g (s\<lparr>delay := dl\<rparr>)"
  "mwf fs \<Longrightarrow> typed g s \<Longrightarrow> typed g (s\<lparr>final := fs\<rparr>)"
  by (simp_all add: typed_def state_ok_def refs_ok_def)

lemma typed_data: "typed g s \<Longrightarrow> map_of (data s) k = Some d \<Longrightarrow> sval_ok k d"
  by (simp add: typed_def state_ok_def)

lemma typed_mwf: "typed g s \<Longrightarrow> mwf (timeouts s) \<and> mwf (delay s) \<and> mwf (final s)"
  by (simp add: typed_def state_ok_def)

section \<open>Vote counters\<close>

lemma safe_setPrepare [safe_intros]: "bitset_ok n b \<Longrightarrow> safe (bitset_ok n) (setPrepare b v)"
  using prep.mark_defined [of v b] prep.mark_overflow [of v b] bitset_ok_setPrepare [of b v _ n]
  by (cases "unat v < prepare_capacity b") (auto simp: benign_def)

lemma safe_setCommit [safe_intros]: "bitset_ok n b \<Longrightarrow> safe (bitset_ok n) (setCommit b v)"
  using comm.mark_defined [of v b] comm.mark_overflow [of v b] bitset_ok_setCommit [of b v _ n]
  by (cases "unat v < commit_capacity b") (auto simp: benign_def)

lemma safe_hasCommit [safe_intros]: "safe (\<lambda>_. True) (hasCommit b v)"
  using comm.has_votes [of v b] comm.has_overflow [of v b]
  by (cases "unat v < commit_capacity b") (auto simp: benign_def)

section \<open>Delivery\<close>

lemma safe_deliverRound: "safe (\<lambda>_. True) (deliverRound round hashes g)"
proof (induction round hashes g rule: deliverRound.induct)
  case (1 round hashes g)
  show ?case
  proof (cases "blocks g = []")
    case True
    then show ?thesis by (simp add: deliverRound.simps benign_def)
  next
    case False
    note ih = "1.IH" [OF False refl]
    show ?thesis
    proof (cases "map_of (resolved (close_round round hashes g)) (round + 1)")
      case None
      with False show ?thesis by (subst deliverRound.simps) (simp add: Let_def)
    next
      case (Some hs)
      with False ih [OF Some] show ?thesis
        by (subst deliverRound.simps) (simp add: Let_def del: close_round_simps)
    qed
  qed
qed

lemma safe_deliver [safe_intros]: "safe (grows g) (deliver node round hash g)"
proof -
  have "safe (\<lambda>_. True) (deliver node round hash g)"
    unfolding deliver_def Let_def
    by (auto simp: add_decision_def benign_def safe_deliverRound split: option.splits)
  then show ?thesis
    using deliver_prunes [of node round hash g] prunes_grows by (auto simp: safe_iff)
qed

section \<open>Messages\<close>

abbreviation reply_ok :: "graph \<Rightarrow> reply \<Rightarrow> bool" where
  "reply_ok g c \<equiv> grows g (fst c) \<and> typed (fst c) (fst (snd c))"

lemma safe_getView: "typed g s \<Longrightarrow> safe (\<lambda>(v, t). typed g t) (getView n r s)"
  using typed_data [of g s "View n r"]
  by (auto simp: getView_def typed_setData split: option.splits sval.splits)

lemma safe_PrePrepare:
  assumes "typed g s"
  shows "safe (reply_ok g) (on_PrePrepare g s sender receiver v m)"
proof -
  obtain b t where bt: "getBitset (nodeCount g) m s = (b, t)" by fastforce
  with assms have t: "typed g t" "bitset_ok (nodeCount g) b" using typed_getBitset by blast+
  show ?thesis
    unfolding on_PrePrepare_def Let_def bt prod.case
    by (auto simp: assms typed_setData typed_putBitset t intro!: safe_obind [OF safe_setPrepare [of "nodeCount g"]])
qed

lemma safe_Prepare:
  assumes "typed g s"
  shows "safe (reply_ok g) (on_Prepare g s receiver v h n rd sn w)"
proof -
  obtain b t where bt: "getBitset (nodeCount g) (Pre h n rd w) s = (b, t)" by fastforce
  with assms have t: "typed g t" "bitset_ok (nodeCount g) b" using typed_getBitset by blast+
  show ?thesis
    unfolding on_Prepare_def Let_def bt prod.case
    by (auto simp: assms typed_setData typed_putBitset t
        intro!: safe_obind [OF safe_setPrepare [of "nodeCount g"]] safe_obind [OF safe_hasCommit]
          safe_obind [OF safe_setCommit [of "nodeCount g"]])
qed

lemma safe_Commit:
  assumes "typed g s"
  shows "safe (reply_ok g) (on_Commit g s v h n rd sn w)"
proof -
  obtain b t where bt: "getBitset (nodeCount g) (Pre h n rd w) s = (b, t)" by fastforce
  with assms have t: "typed g t" "bitset_ok (nodeCount g) b" using typed_getBitset by blast+
  have fin: "typed g1 ((putBitset pp c t)\<lparr>final := mput k d (final t)\<rparr>)"
    if "grows g g1" "bitset_ok (nodeCount g) c" for g1 pp c k d
    using typed_grows [OF that(1) typed_putBitset [OF t(1) that(2)]] typed_mwf [OF t(1)]
    by (intro typed_frame) simp_all
  show ?thesis
    unfolding on_Commit_def Let_def bt prod.case
    by (auto simp: assms typed_putBitset t fin
        intro!: safe_obind [OF safe_setCommit [of "nodeCount g"]] safe_obind [OF safe_deliver])
qed

lemma safe_vcs_hash: "safe (\<lambda>_. True) (vcs_hash vcs)"
  unfolding vcs_hash_def by (rule safe_ofold) (auto simp: benign_def)

lemma grows_heap: "length (vcsHeap g) \<le> length v \<Longrightarrow> grows g (g\<lparr>vcsHeap := v\<rparr>)"
  by (simp add: grows_def same_config_def)

lemma safe_ViewChange:
  assumes "typed g s"
  shows "safe (reply_ok g) (on_ViewChange g s receiver v h n rd sn w)"
proof (cases "w < v")
  case True
  with assms show ?thesis by (simp add: on_ViewChange_def)
next
  case False
  let ?key = "ViewChanged n rd v"
  have fin: "safe (reply_ok g) (if length vcs \<noteq> q then Ok (gg, ss, None)
      else obind (vcs_hash vcs) (\<lambda>x. Ok (gg, setData (View n rd) (SView w) ss, Some (NewView x n rd receiver w))))"
    if "grows g gg" "typed gg ss" for vcs q gg ss
    using that by (auto intro!: safe_obind [OF safe_vcs_hash] simp: typed_setData)
  show ?thesis
  proof (cases "map_of (data s) ?key")
    case None
    let ?g = "g\<lparr>vcsHeap := vcsHeap g @ [[(sn, h)]]\<rparr>"
    have "typed ?g (setData ?key (SVcs (length (vcsHeap g))) s)"
      using typed_grows [OF grows_heap assms, of "vcsHeap g @ [[(sn, h)]]"]
      by (auto simp: typed_def refs_ok_def map_of_setData intro!: state_ok_setData split: if_splits)
    moreover have "grows g ?g" by (rule grows_heap) simp
    ultimately show ?thesis
      using False None fin [where gg = ?g and ss = "setData ?key (SVcs (length (vcsHeap g))) s" and
          vcs = "[(sn, h)]" and q = "quorum2f1 g"]
      by (simp add: on_ViewChange_def Let_def split: if_splits)
  next
    case (Some d)
    with typed_data [OF assms] obtain a where a: "d = SVcs a" by fastforce
    let ?vcs = "mput sn h (vcsHeap g ! a)"
    let ?g = "g\<lparr>vcsHeap := (vcsHeap g)[a := ?vcs]\<rparr>"
    have "grows g ?g" by (rule grows_heap) simp
    then show ?thesis
      using False Some a typed_grows [of g ?g s] assms fin [where gg = ?g and ss = s and vcs = ?vcs and q = "quorum2f1 g"]
      by (simp add: on_ViewChange_def Let_def split: if_splits)
  qed
qed

lemma safe_NewView:
  assumes "typed g s"
  shows "safe (reply_ok g) (on_NewView g s origin v h n rd sn w)"
proof -
  have "typed g (setData (HNV n rd w) (SBool True) ((setData (View n rd) (SView w) s)\<lparr>timeouts := mput tv x (timeouts s)\<rparr>))" for tv x
    using assms typed_mwf [OF assms] by (intro typed_setData typed_frame) auto
  then show ?thesis
    using assms by (simp add: on_NewView_def Let_def setData_def)
qed

lemma safe_processMessage:
  assumes "typed g s"
  shows "safe (reply_ok g) (processMessage g s sender receiver origin msg)"
  unfolding processMessage_def Let_def case_prod_unfold
  by (auto simp: assms split: message.splits intro!: safe_obind [OF safe_getView [OF assms]]
      safe_PrePrepare safe_Prepare safe_Commit safe_ViewChange safe_NewView)


section \<open>Batches and blocks\<close>

abbreviation acc_ok :: "graph \<Rightarrow> pm_acc \<Rightarrow> bool" where
  "acc_ok g c \<equiv> grows g (fst c) \<and> typed (fst c) (fst (snd c))"

lemma safe_process_one:
  assumes "acc_ok g c"
  shows "safe (acc_ok g) (process_one sender receiver origin msg c)"
proof -
  obtain g0 s0 p ms where c: "c = (g0, s0, p, ms)" by (cases c) auto
  with assms have a: "grows g g0" "typed g0 s0" by simp_all
  show ?thesis
    unfolding process_one_def c prod.case
    using a by (auto intro!: safe_obind [OF safe_processMessage [OF a(2)]] intro: grows_trans)
qed

lemma safe_pm_loop: "acc_ok g c \<Longrightarrow> safe (acc_ok g) (pm_loop sender receiver origin i c)"
proof (induction sender receiver origin i c rule: pm_loop.induct)
  case (1 sender receiver origin i c)
  show ?case
  proof (cases "i < length (pm_outs c)")
    case True
    have "safe (\<lambda>d. process_one sender receiver origin (pm_outs c ! i) c = Ok d \<and> acc_ok g d)
        (process_one sender receiver origin (pm_outs c ! i) c)"
      using safe_process_one [OF "1.prems"] by (auto simp: safe_iff)
    then have "safe (acc_ok g) (obind (process_one sender receiver origin (pm_outs c ! i) c) (pm_loop sender receiver origin (Suc i)))"
      by (rule safe_obind) (use "1.IH" True in blast)
    with True show ?thesis by (subst pm_loop.simps) simp
  next
    case False
    with "1.prems" show ?thesis by (subst pm_loop.simps) simp
  qed
qed

lemma safe_processMessages:
  assumes "grows g g0" "typed g0 s"
  shows "safe (acc_ok g) (processMessages g0 s p sender receiver origin msgs)"
  unfolding processMessages_def
  by (rule safe_obind [OF safe_ofold [where P = "acc_ok g"]])
    (use assms in \<open>simp_all add: safe_process_one safe_pm_loop\<close>)

lemma safe_process_dep:
  assumes "acc_ok g c"
  shows "safe (acc_ok g) (process_dep node origin dep c)"
proof -
  obtain g0 s0 p ms where c: "c = (g0, s0, p, ms)" by (cases c) auto
  with assms have a: "grows g g0" "typed g0 s0" by simp_all
  show ?thesis
    unfolding process_dep_def c prod.case
    by (rule safe_obind [OF safe_processMessages [OF a]]) auto
qed

lemma safe_on_timeout:
  assumes "typed g (fst c)"
  shows "safe (\<lambda>d. typed g (fst d)) (on_timeout node tm c)"
proof -
  obtain s ms where c: "c = (s, ms)" by (cases c) auto
  with assms have s: "typed g s" by simp
  show ?thesis
    using typed_data [OF s, of "View (tm_node tm) (tm_round tm)"]
      typed_data [OF s, of "Prepared (tm_node tm) (tm_round tm) (tm_view tm)"]
    unfolding c on_timeout_def prod.case Let_def
    by (auto simp: s typed_setData split: option.splits sval.splits)
qed

lemma typed_append_timeouts: "typed g s \<Longrightarrow> typed g (fold (append_timeout tr) tms s)"
proof (induction tms arbitrary: s)
  case (Cons tm tms)
  have "typed g (append_timeout tr tm s)"
    using Cons.prems typed_mwf [OF Cons.prems] unfolding append_timeout_def by (intro typed_frame) auto
  with Cons.IH show ?case by simp
qed simp

lemma mwf_fold_mput: "mwf m \<Longrightarrow> mwf (fold (\<lambda>x m. mput (f x) (h x) m) xs m)"
  by (induction xs arbitrary: m) simp_all

lemma typed_findOrCreateState: "graph_typed g \<Longrightarrow> typed g (findOrCreateState g e)"
proof -
  assume g: "graph_typed g"
  have fresh: "typed g fresh_state" by (simp add: typed_def state_ok_fresh refs_ok_def) (simp add: fresh_state_def)
  show ?thesis
  proof (cases "map_of (statess g) (e_prev e)")
    case None
    with fresh show ?thesis by (simp add: findOrCreateState_def clone_def)
  next
    case (Some s)
    with g have s: "typed g s" by (simp add: graph_typed_def)
    have "refs_ok (length (vcsHeap g)) (clone (Some s) m)" for m
      using s by (simp add: typed_def refs_ok_def clone_def gomap_simps del: clone_bitset_id)
    moreover have "state_ok (nodeCount g) (clone (Some s) m)" for m
      using s by (intro state_ok_clone) (simp add: typed_def)
    ultimately have "typed g (clone (Some s) m)" for m by (simp add: typed_def)
    with Some fresh show ?thesis by (simp add: findOrCreateState_def)
  qed
qed

lemma safe_process:
  assumes "graph_typed g"
  shows "safe graph_typed (process ntry g)"
proof -
  define s2 where "s2 = (findOrCreateState g ntry)\<lparr>delay :=
      fold (\<lambda>dep d. mput (Node dep) (diff (Round (e_block ntry)) (Round dep) * 10) d) (e_deps ntry)
        (delay (findOrCreateState g ntry))\<rparr>"
  define s3 where "s3 = fold (\<lambda>xnode. append_timeout (Round (e_block ntry) + block_timeout g s2)
      \<lparr>tm_node = xnode, tm_round = Round (e_block ntry), tm_view = 0\<rparr>) (nodes g) (s2\<lparr>stimeout := block_timeout g s2\<rparr>)"
  have "typed g s2"
    unfolding s2_def using typed_findOrCreateState [OF assms, of ntry] typed_mwf
    by (intro typed_frame mwf_fold_mput) blast+
  then have s3: "typed g s3"
    using typed_append_timeouts [of g "s2\<lparr>stimeout := block_timeout g s2\<rparr>" _
        "map (\<lambda>xnode. \<lparr>tm_node = xnode, tm_round = Round (e_block ntry), tm_view = 0\<rparr>) (nodes g)"]
    unfolding s3_def by (simp add: fold_map comp_def typed_frame)
  have last: "graph_typed (g6\<lparr>statess := mput b (s6\<lparr>out := ms\<rparr>) (statess g6)\<rparr>)"
    if "grows g g6" "typed g6 s6" for g6 s6 b ms
  proof -
    have *: "typed (g6\<lparr>statess := st\<rparr>) s = typed g6 s" for st s by (simp add: typed_def)
    show ?thesis
      using graph_typed_grows [OF that(1) assms] that(2)
      by (auto simp: graph_typed_def * gomap_simps typed_frame split: if_splits)
  qed
  show ?thesis
    unfolding process_def Let_def s2_def [symmetric] s3_def [symmetric]
  proof (rule safe_obind [OF safe_ofold [where P = "\<lambda>d. typed g (fst d)"]], goal_cases)
    case (3 c)
    obtain s4 out1 where c: "c = (s4, out1)" by (cases c) auto
    with 3 have s4: "typed g s4" by simp
    show ?case
      unfolding c prod.case
    proof (rule safe_obind [OF safe_processMessages [OF grows_refl s4]], goal_cases)
      case (1 d)
      obtain g5 s5 p5 r5 where d: "d = (g5, s5, p5, r5)" by (cases d) auto
      with 1 have "acc_ok g (g5, s5, p5, out1 @ r5)" by simp
      then show ?case
        unfolding d prod.case
        by (intro safe_obind [OF safe_ofold [where P = "acc_ok g"]])
          (auto simp: safe_process_dep last)
    qed
  qed (use s3 safe_on_timeout in simp_all)
qed

lemma safe_interpret_block:
  assumes "graph_typed g"
  shows "safe graph_typed (interpret_block bg g)"
proof -
  obtain ms bs where r: "register_block bg g = g\<lparr>maxs := ms, blocks := bs\<rparr>"
    using register_block_frame by blast
  have "typed (g\<lparr>maxs := ms, blocks := bs\<rparr>) s = typed g s" for s by (simp add: typed_def)
  with assms r have "graph_typed (register_block bg g)" by (simp add: graph_typed_def)
  then show ?thesis unfolding interpret_block_def by (rule safe_ofold) (rule safe_process)
qed

text \<open>The guards on \<open>states.Final\<close> never fire: no state of any run has such a key, since a decision
  is stored in \<open>final\<close> and nothing ever writes the key.\<close>

lemma final_key_never_set:
  assumes "ofold interpret_block bgs (New cfg) = Ok h" "map_of (statess h) b = Some s"
  shows "map_of (data s) (Final n r) = None"
proof -
  have "graph_typed (New cfg)" by (simp add: graph_typed_def)
  then have "safe graph_typed (ofold interpret_block bgs (New cfg))"
    by (rule safe_ofold) (rule safe_interpret_block)
  with assms have "state_ok (nodeCount h) s" by (simp add: graph_typed_def typed_def)
  then show ?thesis by (rule state_ok_no_Final)
qed

section \<open>Properties\<close>

text \<open>\<^bold>\<open>C19\<close>: the type assertions of the interpreter hold. Whatever blocks a new graph is given, if
  the interpreter stops at all it is by an index out of range (a node id without a bit in the
  counters, or a round completed while no block is held) or by one of its two fatal logs; no
  type assertion fails. Messages of a kind outside the enumeration and nil messages are excluded by
  the type of messages, so that this is about the values that the interpreter keeps per key.\<close>

theorem interpreter_type_safe:
  "case ofold interpret_block bgs (New cfg) of
     Ok h \<Rightarrow> True
   | Err e \<Rightarrow> False
   | Panic r \<Rightarrow> r = IndexOutOfRange \<or> r = LogFatal"
proof -
  have "graph_typed (New cfg)" by (simp add: graph_typed_def)
  then have "safe graph_typed (ofold interpret_block bgs (New cfg))"
    by (rule safe_ofold) (rule safe_interpret_block)
  then show ?thesis by (auto simp: safe_iff benign_def split: outcome.splits)
qed

end
