(* ===== verification/Badger.thy ===== *)
theory Badger
  imports Prelude
begin

text \<open>
  The contract of the key-value database the stores are written against (Badger transactions).
  A database is a finite map from keys to values; the body of a transaction works on a copy that
  sees its own writes, and \<open>Update\<close> keeps the copy only when the body returns no error. Keys must
  not be empty. Size limits, disk errors and conflicts between concurrent transactions are
  outside of this contract. Iteration visits the keys in bytewise order.
\<close>

datatype badger_err = ErrEmptyKey | ErrKeyNotFound

type_synonym db = "(bytes, bytes) gomap"

definition txn_Get :: "db \<Rightarrow> bytes \<Rightarrow> (badger_err, bytes) outcome" where
  "txn_Get d k = (if k = [] then Err ErrEmptyKey
     else case map_of d k of None \<Rightarrow> Err ErrKeyNotFound | Some v \<Rightarrow> Ok v)"

definition txn_Set :: "bytes \<Rightarrow> bytes \<Rightarrow> db \<Rightarrow> (badger_err, db) outcome" where
  "txn_Set k v d = (if k = [] then Err ErrEmptyKey else Ok (mput k v d))"

definition txn_Delete :: "bytes \<Rightarrow> db \<Rightarrow> (badger_err, db) outcome" where
  "txn_Delete k d = (if k = [] then Err ErrEmptyKey else Ok (mdel k d))"

text \<open>Keys from \<open>k\<close> on, in the order of an iterator.\<close>

definition iter_from :: "bytes \<Rightarrow> db \<Rightarrow> (bytes \<times> bytes) list" where
  "iter_from k d = filter (\<lambda>e. k \<le> fst e) (sort_key fst d)"

text \<open>\<open>it.ValidForPrefix\<close>.\<close>

definition has_prefix :: "bytes \<Rightarrow> bytes \<Rightarrow> bool" where
  "has_prefix p k = (take (length p) k = p)"

section \<open>What clients rely on\<close>

locale txn_store =
  fixes get :: "'d \<Rightarrow> 'k \<Rightarrow> ('e, 'v) outcome"
    and set :: "'k \<Rightarrow> 'v \<Rightarrow> 'd \<Rightarrow> ('e, 'd) outcome"
    and valid :: "'k \<Rightarrow> bool"
  assumes set_defined: "valid k \<Longrightarrow> \<exists>d'. set k v d = Ok d'"
    and get_set_same: "set k v d = Ok d' \<Longrightarrow> get d' k = Ok v"
    and get_set_other: "set k v d = Ok d' \<Longrightarrow> j \<noteq> k \<Longrightarrow> get d' j = get d j"
    and get_no_panic: "get d k \<noteq> Panic r"
begin

lemma set_all_defined: "list_all (\<lambda>kv. valid (fst kv)) kvs \<Longrightarrow> \<exists>d'. ofold (\<lambda>kv. set (fst kv) (snd kv)) kvs d = Ok d'"
proof (induction kvs arbitrary: d)
  case (Cons kv kvs)
  then obtain d1 where "set (fst kv) (snd kv) d = Ok d1" using set_defined by fastforce
  with Cons show ?case by simp
qed simp

lemma get_set_all:
  "ofold (\<lambda>kv. set (fst kv) (snd kv)) kvs d = Ok d' \<Longrightarrow> distinct (map fst kvs) \<Longrightarrow>
     get d' k = (case map_of kvs k of Some v \<Rightarrow> Ok v | None \<Rightarrow> get d k)"
proof (induction kvs arbitrary: d)
  case (Cons kv kvs)
  from Cons.prems(1) obtain d1 where d1: "set (fst kv) (snd kv) d = Ok d1"
    and r: "ofold (\<lambda>kv. set (fst kv) (snd kv)) kvs d1 = Ok d'"
    by (auto simp: outcome_simps)
  have ih: "get d' k = (case map_of kvs k of Some v \<Rightarrow> Ok v | None \<Rightarrow> get d1 k)"
    using Cons.IH [OF r] Cons.prems(2) by simp
  show ?case
  proof (cases "k = fst kv")
    case True
    with Cons.prems(2) have "map_of kvs k = None" by (simp add: map_of_eq_None_iff)
    with ih True get_set_same [OF d1] show ?thesis by (cases kv) simp
  next
    case False
    with ih get_set_other [OF d1 False] show ?thesis by (cases kv) (auto split: option.splits)
  qed
qed simp

end

interpretation badger: txn_store txn_Get txn_Set "\<lambda>k. k \<noteq> []"
  by unfold_locales (auto simp: txn_Get_def txn_Set_def gomap_simps split: option.splits if_splits)

named_theorems db_simps \<open>transactions on non-empty keys\<close>

lemma txn_Get_Cons [db_simps]:
  "txn_Get d (t # k) = (case map_of d (t # k) of None \<Rightarrow> Err ErrKeyNotFound | Some v \<Rightarrow> Ok v)"
  by (simp add: txn_Get_def)

lemma txn_Set_Cons [db_simps]: "txn_Set (t # k) v d = Ok (mput (t # k) v d)"
  by (simp add: txn_Set_def)

lemma txn_Delete_Cons [db_simps]: "txn_Delete (t # k) d = Ok (mdel (t # k) d)"
  by (simp add: txn_Delete_def)

lemma iter_from_set: "set (iter_from k d) = {e \<in> set d. k \<le> fst e}"
  by (auto simp: iter_from_def)

lemma iter_from_sorted: "sorted (map fst (iter_from k d))"
  unfolding iter_from_def by (metis sorted_filter sorted_sort_key)

lemma iter_from_distinct: "mwf d \<Longrightarrow> distinct (map fst (iter_from k d))"
proof -
  assume "mwf d"
  then have "distinct (map fst (sort_key fst d))"
    by (metis distinct_map distinct_sort set_sort)
  then show ?thesis by (simp add: iter_from_def distinct_map_filter)
qed

section \<open>Iterating over a prefix\<close>

lemma has_prefix_Nil [simp]: "has_prefix [] k"
  by (simp add: has_prefix_def)

lemma has_prefix_Cons [simp]: "has_prefix (x # p) k \<longleftrightarrow> (\<exists>k'. k = x # k' \<and> has_prefix p k')"
  by (cases k) (auto simp: has_prefix_def)

lemma prefix_le: "has_prefix p k \<Longrightarrow> p \<le> k"
proof (induction p arbitrary: k)
  case (Cons x p)
  then show ?case by (auto simp: Cons_le_Cons)
qed simp

text \<open>Between a prefix and one of its extensions there are only extensions.\<close>

lemma prefix_convex: "p \<le> k \<Longrightarrow> k \<le> k' \<Longrightarrow> has_prefix p k' \<Longrightarrow> has_prefix p k"
proof (induction p arbitrary: k k')
  case (Cons x p)
  from Cons.prems(3) obtain z where z: "k' = x # z" "has_prefix p z" by auto
  from Cons.prems(1) obtain y w where k: "k = y # w" by (cases k) auto
  from Cons.prems(1,2) z(1) k have "y = x" "p \<le> w" "w \<le> z" by (auto simp: Cons_le_Cons)
  with Cons.IH [of w z] z(2) k show ?case by simp
qed simp

lemma takeWhile_convex:
  assumes "sorted (map fst xs)" "\<forall>e \<in> set xs. p \<le> fst e"
  shows "takeWhile (\<lambda>e. has_prefix p (fst e)) xs = filter (\<lambda>e. has_prefix p (fst e)) xs"
  using assms
proof (induction xs)
  case (Cons a xs)
  show ?case
  proof (cases "has_prefix p (fst a)")
    case False
    then have "\<forall>e \<in> set xs. \<not> has_prefix p (fst e)"
      using Cons.prems prefix_convex [of p "fst a"] by auto
    then show ?thesis using False by simp
  qed (use Cons in simp)
qed simp

end
