(* ===== verification/ServiceMsg.thy ===== *)
theory ServiceMsg
  imports Prelude
begin

text \<open>
  The message every service of a node handles (\<open>service/types.pb.go\<close>). An opcode is a 32-bit
  integer whose meaning depends on the service.
\<close>

record Message =
  msg_ID :: u64
  msg_Error :: gostring
  msg_Opcode :: u32
  msg_Payload :: bytes

end
