(* ===== verification/Kv.thy ===== *)
theory Kv
  imports Badger ServiceMsg
begin

text \<open>
  \<open>kv/kv.go\<close>: the service that maps labels to the version identifier of the newest object with
  that label. Decoding a request and encoding a response are parameters; a decoded request is its
  key.
\<close>

section \<open>Operations\<close>

datatype kv_err = KvUnmarshal | KvEmptyKey | KvMarshal | KvUnknownOpcode u32 | KvBadger badger_err

abbreviation (input) Opcode_GET :: u32 where "Opcode_GET \<equiv> 1"

record ObjectEntry =
  oe_Label :: bytes
  oe_VersionID :: bytes

definition kv_Get :: "bytes \<Rightarrow> db \<Rightarrow> (kv_err, bytes) outcome" where
  "kv_Get key d = oerr KvBadger (txn_Get d key)"

definition kv_Set :: "bytes \<Rightarrow> bytes \<Rightarrow> db \<Rightarrow> (kv_err, db) outcome" where
  "kv_Set key val d = oerr KvBadger (txn_Set key val d)"

text \<open>The database is a map in memory: reading the value of an entry that an iterator meets, which may
  fail on a disk, succeeds here.\<close>

definition GetByPrefix :: "bytes \<Rightarrow> db \<Rightarrow> ObjectEntry list" where
  "GetByPrefix p d = map (\<lambda>e. \<lparr>oe_Label = fst e, oe_VersionID = snd e\<rparr>)
     (takeWhile (\<lambda>e. has_prefix p (fst e)) (iter_from p d))"

definition handleGet :: "(bytes \<Rightarrow> bytes option) \<Rightarrow> (bytes \<Rightarrow> bytes option) \<Rightarrow> Message \<Rightarrow> db \<Rightarrow> (kv_err, Message) outcome" where
  "handleGet unmarshal marshal m d =
     (case unmarshal (msg_Payload m) of
        None \<Rightarrow> Err KvUnmarshal
      | Some key \<Rightarrow>
          if key = [] then Err KvEmptyKey
          else obind (kv_Get key d) (\<lambda>val.
            case marshal val of
              None \<Rightarrow> Err KvMarshal
            | Some b \<Rightarrow> Ok \<lparr>msg_ID = msg_ID m, msg_Error = [], msg_Opcode = Opcode_GET, msg_Payload = b\<rparr>))"

definition kv_Handle :: "(bytes \<Rightarrow> bytes option) \<Rightarrow> (bytes \<Rightarrow> bytes option) \<Rightarrow> Message \<Rightarrow> db \<Rightarrow> (kv_err, Message) outcome" where
  "kv_Handle unmarshal marshal m d =
     (if msg_Opcode m = Opcode_GET then handleGet unmarshal marshal m d else Err (KvUnknownOpcode (msg_Opcode m)))"

section \<open>Laws\<close>

lemma GetByPrefix_filter:
  "GetByPrefix p d = map (\<lambda>e. \<lparr>oe_Label = fst e, oe_VersionID = snd e\<rparr>) (filter (\<lambda>e. has_prefix p (fst e)) (iter_from p d))"
  using takeWhile_convex [OF iter_from_sorted, of p d p] by (simp add: GetByPrefix_def iter_from_set)

section \<open>Property\<close>

text \<open>\<^bold>\<open>C30\<close>: a prefix query is complete and sound: although the loop stops at the first key
  without the prefix, it returns exactly the entries whose label starts with the prefix, each
  once and in the order of the labels.\<close>

theorem prefix_query_exact:
  assumes "mwf d"
  shows "(\<forall>l v. \<lparr>oe_Label = l, oe_VersionID = v\<rparr> \<in> set (GetByPrefix p d) \<longleftrightarrow> map_of d l = Some v \<and> has_prefix p l) \<and>
    sorted (map oe_Label (GetByPrefix p d)) \<and> distinct (map oe_Label (GetByPrefix p d))"
proof (intro conjI allI)
  have labels: "map oe_Label (GetByPrefix p d) = map fst (filter (\<lambda>e. has_prefix p (fst e)) (iter_from p d))"
    by (simp add: GetByPrefix_filter comp_def)
  show "sorted (map oe_Label (GetByPrefix p d))"
    unfolding labels by (rule sorted_filter) (rule iter_from_sorted)
  show "distinct (map oe_Label (GetByPrefix p d))"
    unfolding labels by (rule distinct_map_filter) (rule iter_from_distinct [OF assms])
  fix l v
  show "\<lparr>oe_Label = l, oe_VersionID = v\<rparr> \<in> set (GetByPrefix p d) \<longleftrightarrow> map_of d l = Some v \<and> has_prefix p l"
    using prefix_le [of p l] by (force simp: GetByPrefix_filter iter_from_set assms)
qed

theorem prefix_query_exact_witness:
  "GetByPrefix [1] [([1, 2], [7]), ([2], [8]), ([1], [9])] =
     [\<lparr>oe_Label = [1], oe_VersionID = [9]\<rparr>, \<lparr>oe_Label = [1, 2], oe_VersionID = [7]\<rparr>] \<and>
   sorted (map oe_Label (GetByPrefix [1] [([1, 2], [7]), ([2], [8]), ([1], [9])]))"
proof
  show "GetByPrefix [1] [([1, 2], [7]), ([2], [8]), ([1], [9])] =
     [\<lparr>oe_Label = [1], oe_VersionID = [9]\<rparr>, \<lparr>oe_Label = [1, 2], oe_VersionID = [7]\<rparr>]"
    by code_simp
  show "sorted (map oe_Label (GetByPrefix [1] [([1, 2], [7]), ([2], [8]), ([1], [9])]))"
    using prefix_query_exact [of "[([1, 2], [7]), ([2], [8]), ([1], [9])]" "[1]"] by simp
qed

end
