(* ===== verification/SbacStore.thy ===== *)
theory SbacStore
  imports Badger
begin

text \<open>
  \<open>sbac/store.go\<close>: the object store of a shard. An object is two keys, its value and a status
  byte; every operation is one database transaction. An error value stands for a rolled back
  transaction, so the caller goes on with the database it had. The second half gives the store
  an abstract specification, a partial map from version identifiers to a status, and shows that
  each operation is exactly one atomic step of it.
\<close>

section \<open>Data\<close>

abbreviation (input) ObjectStatus_ACTIVE :: byte where "ObjectStatus_ACTIVE \<equiv> 0"
abbreviation (input) ObjectStatus_INACTIVE :: byte where "ObjectStatus_INACTIVE \<equiv> 1"
abbreviation (input) ObjectStatus_LOCKED :: byte where "ObjectStatus_LOCKED \<equiv> 2"

record Object =
  VersionID :: bytes
  Value :: bytes
  Status :: byte
  Labels :: "gostring list"

datatype store_err =
    ErrTransactionAlreadyExists
  | ErrTransactionAlreadyCommitted
  | ErrObjectAlreadyExists
  | ErrObjectAlreadyInactive
  | ErrObjectCannotBeLocked
  | ErrObjectCannotBeUnlocked
  | ErrBadger badger_err

abbreviation (input) keyTypeObjectValue :: byte where "keyTypeObjectValue \<equiv> 0"
abbreviation (input) keyTypeObjectStatus :: byte where "keyTypeObjectStatus \<equiv> 1"
abbreviation (input) keyTypeCommittedTxn :: byte where "keyTypeCommittedTxn \<equiv> 2"
abbreviation (input) keyTypeSeenTxn :: byte where "keyTypeSeenTxn \<equiv> 3"
abbreviation (input) keyFinishedTxn :: byte where "keyFinishedTxn \<equiv> 4"

definition makeKey :: "byte \<Rightarrow> bytes \<Rightarrow> bytes" where
  "makeKey ty key = ty # key"

definition committedTxnKey :: "bytes \<Rightarrow> bytes" where
  "committedTxnKey key = makeKey keyTypeCommittedTxn key"

definition finishedTxnKey :: "bytes \<Rightarrow> bytes" where
  "finishedTxnKey key = makeKey keyFinishedTxn key"

definition objectKey :: "bytes \<Rightarrow> bytes" where
  "objectKey key = makeKey keyTypeObjectValue key"

definition objectStatusKey :: "bytes \<Rightarrow> bytes" where
  "objectStatusKey key = makeKey keyTypeObjectStatus key"

definition seenTxnKey :: "bytes \<Rightarrow> bytes" where
  "seenTxnKey key = makeKey keyTypeSeenTxn key"

section \<open>Operations\<close>

type_synonym 'a store_op = "(store_err, 'a) outcome"

text \<open>\<open>txn.Get\<close> followed by \<open>item.Value\<close> and an index of the first byte.\<close>

definition get_val :: "db \<Rightarrow> bytes \<Rightarrow> bytes store_op" where
  "get_val d key = oerr ErrBadger (txn_Get d key)"

definition set_val :: "bytes \<Rightarrow> bytes \<Rightarrow> db \<Rightarrow> db store_op" where
  "set_val key v d = oerr ErrBadger (txn_Set key v d)"

definition first_byte :: "bytes \<Rightarrow> byte store_op" where
  "first_byte val = (case val of [] \<Rightarrow> Panic IndexOutOfRange | c # _ \<Rightarrow> Ok c)"

definition get_byte :: "db \<Rightarrow> bytes \<Rightarrow> byte store_op" where
  "get_byte d key = obind (get_val d key) first_byte"

definition setObjectInactive :: "bytes \<Rightarrow> db \<Rightarrow> db store_op" where
  "setObjectInactive objkey d =
     (let key = objectStatusKey objkey in
      obind (get_byte d key) (\<lambda>st.
        if st = ObjectStatus_INACTIVE then Err ErrObjectAlreadyInactive
        else set_val key [ObjectStatus_INACTIVE] d))"

definition setObjectsInactive :: "bytes list \<Rightarrow> db \<Rightarrow> db store_op" where
  "setObjectsInactive objkeys d = ofold setObjectInactive objkeys d"

definition createObject :: "Object \<Rightarrow> db \<Rightarrow> db store_op" where
  "createObject obj d =
     (let objkey = objectKey (VersionID obj) in
      if is_ok (txn_Get d objkey) then Err ErrObjectAlreadyExists
      else obind (set_val objkey (Value obj) d) (\<lambda>d1.
        let objstatuskey = objectStatusKey (VersionID obj) in
        if is_ok (txn_Get d1 objstatuskey) then Err ErrObjectAlreadyExists
        else set_val objstatuskey [ObjectStatus_ACTIVE] d1))"

definition createObjects :: "Object list \<Rightarrow> db \<Rightarrow> db store_op" where
  "createObjects objs d = ofold createObject objs d"

definition commitTransaction :: "bytes \<Rightarrow> db \<Rightarrow> db store_op" where
  "commitTransaction txnkey d =
     (let key = committedTxnKey txnkey in
      obind (get_byte d key) (\<lambda>b.
        if b = 1 then Err ErrTransactionAlreadyCommitted else set_val key [1] d))"

definition CommitTransaction :: "bytes \<Rightarrow> bytes list \<Rightarrow> Object list \<Rightarrow> db \<Rightarrow> db store_op" where
  "CommitTransaction txnkey inobjkeys objs d =
     obind (setObjectsInactive inobjkeys d) (\<lambda>d1.
     obind (createObjects objs d1) (\<lambda>d2. commitTransaction txnkey d2))"

definition lockObject :: "bytes \<Rightarrow> db \<Rightarrow> db store_op" where
  "lockObject objkey d =
     (let key = objectStatusKey objkey in
      obind (get_byte d key) (\<lambda>st.
        if st \<noteq> ObjectStatus_ACTIVE then Err ErrObjectCannotBeLocked
        else set_val key [ObjectStatus_LOCKED] d))"

definition LockObjects :: "bytes list \<Rightarrow> db \<Rightarrow> db store_op" where
  "LockObjects objkeys d = ofold lockObject objkeys d"

definition unlockObject :: "bytes \<Rightarrow> db \<Rightarrow> db store_op" where
  "unlockObject objkey d =
     (let key = objectStatusKey objkey in
      obind (get_byte d key) (\<lambda>st.
        if st \<noteq> ObjectStatus_LOCKED \<and> st \<noteq> ObjectStatus_ACTIVE then Err ErrObjectCannotBeUnlocked
        else set_val key [ObjectStatus_ACTIVE] d))"

definition UnlockObjects :: "bytes list \<Rightarrow> db \<Rightarrow> db store_op" where
  "UnlockObjects objkeys d = ofold unlockObject objkeys d"

definition store_AddTransaction :: "bytes \<Rightarrow> bytes \<Rightarrow> db \<Rightarrow> db store_op" where
  "store_AddTransaction txkey val d =
     (let seenkey = seenTxnKey txkey in
      if is_ok (txn_Get d seenkey) then Err ErrTransactionAlreadyExists
      else obind (set_val seenkey val d) (\<lambda>d1.
        let commitkey = committedTxnKey txkey in
        if is_ok (txn_Get d1 commitkey) then Err ErrTransactionAlreadyExists
        else set_val commitkey [0] d1))"

text \<open>An unknown transaction is not an error: the code returns a nil value and \<open>false\<close>.\<close>

definition GetTransaction :: "bytes \<Rightarrow> db \<Rightarrow> (bytes option \<times> bool) store_op" where
  "GetTransaction txkey d =
     (case txn_Get d (seenTxnKey txkey) of
        Ok val \<Rightarrow> obind (get_byte d (committedTxnKey txkey)) (\<lambda>st. Ok (Some val, st = 1))
      | _ \<Rightarrow> Ok (None, False))"

text \<open>The error of the status read is overwritten by the call on its nil item.\<close>

definition getObject :: "bytes \<Rightarrow> db \<Rightarrow> Object store_op" where
  "getObject vid d =
     obind (get_val d (objectKey vid)) (\<lambda>val.
     obind (case txn_Get d (objectStatusKey vid) of Ok raw \<Rightarrow> Ok raw | _ \<Rightarrow> Panic NilDereference) (\<lambda>raw.
     obind (first_byte raw) (\<lambda>st.
       Ok \<lparr>VersionID = vid, Value = val, Status = st, Labels = []\<rparr>)))"

definition GetObjects :: "bytes list \<Rightarrow> db \<Rightarrow> (Object list) store_op" where
  "GetObjects vids d = ofold (\<lambda>vid objects. omap (\<lambda>ob. objects @ [ob]) (getObject vid d)) vids []"

definition DeactivateObjects :: "bytes list \<Rightarrow> db \<Rightarrow> db store_op" where
  "DeactivateObjects keys d = setObjectsInactive keys d"

definition CreateObjects :: "Object list \<Rightarrow> db \<Rightarrow> db store_op" where
  "CreateObjects objs d = createObjects objs d"

text \<open>The returned object is the one the closure assigns when it succeeds.\<close>

definition CreateObject :: "bytes \<Rightarrow> bytes \<Rightarrow> db \<Rightarrow> (Object \<times> db) store_op" where
  "CreateObject vid val d =
     (let ob = \<lparr>VersionID = vid, Value = val, Status = ObjectStatus_ACTIVE, Labels = []\<rparr>
      in omap (\<lambda>d1. (ob, d1)) (createObject ob d))"

definition DeleteObjects :: "bytes list \<Rightarrow> db \<Rightarrow> db store_op" where
  "DeleteObjects objkeys d = setObjectsInactive objkeys d"

definition FinishTransaction :: "bytes \<Rightarrow> db \<Rightarrow> db store_op" where
  "FinishTransaction txnkey d = set_val (finishedTxnKey txnkey) [] d"

definition TxnFinished :: "bytes \<Rightarrow> db \<Rightarrow> bool store_op" where
  "TxnFinished txnkey d =
     (case txn_Get d (finishedTxnKey txnkey) of
        Err ErrKeyNotFound \<Rightarrow> Ok False
      | Err e \<Rightarrow> Err (ErrBadger e)
      | Ok _ \<Rightarrow> Ok True
      | Panic r \<Rightarrow> Panic r)"


section \<open>Status map and well-formed stores\<close>

named_theorems store_simps \<open>keys and single-key accesses of the store\<close>

definition status_of :: "db \<Rightarrow> bytes \<Rightarrow> byte option" where
  "status_of d vid = (case map_of d (objectStatusKey vid) of Some (c # _) \<Rightarrow> Some c | _ \<Rightarrow> None)"

text \<open>Status and commit entries hold a byte, and an object has a value iff it has a status.\<close>

definition store_wf :: "db \<Rightarrow> bool" where
  "store_wf d \<longleftrightarrow>
     (\<forall>k. map_of d (objectStatusKey k) \<noteq> Some []) \<and> (\<forall>k. map_of d (committedTxnKey k) \<noteq> Some []) \<and>
     (\<forall>k. map_of d (objectKey k) = None \<longleftrightarrow> map_of d (objectStatusKey k) = None)"

lemma key_inj [store_simps, simp]:
  "objectStatusKey a = objectStatusKey b \<longleftrightarrow> a = b" "objectKey a = objectKey b \<longleftrightarrow> a = b"
  "committedTxnKey a = committedTxnKey b \<longleftrightarrow> a = b" "seenTxnKey a = seenTxnKey b \<longleftrightarrow> a = b"
  "finishedTxnKey a = finishedTxnKey b \<longleftrightarrow> a = b"
  by (simp_all add: objectStatusKey_def objectKey_def committedTxnKey_def seenTxnKey_def finishedTxnKey_def makeKey_def)

lemma key_disjoint [store_simps, simp]:
  "objectStatusKey a \<noteq> objectKey b" "objectKey b \<noteq> objectStatusKey a"
  "objectStatusKey a \<noteq> committedTxnKey b" "committedTxnKey b \<noteq> objectStatusKey a"
  "objectStatusKey a \<noteq> seenTxnKey b" "seenTxnKey b \<noteq> objectStatusKey a"
  "objectStatusKey a \<noteq> finishedTxnKey b" "finishedTxnKey b \<noteq> objectStatusKey a"
  "objectKey a \<noteq> committedTxnKey b" "committedTxnKey b \<noteq> objectKey a"
  "objectKey a \<noteq> seenTxnKey b" "seenTxnKey b \<noteq> objectKey a"
  "objectKey a \<noteq> finishedTxnKey b" "finishedTxnKey b \<noteq> objectKey a"
  "committedTxnKey a \<noteq> seenTxnKey b" "seenTxnKey b \<noteq> committedTxnKey a"
  "committedTxnKey a \<noteq> finishedTxnKey b" "finishedTxnKey b \<noteq> committedTxnKey a"
  "seenTxnKey a \<noteq> finishedTxnKey b" "finishedTxnKey b \<noteq> seenTxnKey a"
  by (simp_all add: objectStatusKey_def objectKey_def committedTxnKey_def seenTxnKey_def finishedTxnKey_def makeKey_def)

lemma key_nonempty [simp]:
  "objectStatusKey a \<noteq> []" "objectKey a \<noteq> []" "committedTxnKey a \<noteq> []" "seenTxnKey a \<noteq> []" "finishedTxnKey a \<noteq> []"
  by (simp_all add: objectStatusKey_def objectKey_def committedTxnKey_def seenTxnKey_def finishedTxnKey_def makeKey_def)

lemma get_ok [store_simps]: "k \<noteq> [] \<Longrightarrow> is_ok (txn_Get d k) \<longleftrightarrow> map_of d k \<noteq> None"
  by (simp add: txn_Get_def split: option.splits)

lemma set_val_ok [store_simps]: "k \<noteq> [] \<Longrightarrow> set_val k v d = Ok (mput k v d)"
  by (simp add: set_val_def txn_Set_def)

lemma get_val_eq [store_simps]:
  "k \<noteq> [] \<Longrightarrow> get_val d k = (case map_of d k of None \<Rightarrow> Err (ErrBadger ErrKeyNotFound) | Some v \<Rightarrow> Ok v)"
  by (simp add: get_val_def txn_Get_def split: option.splits)

lemma get_byte_status [store_simps]:
  "store_wf d \<Longrightarrow> get_byte d (objectStatusKey k) =
     (case status_of d k of None \<Rightarrow> Err (ErrBadger ErrKeyNotFound) | Some c \<Rightarrow> Ok c)"
  unfolding store_wf_def
  by (auto simp: get_byte_def get_val_eq status_of_def first_byte_def split: option.splits list.splits)

lemma status_of_mput [store_simps]:
  "status_of (mput (objectStatusKey k) [c] d) = (status_of d)(k \<mapsto> c)"
  "status_of (mput (objectKey k) v d) = status_of d" "status_of (mput (committedTxnKey k) v d) = status_of d"
  "status_of (mput (seenTxnKey k) v d) = status_of d" "status_of (mput (finishedTxnKey k) v d) = status_of d"
  by (auto simp: status_of_def gomap_simps fun_eq_iff)

lemma status_of_None: "store_wf d \<Longrightarrow> status_of d k = None \<longleftrightarrow> map_of d (objectStatusKey k) = None"
  unfolding store_wf_def by (auto simp: status_of_def split: option.splits list.splits)

lemma store_wf_mput:
  "store_wf d \<Longrightarrow> status_of d k \<noteq> None \<Longrightarrow> store_wf (mput (objectStatusKey k) [c] d)"
  "store_wf d \<Longrightarrow> store_wf (mput (committedTxnKey k) [c] d)"
  "store_wf d \<Longrightarrow> store_wf (mput (seenTxnKey k) v d)" "store_wf d \<Longrightarrow> store_wf (mput (finishedTxnKey k) v d)"
  "store_wf d \<Longrightarrow> store_wf (mput (objectStatusKey k) [c] (mput (objectKey k) v d))"
  by (auto simp: store_wf_def status_of_def gomap_simps split: option.splits)

section \<open>Changing the status of a list of objects\<close>

text \<open>Locking, unlocking and deactivating are instances of one loop: check the status of every
  object in turn and overwrite it.\<close>

definition mark_status :: "(byte \<Rightarrow> bool) \<Rightarrow> byte \<Rightarrow> store_err \<Rightarrow> bytes \<Rightarrow> db \<Rightarrow> db store_op" where
  "mark_status P c e k d =
     obind (get_byte d (objectStatusKey k)) (\<lambda>st. if P st then set_val (objectStatusKey k) [c] d else Err e)"

lemma mark_instances:
  "lockObject = mark_status (\<lambda>st. st = ObjectStatus_ACTIVE) ObjectStatus_LOCKED ErrObjectCannotBeLocked"
  "unlockObject = mark_status (\<lambda>st. st = ObjectStatus_LOCKED \<or> st = ObjectStatus_ACTIVE) ObjectStatus_ACTIVE ErrObjectCannotBeUnlocked"
  "setObjectInactive = mark_status (\<lambda>st. st \<noteq> ObjectStatus_INACTIVE) ObjectStatus_INACTIVE ErrObjectAlreadyInactive"
  unfolding lockObject_def unlockObject_def setObjectInactive_def mark_status_def Let_def fun_eq_iff
  by (auto intro!: arg_cong2 [where f = obind])

definition holds :: "(byte \<Rightarrow> bool) \<Rightarrow> byte option \<Rightarrow> bool" where
  "holds P st = (case st of None \<Rightarrow> False | Some c \<Rightarrow> P c)"

lemma holds_Some: "holds P st \<longleftrightarrow> (\<exists>c. st = Some c \<and> P c)"
  by (simp add: holds_def split: option.splits)

definition put_status :: "byte \<Rightarrow> bytes list \<Rightarrow> db \<Rightarrow> db" where
  "put_status c ks d = fold (\<lambda>k. mput (objectStatusKey k) [c]) ks d"

lemma mark_status_eq:
  "store_wf d \<Longrightarrow> mark_status P c e k d =
     (case status_of d k of None \<Rightarrow> Err (ErrBadger ErrKeyNotFound)
      | Some st \<Rightarrow> if P st then Ok (mput (objectStatusKey k) [c] d) else Err e)"
  by (simp add: mark_status_def store_simps split: option.splits)

lemma status_put_status: "status_of (put_status c ks d) k = (if k \<in> set ks then Some c else status_of d k)"
  unfolding put_status_def by (induction ks arbitrary: d) (auto simp: store_simps)

lemma store_wf_put_status:
  "store_wf d \<Longrightarrow> (\<And>k. k \<in> set ks \<Longrightarrow> status_of d k \<noteq> None) \<Longrightarrow> store_wf (put_status c ks d)"
proof (induction ks arbitrary: d)
  case (Cons k ks)
  have "store_wf (mput (objectStatusKey k) [c] d)" using Cons.prems by (intro store_wf_mput) simp_all
  with Cons show ?case by (auto simp: put_status_def store_simps)
qed (simp add: put_status_def)

text \<open>When the new status fails the check, a second occurrence of an object is refused; when it
  passes, it is allowed.\<close>

lemma mark_all_result:
  "store_wf d \<Longrightarrow> (\<exists>e'. ofold (mark_status P c e) ks d = Err e') \<or> ofold (mark_status P c e) ks d = Ok (put_status c ks d)"
proof (induction ks arbitrary: d)
  case (Cons k ks)
  show ?case
  proof (cases "holds P (status_of d k)")
    case True
    then obtain st where st: "status_of d k = Some st" "P st" by (auto simp: holds_def split: option.splits)
    with Cons.prems have "store_wf (mput (objectStatusKey k) [c] d)" by (simp add: store_wf_mput)
    from Cons.IH [OF this] st Cons.prems show ?thesis by (simp add: mark_status_eq put_status_def)
  next
    case False
    with Cons.prems show ?thesis by (simp add: mark_status_eq holds_def split: option.splits)
  qed
qed (simp add: put_status_def)

lemma mark_all_ok:
  "store_wf d \<Longrightarrow> is_ok (ofold (mark_status P c e) ks d) \<longleftrightarrow>
     (\<forall>k \<in> set ks. holds P (status_of d k)) \<and> (P c \<or> distinct ks)"
proof (induction ks arbitrary: d)
  case (Cons k ks)
  show ?case
  proof (cases "holds P (status_of d k)")
    case True
    then obtain st where st: "status_of d k = Some st" "P st" by (auto simp: holds_def split: option.splits)
    with Cons.prems have wf: "store_wf (mput (objectStatusKey k) [c] d)" by (simp add: store_wf_mput)
    have "holds P (((status_of d)(k \<mapsto> c)) j) = (if j = k then P c else holds P (status_of d j))" for j
      by (simp add: holds_def)
    with Cons.IH [OF wf] st True Cons.prems show ?thesis
      by (simp add: mark_status_eq status_of_mput del: fun_upd_apply) (metis (full_types))
  next
    case False
    with Cons.prems show ?thesis by (simp add: mark_status_eq holds_def split: option.splits)
  qed
qed simp

lemma mark_all_cases:
  assumes "store_wf d"
  shows "ofold (mark_status P c e) ks d = Ok (put_status c ks d) \<and>
           (\<forall>k \<in> set ks. holds P (status_of d k)) \<and> (P c \<or> distinct ks) \<or>
         (\<exists>e'. ofold (mark_status P c e) ks d = Err e') \<and>
           \<not> ((\<forall>k \<in> set ks. holds P (status_of d k)) \<and> (P c \<or> distinct ks))"
  using mark_all_result [OF assms, of P c e ks] mark_all_ok [OF assms, of P c e ks] by force


section \<open>Creating objects\<close>

definition put_objects :: "Object list \<Rightarrow> db \<Rightarrow> db" where
  "put_objects objs d = fold (\<lambda>ob d. mput (objectStatusKey (VersionID ob)) [ObjectStatus_ACTIVE]
     (mput (objectKey (VersionID ob)) (Value ob) d)) objs d"

lemma createObject_eq:
  assumes "store_wf d"
  shows "createObject ob d =
     (if status_of d (VersionID ob) = None
      then Ok (mput (objectStatusKey (VersionID ob)) [ObjectStatus_ACTIVE] (mput (objectKey (VersionID ob)) (Value ob) d))
      else Err ErrObjectAlreadyExists)"
proof -
  have "map_of d (objectKey (VersionID ob)) = None \<longleftrightarrow> status_of d (VersionID ob) = None"
    "map_of d (objectStatusKey (VersionID ob)) = None \<longleftrightarrow> status_of d (VersionID ob) = None"
    using status_of_None [OF assms] assms by (simp_all add: store_wf_def)
  then show ?thesis
    by (cases "status_of d (VersionID ob)") (simp_all add: createObject_def Let_def get_ok set_val_ok gomap_simps)
qed

lemma fresh_upd: "(\<forall>k \<in> S. (m(v \<mapsto> c)) k = None) \<longleftrightarrow> v \<notin> S \<and> (\<forall>k \<in> S. m k = None)"
  by auto

lemma createObjects_cases:
  "store_wf d \<Longrightarrow>
     createObjects objs d = Ok (put_objects objs d) \<and> store_wf (put_objects objs d) \<and>
       distinct (map VersionID objs) \<and> (\<forall>k \<in> set (map VersionID objs). status_of d k = None) \<or>
     createObjects objs d = Err ErrObjectAlreadyExists \<and>
       \<not> (distinct (map VersionID objs) \<and> (\<forall>k \<in> set (map VersionID objs). status_of d k = None))"
proof (induction objs arbitrary: d)
  case (Cons ob objs)
  let ?d = "mput (objectStatusKey (VersionID ob)) [ObjectStatus_ACTIVE] (mput (objectKey (VersionID ob)) (Value ob) d)"
  show ?case
  proof (cases "status_of d (VersionID ob)")
    case None
    have wf: "store_wf ?d" using Cons.prems by (rule store_wf_mput)
    have st: "status_of ?d = (status_of d)(VersionID ob \<mapsto> ObjectStatus_ACTIVE)" by (simp add: store_simps)
    have c: "createObjects (ob # objs) d = createObjects objs ?d"
      using None Cons.prems by (simp add: createObjects_def createObject_eq)
    have p: "put_objects (ob # objs) d = put_objects objs ?d" by (simp add: put_objects_def)
    show ?thesis
      using Cons.IH [OF wf] None unfolding c p st fresh_upd by (simp only: list.map list.set distinct.simps ball_simps) blast
  next
    case (Some st)
    with Cons.prems show ?thesis by (simp add: createObjects_def createObject_eq)
  qed
qed (simp add: createObjects_def put_objects_def)

lemma status_put_objects:
  "status_of (put_objects objs d) k = (if k \<in> VersionID ` set objs then Some ObjectStatus_ACTIVE else status_of d k)"
  unfolding put_objects_def by (induction objs arbitrary: d) (auto simp: store_simps)

section \<open>The abstract object store\<close>

type_synonym ostore = "bytes \<Rightarrow> byte option"

definition spec_mark :: "(byte \<Rightarrow> bool) \<Rightarrow> byte \<Rightarrow> bytes list \<Rightarrow> ostore \<Rightarrow> ostore option" where
  "spec_mark P c ks m =
     (if (\<forall>k \<in> set ks. holds P (m k)) \<and> (P c \<or> distinct ks)
      then Some (\<lambda>k. if k \<in> set ks then Some c else m k) else None)"

definition spec_lock :: "bytes list \<Rightarrow> ostore \<Rightarrow> ostore option" where
  "spec_lock = spec_mark (\<lambda>st. st = ObjectStatus_ACTIVE) ObjectStatus_LOCKED"

definition spec_unlock :: "bytes list \<Rightarrow> ostore \<Rightarrow> ostore option" where
  "spec_unlock = spec_mark (\<lambda>st. st = ObjectStatus_LOCKED \<or> st = ObjectStatus_ACTIVE) ObjectStatus_ACTIVE"

definition spec_deactivate :: "bytes list \<Rightarrow> ostore \<Rightarrow> ostore option" where
  "spec_deactivate = spec_mark (\<lambda>st. st \<noteq> ObjectStatus_INACTIVE) ObjectStatus_INACTIVE"

definition spec_create :: "bytes list \<Rightarrow> ostore \<Rightarrow> ostore option" where
  "spec_create ks m =
     (if distinct ks \<and> (\<forall>k \<in> set ks. m k = None)
      then Some (\<lambda>k. if k \<in> set ks then Some ObjectStatus_ACTIVE else m k) else None)"

text \<open>A step of the store does what the specification does, or both refuse.\<close>

definition refines :: "('d \<Rightarrow> ostore) \<Rightarrow> ('d \<Rightarrow> bool) \<Rightarrow> (ostore \<Rightarrow> ostore option) \<Rightarrow> 'd \<Rightarrow> 'd store_op \<Rightarrow> bool" where
  "refines status good spec d r \<longleftrightarrow>
     (case r of Ok d' \<Rightarrow> good d' \<and> spec (status d) = Some (status d') | Err e \<Rightarrow> spec (status d) = None | Panic p \<Rightarrow> False)"

lemma refines_mark:
  assumes "store_wf d"
  shows "refines status_of store_wf (spec_mark P c ks) d (ofold (mark_status P c e) ks d)"
  using mark_all_cases [OF assms, of P c e ks]
proof
  assume *: "ofold (mark_status P c e) ks d = Ok (put_status c ks d) \<and>
      (\<forall>k \<in> set ks. holds P (status_of d k)) \<and> (P c \<or> distinct ks)"
  then have "store_wf (put_status c ks d)"
    by (intro store_wf_put_status [OF assms]) (auto simp: holds_Some)
  with * show ?thesis by (simp add: refines_def spec_mark_def status_put_status fun_eq_iff)
next
  assume "(\<exists>e'. ofold (mark_status P c e) ks d = Err e') \<and>
      \<not> ((\<forall>k \<in> set ks. holds P (status_of d k)) \<and> (P c \<or> distinct ks))"
  then show ?thesis unfolding refines_def spec_mark_def by auto
qed

lemma refines_create:
  assumes "store_wf d"
  shows "refines status_of store_wf (spec_create (map VersionID objs)) d (CreateObjects objs d)"
  using createObjects_cases [OF assms, of objs]
proof
  assume "createObjects objs d = Ok (put_objects objs d) \<and> store_wf (put_objects objs d) \<and>
      distinct (map VersionID objs) \<and> (\<forall>k \<in> set (map VersionID objs). status_of d k = None)"
  then show ?thesis by (simp add: refines_def CreateObjects_def spec_create_def status_put_objects fun_eq_iff)
next
  assume "createObjects objs d = Err ErrObjectAlreadyExists \<and>
      \<not> (distinct (map VersionID objs) \<and> (\<forall>k \<in> set (map VersionID objs). status_of d k = None))"
  then show ?thesis unfolding refines_def CreateObjects_def spec_create_def by simp
qed

lemma spec_mark_keeps: "spec_mark P c ks m = Some m' \<Longrightarrow> m k = Some x \<Longrightarrow> \<not> P x \<Longrightarrow> m' k = Some x"
  by (fastforce simp: spec_mark_def holds_def split: if_splits)

lemma spec_mark_refuses: "k \<in> set ks \<Longrightarrow> \<not> holds P (m k) \<Longrightarrow> spec_mark P c ks m = None"
  by (auto simp: spec_mark_def)

lemma spec_create_keeps: "spec_create ks m = Some m' \<Longrightarrow> m k = Some x \<Longrightarrow> m' k = Some x"
  by (auto simp: spec_create_def split: if_splits)

locale object_store =
  fixes status :: "'d \<Rightarrow> ostore"
    and good :: "'d \<Rightarrow> bool"
    and lock unlock deactivate :: "bytes list \<Rightarrow> 'd \<Rightarrow> 'd store_op"
    and create :: "Object list \<Rightarrow> 'd \<Rightarrow> 'd store_op"
  assumes lock_spec: "good d \<Longrightarrow> refines status good (spec_lock ks) d (lock ks d)"
    and unlock_spec: "good d \<Longrightarrow> refines status good (spec_unlock ks) d (unlock ks d)"
    and deactivate_spec: "good d \<Longrightarrow> refines status good (spec_deactivate ks) d (deactivate ks d)"
    and create_spec: "good d \<Longrightarrow> refines status good (spec_create (map VersionID objs)) d (create objs d)"
begin

lemmas specs = lock_spec unlock_spec deactivate_spec create_spec

lemma keeps_wf:
  assumes "good d"
  shows "lock ks d = Ok d1 \<Longrightarrow> good d1" "unlock ks d = Ok d1 \<Longrightarrow> good d1"
    "deactivate ks d = Ok d1 \<Longrightarrow> good d1" "create objs d = Ok d1 \<Longrightarrow> good d1"
  using assms lock_spec [of d ks] unlock_spec [of d ks] deactivate_spec [of d ks] create_spec [of d objs]
  by (auto simp: refines_def)

lemma lock_status: "good d \<Longrightarrow> lock ks d = Ok d1 \<Longrightarrow> status d1 k = (if k \<in> set ks then Some ObjectStatus_LOCKED else status d k)"
  using lock_spec [of d ks] by (auto simp: refines_def spec_lock_def spec_mark_def fun_eq_iff split: if_splits)

lemma unlock_status: "good d \<Longrightarrow> unlock ks d = Ok d1 \<Longrightarrow> status d1 k = (if k \<in> set ks then Some ObjectStatus_ACTIVE else status d k)"
  using unlock_spec [of d ks] by (auto simp: refines_def spec_unlock_def spec_mark_def fun_eq_iff split: if_splits)

lemma deactivate_status: "good d \<Longrightarrow> deactivate ks d = Ok d1 \<Longrightarrow> status d1 k = (if k \<in> set ks then Some ObjectStatus_INACTIVE else status d k)"
  using deactivate_spec [of d ks] by (auto simp: refines_def spec_deactivate_def spec_mark_def fun_eq_iff split: if_splits)

lemma create_status: "good d \<Longrightarrow> create objs d = Ok d1 \<Longrightarrow> status d1 k = (if k \<in> VersionID ` set objs then Some ObjectStatus_ACTIVE else status d k)"
  using create_spec [of d objs] by (auto simp: refines_def spec_create_def fun_eq_iff split: if_splits)

text \<open>An inactive object is inactive for good.\<close>

lemma inactive_kept:
  assumes "good d" "status d k = Some ObjectStatus_INACTIVE"
  shows "lock ks d = Ok d1 \<Longrightarrow> status d1 k = Some ObjectStatus_INACTIVE"
    "unlock ks d = Ok d1 \<Longrightarrow> status d1 k = Some ObjectStatus_INACTIVE"
    "deactivate ks d = Ok d1 \<Longrightarrow> status d1 k = Some ObjectStatus_INACTIVE"
    "create objs d = Ok d1 \<Longrightarrow> status d1 k = Some ObjectStatus_INACTIVE"
proof -
  note r = specs [OF assms(1), unfolded refines_def]
  show "lock ks d = Ok d1 \<Longrightarrow> status d1 k = Some ObjectStatus_INACTIVE"
    using r(1) [of ks] assms(2) by (auto simp: spec_lock_def elim: spec_mark_keeps)
  show "unlock ks d = Ok d1 \<Longrightarrow> status d1 k = Some ObjectStatus_INACTIVE"
    using r(2) [of ks] assms(2) by (auto simp: spec_unlock_def elim: spec_mark_keeps)
  show "deactivate ks d = Ok d1 \<Longrightarrow> status d1 k = Some ObjectStatus_INACTIVE"
    using r(3) [of ks] assms(2) by (auto simp: spec_deactivate_def elim: spec_mark_keeps)
  show "create objs d = Ok d1 \<Longrightarrow> status d1 k = Some ObjectStatus_INACTIVE"
    using r(4) [of objs] assms(2) by (auto elim: spec_create_keeps)
qed

lemma deactivate_refused:
  assumes "good d" "status d k = Some ObjectStatus_INACTIVE" "k \<in> set ks"
  shows "\<exists>e. deactivate ks d = Err e"
proof -
  have "spec_deactivate ks (status d) = None"
    unfolding spec_deactivate_def by (rule spec_mark_refuses [OF assms(3)]) (simp add: assms(2) holds_def)
  with deactivate_spec [OF assms(1), of ks] show ?thesis by (auto simp: refines_def split: outcome.splits)
qed

lemma lock_refused:
  assumes "good d" "status d k \<noteq> Some ObjectStatus_ACTIVE" "k \<in> set ks"
  shows "\<exists>e. lock ks d = Err e"
proof -
  have "spec_lock ks (status d) = None"
    unfolding spec_lock_def by (rule spec_mark_refuses [OF assms(3)]) (use assms(2) in \<open>simp add: holds_Some\<close>)
  with lock_spec [OF assms(1), of ks] show ?thesis by (auto simp: refines_def split: outcome.splits)
qed

end

interpretation ostore: object_store status_of store_wf LockObjects UnlockObjects DeactivateObjects CreateObjects
proof unfold_locales
  fix d :: db and ks :: "bytes list" and objs :: "Object list"
  assume wf: "store_wf d"
  show "refines status_of store_wf (spec_lock ks) d (LockObjects ks d)"
    unfolding spec_lock_def LockObjects_def mark_instances(1) using wf by (rule refines_mark)
  show "refines status_of store_wf (spec_unlock ks) d (UnlockObjects ks d)"
    unfolding spec_unlock_def UnlockObjects_def mark_instances(2) using wf by (rule refines_mark)
  show "refines status_of store_wf (spec_deactivate ks) d (DeactivateObjects ks d)"
    unfolding spec_deactivate_def DeactivateObjects_def setObjectsInactive_def mark_instances(3) using wf by (rule refines_mark)
  show "refines status_of store_wf (spec_create (map VersionID objs)) d (CreateObjects objs d)"
    using wf by (rule refines_create)
qed


section \<open>Histories of operations\<close>

text \<open>Every operation that writes, and a history of them in which a failed one changes nothing.\<close>

datatype store_cmd =
    CmdLock "bytes list"
  | CmdUnlock "bytes list"
  | CmdDeactivate "bytes list"
  | CmdCreate "Object list"
  | CmdCommit bytes "bytes list" "Object list"
  | CmdAdd bytes bytes
  | CmdFinish bytes

fun exec_cmd :: "store_cmd \<Rightarrow> db \<Rightarrow> db store_op" where
  "exec_cmd (CmdLock ks) d = LockObjects ks d"
| "exec_cmd (CmdUnlock ks) d = UnlockObjects ks d"
| "exec_cmd (CmdDeactivate ks) d = DeactivateObjects ks d"
| "exec_cmd (CmdCreate objs) d = CreateObjects objs d"
| "exec_cmd (CmdCommit t ks objs) d = CommitTransaction t ks objs d"
| "exec_cmd (CmdAdd t v) d = store_AddTransaction t v d"
| "exec_cmd (CmdFinish t) d = FinishTransaction t d"

definition run_cmd :: "store_cmd \<Rightarrow> db \<Rightarrow> db" where
  "run_cmd c d = (case exec_cmd c d of Ok d' \<Rightarrow> d' | _ \<Rightarrow> d)"

lemma add_effect:
  "store_AddTransaction t v d = Ok d' \<Longrightarrow> d' = mput (committedTxnKey t) [0] (mput (seenTxnKey t) v d)"
  by (auto simp: store_AddTransaction_def Let_def store_simps split: if_splits)

lemma commit_effect:
  assumes "store_wf d" "CommitTransaction t ks objs d = Ok d'"
  obtains d1 d2 where "DeactivateObjects ks d = Ok d1" "CreateObjects objs d1 = Ok d2" "store_wf d1" "store_wf d2"
    "d' = mput (committedTxnKey t) [1] d2"
proof -
  from assms(2) obtain d1 d2 where d: "DeactivateObjects ks d = Ok d1" "CreateObjects objs d1 = Ok d2"
    "commitTransaction t d2 = Ok d'"
    by (auto simp: CommitTransaction_def DeactivateObjects_def CreateObjects_def outcome_simps)
  then have "store_wf d1" "store_wf d2"
    using assms(1) ostore.keeps_wf by blast+
  moreover from d(3) have "d' = mput (committedTxnKey t) [1] d2"
    by (auto simp: commitTransaction_def Let_def outcome_simps set_val_ok split: if_splits)
  ultimately show thesis using that d by blast
qed

lemma exec_cmd_wf:
  assumes "exec_cmd c d = Ok d'" "store_wf d"
  shows "store_wf d'"
proof (cases c)
  case (CmdCommit t ks objs)
  with assms(1) have "CommitTransaction t ks objs d = Ok d'" by simp
  from commit_effect [OF assms(2) this] obtain d2 where "store_wf d2" "d' = mput (committedTxnKey t) [1] d2" by metis
  then show ?thesis by (simp add: store_wf_mput)
next
  case (CmdAdd t v)
  with assms(1) have "d' = mput (committedTxnKey t) [0] (mput (seenTxnKey t) v d)" by (simp add: add_effect)
  with assms(2) show ?thesis by (simp add: store_wf_mput)
next
  case (CmdFinish t)
  with assms(1) have "d' = mput (finishedTxnKey t) [] d" by (simp add: FinishTransaction_def set_val_ok)
  with assms(2) show ?thesis by (simp add: store_wf_mput)
next
  case (CmdLock ks)
  with assms(1) ostore.keeps_wf(1) [OF assms(2), of ks d'] show ?thesis by simp
next
  case (CmdUnlock ks)
  with assms(1) ostore.keeps_wf(2) [OF assms(2), of ks d'] show ?thesis by simp
next
  case (CmdDeactivate ks)
  with assms(1) ostore.keeps_wf(3) [OF assms(2), of ks d'] show ?thesis by simp
next
  case (CmdCreate objs)
  with assms(1) ostore.keeps_wf(4) [OF assms(2), of objs d'] show ?thesis by simp
qed

lemma exec_cmd_inactive:
  assumes "exec_cmd c d = Ok d'" "store_wf d" "status_of d k = Some ObjectStatus_INACTIVE"
  shows "status_of d' k = Some ObjectStatus_INACTIVE"
proof (cases c)
  case (CmdCommit t ks objs)
  with assms(1) have "CommitTransaction t ks objs d = Ok d'" by simp
  from commit_effect [OF assms(2) this] obtain d1 d2 where
    d: "DeactivateObjects ks d = Ok d1" "CreateObjects objs d1 = Ok d2" "store_wf d1" "d' = mput (committedTxnKey t) [1] d2"
    by metis
  from ostore.inactive_kept(3) [OF assms(2,3) d(1)] ostore.inactive_kept(4) [OF d(3) _ d(2)]
  show ?thesis by (simp add: d(4) store_simps)
next
  case (CmdAdd t v)
  with assms(1) have "d' = mput (committedTxnKey t) [0] (mput (seenTxnKey t) v d)" by (simp add: add_effect)
  with assms(3) show ?thesis by (simp add: store_simps)
next
  case (CmdFinish t)
  with assms(1) have "d' = mput (finishedTxnKey t) [] d" by (simp add: FinishTransaction_def set_val_ok)
  with assms show ?thesis by (simp add: store_simps)
next
  case (CmdLock ks)
  with assms(1) ostore.inactive_kept(1) [OF assms(2,3), of ks d'] show ?thesis by simp
next
  case (CmdUnlock ks)
  with assms(1) ostore.inactive_kept(2) [OF assms(2,3), of ks d'] show ?thesis by simp
next
  case (CmdDeactivate ks)
  with assms(1) ostore.inactive_kept(3) [OF assms(2,3), of ks d'] show ?thesis by simp
next
  case (CmdCreate objs)
  with assms(1) ostore.inactive_kept(4) [OF assms(2,3), of objs d'] show ?thesis by simp
qed

lemma run_cmd_wf: "store_wf d \<Longrightarrow> store_wf (run_cmd c d)"
  by (auto simp: run_cmd_def split: outcome.splits dest: exec_cmd_wf)

lemma run_cmds_wf: "store_wf d \<Longrightarrow> store_wf (fold run_cmd cs d)"
  by (induction cs arbitrary: d) (simp_all add: run_cmd_wf)

lemma run_cmds_inactive:
  "store_wf d \<Longrightarrow> status_of d k = Some ObjectStatus_INACTIVE \<Longrightarrow> status_of (fold run_cmd cs d) k = Some ObjectStatus_INACTIVE"
proof (induction cs arbitrary: d)
  case (Cons c cs)
  have "status_of (run_cmd c d) k = Some ObjectStatus_INACTIVE"
    using Cons.prems by (auto simp: run_cmd_def split: outcome.splits dest: exec_cmd_inactive)
  with Cons show ?case by (simp add: run_cmd_wf)
qed simp

text \<open>A locked object leaves its state by an unlock or by being consumed only.\<close>

fun releases :: "bytes \<Rightarrow> store_cmd \<Rightarrow> bool" where
  "releases k (CmdUnlock ks) = (k \<in> set ks)"
| "releases k _ = False"

lemma exec_cmd_locked:
  assumes "exec_cmd c d = Ok d'" "store_wf d" "\<not> releases k c"
    "status_of d k \<in> {Some ObjectStatus_LOCKED, Some ObjectStatus_INACTIVE}"
  shows "status_of d' k \<in> {Some ObjectStatus_LOCKED, Some ObjectStatus_INACTIVE}"
proof (cases c)
  case (CmdCommit t ks objs)
  with assms(1) have c: "CommitTransaction t ks objs d = Ok d'" by simp
  from commit_effect [OF assms(2) c] obtain d1 d2 where
    d: "DeactivateObjects ks d = Ok d1" "CreateObjects objs d1 = Ok d2" "store_wf d1" "d' = mput (committedTxnKey t) [1] d2"
    by metis
  have "status_of d1 k \<in> {Some ObjectStatus_LOCKED, Some ObjectStatus_INACTIVE}"
    using ostore.deactivate_status [OF assms(2) d(1)] assms(4) by auto
  moreover have "spec_create (map VersionID objs) (status_of d1) = Some (status_of d2)"
    using ostore.create_spec [OF d(3), of objs] d(2) by (simp add: refines_def)
  ultimately have "status_of d2 k = status_of d1 k" by (auto dest: spec_create_keeps)
  with \<open>status_of d1 k \<in> _\<close> show ?thesis by (simp add: d(4) store_simps)
next
  case (CmdCreate objs)
  have "refines status_of store_wf (spec_create (map VersionID objs)) d (CreateObjects objs d)"
    by (rule ostore.create_spec [OF assms(2)])
  with CmdCreate assms(1,4) show ?thesis by (auto simp: refines_def dest: spec_create_keeps)
next
  case (CmdAdd t v)
  with assms(1) have "d' = mput (committedTxnKey t) [0] (mput (seenTxnKey t) v d)" by (simp add: add_effect)
  with assms(4) show ?thesis by (simp add: store_simps)
next
  case (CmdFinish t)
  with assms(1) have "d' = mput (finishedTxnKey t) [] d" by (simp add: FinishTransaction_def set_val_ok)
  with assms show ?thesis by (simp add: store_simps)
next
  case (CmdLock ks)
  with assms show ?thesis using ostore.lock_status [OF assms(2)] by auto
next
  case (CmdUnlock ks)
  with assms show ?thesis using ostore.unlock_status [OF assms(2)] by auto
next
  case (CmdDeactivate ks)
  with assms show ?thesis using ostore.deactivate_status [OF assms(2)] by auto
qed

lemma run_cmds_locked:
  "store_wf d \<Longrightarrow> status_of d k \<in> {Some ObjectStatus_LOCKED, Some ObjectStatus_INACTIVE} \<Longrightarrow> list_all (\<lambda>c. \<not> releases k c) cs \<Longrightarrow>
     status_of (fold run_cmd cs d) k \<in> {Some ObjectStatus_LOCKED, Some ObjectStatus_INACTIVE}"
proof (induction cs arbitrary: d)
  case (Cons c cs)
  have "status_of (run_cmd c d) k \<in> {Some ObjectStatus_LOCKED, Some ObjectStatus_INACTIVE}"
    using Cons.prems exec_cmd_locked [of c d] by (auto simp: run_cmd_def split: outcome.splits)
  with Cons show ?case by (simp add: run_cmd_wf)
qed simp

section \<open>Reading back what was created\<close>

lemma put_objects_value:
  "distinct (map VersionID objs) \<Longrightarrow> ob \<in> set objs \<Longrightarrow> map_of (put_objects objs d) (objectKey (VersionID ob)) = Some (Value ob)"
proof (induction objs arbitrary: d)
  case (Cons a objs)
  have keep: "map_of (put_objects os d) (objectKey v) = map_of d (objectKey v)" if "v \<notin> VersionID ` set os" for os v d
    using that unfolding put_objects_def by (induction os arbitrary: d) (auto simp: gomap_simps)
  from Cons show ?case by (auto simp: put_objects_def [of "a # objs"] put_objects_def [symmetric] keep gomap_simps)
qed simp

lemma put_objects_status:
  "ob \<in> set objs \<Longrightarrow> map_of (put_objects objs d) (objectStatusKey (VersionID ob)) = Some [ObjectStatus_ACTIVE]"
proof (induction objs arbitrary: d)
  case (Cons a objs)
  have keep: "map_of d (objectStatusKey v) = Some [ObjectStatus_ACTIVE] \<Longrightarrow>
      map_of (put_objects os d) (objectStatusKey v) = Some [ObjectStatus_ACTIVE]" for os v d
    unfolding put_objects_def by (induction os arbitrary: d) (auto simp: gomap_simps)
  from Cons show ?case by (auto simp: put_objects_def [of "a # objs"] put_objects_def [symmetric] keep gomap_simps)
qed simp

lemma GetObjects_ok:
  "(\<And>v. v \<in> set vids \<Longrightarrow> getObject v d = Ok (f v)) \<Longrightarrow> GetObjects vids d = Ok (map f vids)"
proof -
  assume a: "\<And>v. v \<in> set vids \<Longrightarrow> getObject v d = Ok (f v)"
  have "ofold (\<lambda>vid objects. omap (\<lambda>ob. objects @ [ob]) (getObject vid d)) vids acc = Ok (acc @ map f vids)" for acc
    using a by (induction vids arbitrary: acc) simp_all
  then show ?thesis by (simp add: GetObjects_def)
qed


section \<open>Properties\<close>

text \<open>A store with two active objects, a locked one and an inactive one.\<close>

definition demo_db :: db where
  "demo_db = put_status ObjectStatus_INACTIVE [[4]] (put_status ObjectStatus_LOCKED [[3]]
     (put_objects (map (\<lambda>v. \<lparr>VersionID = [v], Value = [v, v], Status = 0, Labels = []\<rparr>) [1, 2, 3, 4]) []))"

lemma demo_db_wf: "store_wf demo_db"
  unfolding demo_db_def put_status_def put_objects_def by (simp add: store_wf_def)

lemma demo_db_status:
  "status_of demo_db [1] = Some ObjectStatus_ACTIVE" "status_of demo_db [2] = Some ObjectStatus_ACTIVE"
  "status_of demo_db [3] = Some ObjectStatus_LOCKED" "status_of demo_db [4] = Some ObjectStatus_INACTIVE"
  by (simp_all add: demo_db_def status_put_status status_put_objects)

text \<open>\<^bold>\<open>C17\<close>: locking is all or nothing. It succeeds exactly when the objects are pairwise
  different and all active, then exactly these objects become locked; otherwise it returns an
  error, which rolls the transaction back, and it never panics.\<close>

theorem lock_all_or_nothing:
  assumes "store_wf d"
  shows "case LockObjects ks d of
      Ok d' \<Rightarrow> distinct ks \<and> (\<forall>k \<in> set ks. status_of d k = Some ObjectStatus_ACTIVE) \<and> store_wf d' \<and>
        (\<forall>k. status_of d' k = (if k \<in> set ks then Some ObjectStatus_LOCKED else status_of d k))
    | Err e \<Rightarrow> \<not> (distinct ks \<and> (\<forall>k \<in> set ks. status_of d k = Some ObjectStatus_ACTIVE))
    | Panic r \<Rightarrow> False"
proof -
  have "(\<forall>k \<in> set ks. holds (\<lambda>st. st = ObjectStatus_ACTIVE) (status_of d k)) \<longleftrightarrow>
      (\<forall>k \<in> set ks. status_of d k = Some ObjectStatus_ACTIVE)"
    by (simp add: holds_Some)
  with ostore.lock_spec [OF assms, of ks] show ?thesis
    unfolding refines_def spec_lock_def spec_mark_def
    by (auto split: outcome.splits if_splits simp: fun_eq_iff)
qed

theorem lock_all_or_nothing_witness:
  "is_ok (LockObjects [[1], [2]] demo_db) \<and> \<not> is_ok (LockObjects [[1], [3]] demo_db) \<and> \<not> is_ok (LockObjects [[1], [1]] demo_db)"
  using lock_all_or_nothing [OF demo_db_wf, of "[[1], [2]]"] lock_all_or_nothing [OF demo_db_wf, of "[[1], [3]]"]
    lock_all_or_nothing [OF demo_db_wf, of "[[1], [1]]"]
  by (auto simp: demo_db_status outcome_simps split: outcome.splits)

text \<open>\<^bold>\<open>C8\<close>: no object is consumed twice. Once a deactivation of some objects succeeded, a
  deactivation that names one of them again is refused, whatever operations of the store ran in
  between.\<close>

theorem no_double_spend:
  assumes "store_wf d" and "DeactivateObjects ks d = Ok d1" and "k \<in> set ks" and "k \<in> set js"
  shows "\<exists>e. DeactivateObjects js (fold run_cmd cmds d1) = Err e"
proof -
  have wf: "store_wf d1" using ostore.keeps_wf(3) [OF assms(1,2)] .
  have "status_of d1 k = Some ObjectStatus_INACTIVE" using ostore.deactivate_status [OF assms(1,2)] assms(3) by simp
  then have "status_of (fold run_cmd cmds d1) k = Some ObjectStatus_INACTIVE" by (rule run_cmds_inactive [OF wf])
  then show ?thesis using run_cmds_wf [OF wf] assms(4) by (intro ostore.deactivate_refused)
qed

lemma demo_deactivate: "DeactivateObjects [[1], [3]] demo_db = Ok (put_status ObjectStatus_INACTIVE [[1], [3]] demo_db)"
  using mark_all_cases [OF demo_db_wf, of "\<lambda>st. st \<noteq> ObjectStatus_INACTIVE" ObjectStatus_INACTIVE ErrObjectAlreadyInactive "[[1], [3]]"]
  by (auto simp: DeactivateObjects_def setObjectsInactive_def mark_instances demo_db_status holds_def)

theorem no_double_spend_witness:
  "\<exists>e. DeactivateObjects [[2], [3]] (fold run_cmd [CmdUnlock [[3]], CmdCreate []] (put_status ObjectStatus_INACTIVE [[1], [3]] demo_db)) = Err e"
  by (rule no_double_spend [OF demo_db_wf demo_deactivate, of "[3]"]) simp_all

text \<open>A lock excludes other lockers. After a successful lock, no further lock on one of
  its objects succeeds until an unlock that names the object has run, whatever else happens.\<close>

theorem lock_exclusive:
  assumes "store_wf d" and "LockObjects ks d = Ok d1" and "k \<in> set ks" and "k \<in> set js"
    and "list_all (\<lambda>c. \<not> releases k c) cmds"
  shows "\<exists>e. LockObjects js (fold run_cmd cmds d1) = Err e"
proof -
  have wf: "store_wf d1" using ostore.keeps_wf(1) [OF assms(1,2)] .
  have "status_of d1 k = Some ObjectStatus_LOCKED" using ostore.lock_status [OF assms(1,2)] assms(3) by simp
  then have "status_of (fold run_cmd cmds d1) k \<in> {Some ObjectStatus_LOCKED, Some ObjectStatus_INACTIVE}"
    by (intro run_cmds_locked [OF wf _ assms(5)]) simp
  then show ?thesis using run_cmds_wf [OF wf] assms(4) by (intro ostore.lock_refused) auto
qed

lemma demo_lock: "LockObjects [[1], [2]] demo_db = Ok (put_status ObjectStatus_LOCKED [[1], [2]] demo_db)"
  using mark_all_cases [OF demo_db_wf, of "\<lambda>st. st = ObjectStatus_ACTIVE" ObjectStatus_LOCKED ErrObjectCannotBeLocked "[[1], [2]]"]
  by (auto simp: LockObjects_def mark_instances demo_db_status holds_def)

theorem lock_exclusive_witness:
  "\<exists>e. LockObjects [[2]] (fold run_cmd [CmdUnlock [[1]], CmdFinish [9]] (put_status ObjectStatus_LOCKED [[1], [2]] demo_db)) = Err e"
  by (rule lock_exclusive [OF demo_db_wf demo_lock, of "[2]"]) simp_all

text \<open>What was created is read back. After a successful creation, reading the objects by
  their version identifiers returns the created values, all active, in the order asked for.\<close>

theorem create_get_roundtrip:
  assumes "store_wf d" and "CreateObjects objs d = Ok d'"
  shows "GetObjects (map VersionID objs) d' =
    Ok (map (\<lambda>ob. \<lparr>VersionID = VersionID ob, Value = Value ob, Status = ObjectStatus_ACTIVE, Labels = []\<rparr>) objs)"
proof -
  have c: "d' = put_objects objs d" "distinct (map VersionID objs)"
    using createObjects_cases [OF assms(1), of objs] assms(2) by (auto simp: CreateObjects_def)
  define f where "f v = \<lparr>VersionID = v, Value = the (map_of d' (objectKey v)), Status = ObjectStatus_ACTIVE, Labels = []\<rparr>" for v
  have "getObject v d' = Ok (f v)" if v: "v \<in> set (map VersionID objs)" for v
  proof -
    from v obtain ob where "ob \<in> set objs" "v = VersionID ob" by auto
    then have "map_of d' (objectKey v) = Some (Value ob)" "map_of d' (objectStatusKey v) = Some [ObjectStatus_ACTIVE]"
      using put_objects_value [OF c(2)] put_objects_status by (simp_all add: c(1))
    then show ?thesis by (simp add: getObject_def get_val_eq txn_Get_def first_byte_def f_def)
  qed
  then have "GetObjects (map VersionID objs) d' = Ok (map f (map VersionID objs))" by (rule GetObjects_ok)
  also have "map f (map VersionID objs) =
      map (\<lambda>ob. \<lparr>VersionID = VersionID ob, Value = Value ob, Status = ObjectStatus_ACTIVE, Labels = []\<rparr>) objs"
    using put_objects_value [OF c(2)] by (auto simp: f_def c(1))
  finally show ?thesis .
qed

theorem create_get_roundtrip_witness:
  "\<exists>d'. CreateObjects [\<lparr>VersionID = [7], Value = [1, 2], Status = 0, Labels = [[5]]\<rparr>] demo_db = Ok d' \<and>
     GetObjects [[7]] d' = Ok [\<lparr>VersionID = [7], Value = [1, 2], Status = 0, Labels = []\<rparr>]"
proof -
  let ?objs = "[\<lparr>VersionID = [7], Value = [1, 2], Status = 0, Labels = [[5]]\<rparr>]"
  have "status_of demo_db [7] = None" by code_simp
  then obtain d' where d: "CreateObjects ?objs demo_db = Ok d'"
    using createObjects_cases [OF demo_db_wf, of ?objs] by (auto simp: CreateObjects_def)
  with create_get_roundtrip [OF demo_db_wf d] show ?thesis by simp
qed

text \<open>\<^bold>\<open>C16\<close>: committing is one atomic step. It succeeds only when its inputs are pairwise different,
  present and not consumed, and its outputs are pairwise different and new; then the inputs are
  inactive, the outputs active, every other object is as before and the transaction is marked as
  committed.\<close>

theorem commit_atomic:
  assumes "store_wf d" and "CommitTransaction t ks objs d = Ok d'"
  shows "distinct ks \<and> (\<forall>k \<in> set ks. \<exists>st. status_of d k = Some st \<and> st \<noteq> ObjectStatus_INACTIVE) \<and>
     distinct (map VersionID objs) \<and> (\<forall>ob \<in> set objs. status_of d (VersionID ob) = None) \<and>
     status_of d' = (\<lambda>k. if k \<in> VersionID ` set objs then Some ObjectStatus_ACTIVE
                         else if k \<in> set ks then Some ObjectStatus_INACTIVE else status_of d k) \<and>
     map_of d' (committedTxnKey t) = Some [1]"
proof -
  from commit_effect [OF assms] obtain d1 d2 where
    d: "DeactivateObjects ks d = Ok d1" "CreateObjects objs d1 = Ok d2" "store_wf d1" "d' = mput (committedTxnKey t) [1] d2"
    by metis
  have sd: "spec_deactivate ks (status_of d) = Some (status_of d1)"
    using ostore.deactivate_spec [OF assms(1), of ks] d(1) by (simp add: refines_def)
  have sc: "spec_create (map VersionID objs) (status_of d1) = Some (status_of d2)"
    using ostore.create_spec [OF d(3), of objs] d(2) by (simp add: refines_def)
  have 1: "distinct ks" "\<forall>k \<in> set ks. \<exists>st. status_of d k = Some st \<and> st \<noteq> ObjectStatus_INACTIVE"
    "status_of d1 = (\<lambda>k. if k \<in> set ks then Some ObjectStatus_INACTIVE else status_of d k)"
    using sd by (auto simp: spec_deactivate_def spec_mark_def holds_Some split: if_splits)
  have 2: "distinct (map VersionID objs)" "\<forall>ob \<in> set objs. status_of d1 (VersionID ob) = None"
    "status_of d2 = (\<lambda>k. if k \<in> VersionID ` set objs then Some ObjectStatus_ACTIVE else status_of d1 k)"
    using sc by (auto simp: spec_create_def split: if_splits)
  have "\<forall>ob \<in> set objs. status_of d (VersionID ob) = None"
    using 2(2) unfolding 1(3) by (auto split: if_splits)
  moreover have "status_of d' = status_of d2" by (simp add: d(4) store_simps)
  ultimately show ?thesis
    using 1(1,2) 2(1) unfolding 2(3) 1(3) by (auto simp: d(4) gomap_simps)
qed

theorem commit_atomic_witness:
  "\<exists>d'. CommitTransaction [9] [[1]] [] (mput (committedTxnKey [9]) [0] demo_db) = Ok d' \<and>
     status_of d' [1] = Some ObjectStatus_INACTIVE \<and> status_of d' [2] = Some ObjectStatus_ACTIVE"
proof -
  let ?d = "mput (committedTxnKey [9]) [0] demo_db"
  have wf: "store_wf ?d" using demo_db_wf by (rule store_wf_mput)
  have "is_ok (CommitTransaction [9] [[1]] [] ?d)" by code_simp
  then obtain d' where d': "CommitTransaction [9] [[1]] [] ?d = Ok d'" by (auto simp: outcome_simps)
  with commit_atomic [OF wf d'] show ?thesis by (simp add: demo_db_status store_simps)
qed

end
