(* ===== verification/SbacIds.thy ===== *)
theory SbacIds
  imports SbacStore
begin

unbundle bit_operations_syntax

text \<open>
  The transactions of the protocol (\<open>sbac/types.proto\<close>) and the identifiers derived from them
  (\<open>sbac/identifiers.go\<close>). SHA-512/256 is the parameter \<open>sha\<close>; \<open>Write\<close> of a Go hash never
  returns an error, so the error results of these functions are never produced and the model has
  plain values. \<open>ID\<close> of \<open>sbac/common.go\<close> is the 32-bit FNV-1 hash of the standard library.
\<close>

section \<open>Transactions\<close>

record OutputObject =
  oo_Labels :: "gostring list"
  oo_Object :: bytes

datatype Trace = Trace
  (ContractID: gostring) (Procedure: gostring)
  (InputObjectVersionIDs: "bytes list") (InputReferenceVersionIDs: "bytes list")
  (OutputObjects: "OutputObject list") (Parameters: "bytes list") (Returns: "bytes list")
  (Dependencies: "Trace list") (InputObjects: "bytes list") (InputReferences: "bytes list")

record Transaction =
  Traces :: "Trace list"

section \<open>Identifiers\<close>

type_synonym hash_fun = "bytes \<Rightarrow> bytes"

record TraceIdentifierPair =
  tip_ID :: bytes
  tip_Trace :: Trace

record TraceObjectPair =
  top_OutputObjects :: "Object list"
  top_Trace :: TraceIdentifierPair

record IDs =
  ids_TxID :: bytes
  ids_TraceObjectPairs :: "TraceObjectPair list"

fun MakeTraceID :: "hash_fun \<Rightarrow> Trace \<Rightarrow> bytes" where
  "MakeTraceID sha (Trace cid pr ins refs outs params rets deps inos inrefs) =
     sha (cid @ pr @ concat ins @ concat refs @ concat (map (MakeTraceID sha) deps))"

definition MakeTraceIDs :: "hash_fun \<Rightarrow> Trace list \<Rightarrow> TraceIdentifierPair list" where
  "MakeTraceIDs sha traces = map (\<lambda>trace. \<lparr>tip_ID = MakeTraceID sha trace, tip_Trace = trace\<rparr>) traces"

text \<open>The bytes that are hashed for the output at an index.\<close>

definition object_preimage :: "bytes \<Rightarrow> nat \<times> OutputObject \<Rightarrow> bytes" where
  "object_preimage tid io = tid @ oo_Object (snd io) @ PutUint32 (of_nat (fst io))"

definition MakeObjectIDs :: "hash_fun \<Rightarrow> TraceIdentifierPair \<Rightarrow> Object list" where
  "MakeObjectIDs sha pair =
     map (\<lambda>io. \<lparr>VersionID = sha (object_preimage (tip_ID pair) io), Value = oo_Object (snd io),
                Status = ObjectStatus_ACTIVE, Labels = oo_Labels (snd io)\<rparr>)
       (enumerate 0 (OutputObjects (tip_Trace pair)))"

definition MakeTraceObjectPairs :: "hash_fun \<Rightarrow> TraceIdentifierPair list \<Rightarrow> TraceObjectPair list" where
  "MakeTraceObjectPairs sha traces = map (\<lambda>trace. \<lparr>top_OutputObjects = MakeObjectIDs sha trace, top_Trace = trace\<rparr>) traces"

definition MakeTransactionID :: "hash_fun \<Rightarrow> TraceObjectPair list \<Rightarrow> bytes" where
  "MakeTransactionID sha tops =
     sha (concat (map (\<lambda>v. tip_ID (top_Trace v) @ concat (map VersionID (top_OutputObjects v))) tops))"

definition MakeIDs :: "hash_fun \<Rightarrow> Transaction \<Rightarrow> IDs" where
  "MakeIDs sha tx =
     (let traceObjectsPairs = MakeTraceObjectPairs sha (MakeTraceIDs sha (Traces tx))
      in \<lparr>ids_TxID = MakeTransactionID sha traceObjectsPairs, ids_TraceObjectPairs = traceObjectsPairs\<rparr>)"

definition ID :: "bytes \<Rightarrow> u32" where
  "ID data = fold (\<lambda>b h. (h * 16777619) XOR ucast b) data 2166136261"

section \<open>Laws\<close>

text \<open>All objects a transaction creates, in order.\<close>

definition output_objects :: "hash_fun \<Rightarrow> Transaction \<Rightarrow> Object list" where
  "output_objects sha tx = concat (map top_OutputObjects (ids_TraceObjectPairs (MakeIDs sha tx)))"

lemma MakeObjectIDs_values: "map Value (MakeObjectIDs sha pair) = map oo_Object (OutputObjects (tip_Trace pair))"
proof -
  have "map Value (MakeObjectIDs sha pair) = map oo_Object (map snd (enumerate 0 (OutputObjects (tip_Trace pair))))"
    by (simp only: MakeObjectIDs_def map_map comp_def Object.select_convs)
  also have "\<dots> = map oo_Object (OutputObjects (tip_Trace pair))" by (simp only: map_snd_enumerate)
  finally show ?thesis .
qed

lemma PutUint32_inj: "PutUint32 a = PutUint32 b \<longleftrightarrow> a = b"
proof
  assume "PutUint32 a = PutUint32 b"
  then have "(Uint32 (PutUint32 a @ []) :: (unit, u32) outcome) = Uint32 (PutUint32 b @ [])" by simp
  then show "a = b" by (simp only: Uint32_PutUint32 outcome.inject)
qed simp

text \<open>The index at the end and the identifier at the front make the hashed bytes of different
  outputs different.\<close>

lemma object_preimage_inj:
  assumes "object_preimage t a = object_preimage u b" "length t = length u" "fst a < 2 ^ 32" "fst b < 2 ^ 32"
  shows "t = u \<and> fst a = fst b"
proof -
  from assms(1) have e: "(t @ oo_Object (snd a)) @ PutUint32 (of_nat (fst a)) = (u @ oo_Object (snd b)) @ PutUint32 (of_nat (fst b))"
    by (simp add: object_preimage_def)
  then have e': "t @ oo_Object (snd a) = u @ oo_Object (snd b) \<and> PutUint32 (of_nat (fst a)) = PutUint32 (of_nat (fst b))"
    by (rule append_eq_append_conv [THEN iffD1, rotated]) simp
  then have "(of_nat (fst a) :: u32) = of_nat (fst b)" by (simp add: PutUint32_inj)
  then have "unat (of_nat (fst a) :: u32) = unat (of_nat (fst b) :: u32)" by (rule arg_cong)
  then have "fst a = fst b"
    unfolding unat_of_nat using assms(3,4) by simp
  moreover have "t = u" using e' assms(2) append_eq_append_conv [of t u] by metis
  ultimately show ?thesis by simp
qed

text \<open>The preimages of all outputs of a transaction.\<close>

definition trace_preimages :: "hash_fun \<Rightarrow> Trace \<Rightarrow> bytes list" where
  "trace_preimages sha tr = map (object_preimage (MakeTraceID sha tr)) (enumerate 0 (OutputObjects tr))"

definition tx_preimages :: "hash_fun \<Rightarrow> Transaction \<Rightarrow> bytes list" where
  "tx_preimages sha tx = concat (map (trace_preimages sha) (Traces tx))"

lemma output_versions: "map VersionID (output_objects sha tx) = map sha (tx_preimages sha tx)"
proof -
  have "map VersionID (MakeObjectIDs sha \<lparr>tip_ID = MakeTraceID sha tr, tip_Trace = tr\<rparr>) = map sha (trace_preimages sha tr)" for tr
    by (simp add: MakeObjectIDs_def trace_preimages_def comp_def)
  then show ?thesis
    by (simp add: output_objects_def MakeIDs_def MakeTraceObjectPairs_def MakeTraceIDs_def tx_preimages_def
        map_concat comp_def Let_def)
qed

lemma tx_preimages_distinct:
  assumes "distinct (map (MakeTraceID sha) (Traces tx))"
    and "\<And>x. length (sha x) = 32"
    and "\<And>tr. tr \<in> set (Traces tx) \<Longrightarrow> length (OutputObjects tr) < 2 ^ 32"
  shows "distinct (tx_preimages sha tx)"
proof -
  have len: "length (MakeTraceID sha tr) = 32" for tr by (cases tr) (simp add: assms(2))
  have inj: "MakeTraceID sha tr = MakeTraceID sha tr' \<and> fst a = fst b"
    if "object_preimage (MakeTraceID sha tr) a = object_preimage (MakeTraceID sha tr') b"
      "a \<in> set (enumerate 0 (OutputObjects tr))" "b \<in> set (enumerate 0 (OutputObjects tr'))"
      "tr \<in> set (Traces tx)" "tr' \<in> set (Traces tx)" for tr tr' a b
  proof (rule object_preimage_inj [OF that(1)])
    show "fst a < 2 ^ 32" "fst b < 2 ^ 32"
      using that assms(3) by (force simp: in_set_enumerate_eq)+
  qed (simp add: len)
  have one: "distinct (trace_preimages sha tr)" if "tr \<in> set (Traces tx)" for tr
    unfolding trace_preimages_def distinct_map
  proof
    show "inj_on (object_preimage (MakeTraceID sha tr)) (set (enumerate 0 (OutputObjects tr)))"
    proof (rule inj_onI)
      fix a b
      assume a: "a \<in> set (enumerate 0 (OutputObjects tr))" "b \<in> set (enumerate 0 (OutputObjects tr))"
        "object_preimage (MakeTraceID sha tr) a = object_preimage (MakeTraceID sha tr) b"
      then have "fst a = fst b" using inj that by blast
      with a(1,2) show "a = b" by (auto simp: in_set_enumerate_eq prod_eq_iff)
    qed
  qed simp
  have "distinct (concat (map (trace_preimages sha) ts))"
    if "set ts \<subseteq> set (Traces tx)" "distinct (map (MakeTraceID sha) ts)" for ts
    using that
  proof (induction ts)
    case (Cons tr ts)
    have "set (trace_preimages sha tr) \<inter> set (trace_preimages sha tr') = {}" if "tr' \<in> set ts" for tr'
    proof -
      have "MakeTraceID sha tr \<noteq> MakeTraceID sha tr'" using Cons.prems(2) that by auto
      moreover have "tr \<in> set (Traces tx)" "tr' \<in> set (Traces tx)" using Cons.prems(1) that by auto
      ultimately show ?thesis using inj by (fastforce simp: trace_preimages_def)
    qed
    then show ?case using Cons one by auto
  qed simp
  with assms(1) show ?thesis by (simp add: tx_preimages_def)
qed

section \<open>Properties\<close>

text \<open>\<^bold>\<open>C29\<close>: the output objects of a transaction get pairwise different version identifiers, even
  when their contents are equal, provided its traces have different identifiers and the hash has
  no collision on the bytes hashed for this transaction.\<close>

theorem output_ids_distinct:
  assumes "distinct (map (MakeTraceID sha) (Traces tx))"
    and "\<And>x. length (sha x) = 32"
    and "\<And>tr. tr \<in> set (Traces tx) \<Longrightarrow> length (OutputObjects tr) < 2 ^ 32"
    and "inj_on sha (set (tx_preimages sha tx))"
  shows "distinct (map VersionID (output_objects sha tx))"
  using tx_preimages_distinct [OF assms(1-3)] assms(4) by (simp add: output_versions distinct_map)

definition demo_sha :: hash_fun where
  "demo_sha x = replicate 32 (sum_list x)"

definition demo_trace :: "byte \<Rightarrow> Trace" where
  "demo_trace c = Trace [c] [2] [[1]] [] [\<lparr>oo_Labels = [], oo_Object = [5]\<rparr>, \<lparr>oo_Labels = [], oo_Object = [5]\<rparr>] [] [] [] [] []"

lemma demo_sha_inj: "inj_on demo_sha (set (tx_preimages demo_sha \<lparr>Traces = [demo_trace 1, demo_trace 2]\<rparr>))"
proof -
  have "distinct (map demo_sha (tx_preimages demo_sha \<lparr>Traces = [demo_trace 1, demo_trace 2]\<rparr>))"
    by (simp add: tx_preimages_def trace_preimages_def object_preimage_def demo_trace_def demo_sha_def sum_list_replicate
        PutUint32_def putLE_def upt_rec)
  then show ?thesis by (simp add: distinct_map)
qed

theorem output_ids_distinct_witness:
  "distinct (map VersionID (output_objects demo_sha \<lparr>Traces = [demo_trace 1, demo_trace 2]\<rparr>))"
proof (rule output_ids_distinct)
  show "distinct (map (MakeTraceID demo_sha) (Traces \<lparr>Traces = [demo_trace 1, demo_trace 2]\<rparr>))"
    by (simp add: demo_trace_def demo_sha_def)
  show "length (demo_sha x) = 32" for x by (simp add: demo_sha_def)
  show "length (OutputObjects tr) < 2 ^ 32" if "tr \<in> set (Traces \<lparr>Traces = [demo_trace 1, demo_trace 2]\<rparr>)" for tr
    using that by (auto simp: demo_trace_def)
  show "inj_on demo_sha (set (tx_preimages demo_sha \<lparr>Traces = [demo_trace 1, demo_trace 2]\<rparr>))"
    by (rule demo_sha_inj)
qed

text \<open>The fields hashed for a trace identifier are not delimited: moving a byte from the contract
  to the procedure gives another trace with the same identifier, whatever the hash.\<close>

lemma trace_id_ambiguous:
  "MakeTraceID sha (Trace (c @ [b]) p ins refs outs ps rs deps ios irs) =
   MakeTraceID sha (Trace c (b # p) ins refs outs' ps' rs' deps ios' irs')"
  by simp

end
