(* ===== verification/SbacCommon.thy ===== *)
theory SbacCommon
  imports SbacIds Kv "HOL-Library.Multiset"
begin

text \<open>
  The messages of the protocol, what a node knows (\<open>ServiceSBAC\<close> of \<open>sbac/sbac.go\<close>) and the
  helpers of \<open>sbac/common.go\<close>.

  The environment record holds the immutable fields of the service: its identity, the methods of
  the topology, the signing key and the public keys of the network, protobuf encoding and the
  hash. The methods of the topology are total functions here; the theory of the topology shows
  when they return. An encoder gives bytes together with a flag for a non-nil error, because some
  callers ignore the error and go on with the bytes. \<open>keyOrder\<close> is the order in which a range over
  a map of shard numbers visits its keys, which Go leaves open.

  The world holds what the node changes: the object store, the labels, and the calls it makes on
  its connections, its publisher and its broadcaster, in order.
\<close>

section \<open>Messages\<close>

text \<open>Protobuf enumerations are open: any 32-bit value may arrive.\<close>

datatype SBACOp = SBACOp_Phase1 | SBACOp_Phase2 | SBACOp_Commit | SBACOp_other u32
datatype SBACDecision = SBACDecision_ACCEPT | SBACDecision_REJECT | SBACDecision_other u32
datatype ConsensusOp = ConsensusOp_Consensus1 | ConsensusOp_Consensus2 | ConsensusOp_ConsensusCommit | ConsensusOp_other u32

type_synonym evidences = "(u64, bytes) gomap"

record SBACMessage =
  sm_Op :: SBACOp
  sm_Decision :: SBACDecision
  sm_TxID :: bytes
  sm_Tx :: "Transaction option"
  sm_Evidences :: evidences
  sm_Signature :: bytes
  sm_PeerID :: u64

record ConsensusTransaction =
  ct_TxID :: bytes
  ct_Tx :: "Transaction option"
  ct_Evidences :: evidences
  ct_Op :: ConsensusOp
  ct_Initiator :: u64

abbreviation (input) Opcode_ADD_TRANSACTION :: u32 where "Opcode_ADD_TRANSACTION \<equiv> 1"
abbreviation (input) Opcode_QUERY_OBJECT :: u32 where "Opcode_QUERY_OBJECT \<equiv> 2"
abbreviation (input) Opcode_CREATE_OBJECT :: u32 where "Opcode_CREATE_OBJECT \<equiv> 3"
abbreviation (input) Opcode_STATES :: u32 where "Opcode_STATES \<equiv> 4"
abbreviation (input) Opcode_SBAC :: u32 where "Opcode_SBAC \<equiv> 5"
abbreviation (input) Opcode_CREATE_OBJECTS :: u32 where "Opcode_CREATE_OBJECTS \<equiv> 6"

section \<open>Environment and world\<close>

record env =
  nodeID :: u64
  shardID :: u64
  shardSize_of :: u64
  nodesInShard :: "u64 \<Rightarrow> u64 list"
  shardForVersionID :: "bytes \<Rightarrow> u64"
  pubkeys :: "(u64, bytes \<Rightarrow> bytes \<Rightarrow> bool) gomap"
  sign :: "bytes \<Rightarrow> bytes"
  sha :: hash_fun
  marshalTx :: "Transaction option \<Rightarrow> bytes \<times> bool"
  marshalSBAC :: "SBACMessage \<Rightarrow> bytes \<times> bool"
  marshalConsensus :: "ConsensusTransaction \<Rightarrow> bytes \<times> bool"
  keyOrder :: "u64 list \<Rightarrow> u64 list"

record world =
  w_store :: db
  w_kv :: db
  w_sent :: "(u64 \<times> Message) list"
  w_published :: "(bytes \<times> gostring list \<times> bool) list"
  w_broadcast :: "(bytes \<times> u64) list"

record DetailTx =
  dt_ID :: bytes
  dt_RawTx :: bytes
  dt_Tx :: "Transaction option"
  dt_Evidences :: evidences
  dt_HashID :: u32

text \<open>A field access through the transaction pointer.\<close>

definition deref_tx :: "Transaction option \<Rightarrow> Transaction may_panic" where
  "deref_tx p = (case p of Some tx \<Rightarrow> Ok tx | None \<Rightarrow> Panic NilDereference)"

section \<open>Helpers\<close>

definition in_shard :: "env \<Rightarrow> bytes \<Rightarrow> bool" where
  "in_shard e vid = (shardForVersionID e vid = shardID e)"

text \<open>The parameter \<open>shardID\<close> of the Go function is shadowed and never used.\<close>

definition inputObjectsForShard :: "env \<Rightarrow> Transaction \<Rightarrow> bytes list \<times> bool" where
  "inputObjectsForShard e tx =
     fold (\<lambda>t (objects, allInShard).
       (objects @ filter (in_shard e) (InputObjectVersionIDs t),
        allInShard \<and> list_all (in_shard e) (InputObjectVersionIDs t) \<and> list_all (in_shard e) (InputReferenceVersionIDs t)))
       (Traces tx) ([], True)"

definition isNodeInitiatingBroadcast :: "env \<Rightarrow> u32 \<Rightarrow> bool may_panic" where
  "isNodeInitiatingBroadcast e txID =
     (let nodes = nodesInShard e (shardID e); n = (of_nat (length nodes) :: u32) in
      if n = 0 then Panic DivideByZero
      else Ok (nodes ! unat (txID mod n) = nodeID e))"

definition objectsExists :: "env \<Rightarrow> bytes list \<Rightarrow> bytes list \<Rightarrow> db \<Rightarrow> (Object list option) may_panic" where
  "objectsExists e vids refvids d =
     (case GetObjects (filter (in_shard e) (vids @ refvids)) d of
        Ok objects \<Rightarrow> Ok (Some objects)
      | Err _ \<Rightarrow> Ok None
      | Panic r \<Rightarrow> Panic r)"

text \<open>The output objects of a transaction that this shard holds.\<close>

definition local_outputs :: "env \<Rightarrow> IDs \<Rightarrow> Object list" where
  "local_outputs e ids =
     filter (\<lambda>outo. in_shard e (VersionID outo)) (concat (map top_OutputObjects (ids_TraceObjectPairs ids)))"

definition publishObjects :: "env \<Rightarrow> IDs \<Rightarrow> bool \<Rightarrow> world \<Rightarrow> world" where
  "publishObjects e ids success w =
     w\<lparr>w_published := w_published w @ map (\<lambda>outo. (VersionID outo, Labels outo, success)) (local_outputs e ids)\<rparr>"

text \<open>The error of \<open>kvstore.Set\<close>, for an empty label, is ignored.\<close>

definition save_label :: "bytes \<Rightarrow> gostring \<Rightarrow> db \<Rightarrow> db" where
  "save_label vid label d = (case kv_Set label vid d of Ok d' \<Rightarrow> d' | _ \<Rightarrow> d)"

definition saveLabels :: "env \<Rightarrow> IDs \<Rightarrow> world \<Rightarrow> world" where
  "saveLabels e ids w =
     w\<lparr>w_kv := fold (\<lambda>outo. fold (save_label (VersionID outo)) (Labels outo)) (local_outputs e ids) (w_kv w)\<rparr>"

text \<open>One write request per node, each in a goroutine whose error is only logged; the list gives
  one order of the writes.\<close>

definition sendToShards :: "env \<Rightarrow> u64 list \<Rightarrow> Message \<Rightarrow> world \<Rightarrow> world" where
  "sendToShards e shards msg w =
     w\<lparr>w_sent := w_sent w @ concat (map (\<lambda>shard. map (\<lambda>node. (node, msg)) (nodesInShard e shard)) shards)\<rparr>"

text \<open>Sets of shard numbers are maps to the empty struct.\<close>

definition toUniqIds :: "u64 list \<Rightarrow> (u64, unit) gomap" where
  "toUniqIds ls = fold (\<lambda>v. mput v ()) ls []"

definition fromUniqIds :: "env \<Rightarrow> (u64, unit) gomap \<Rightarrow> u64 list" where
  "fromUniqIds e m = keyOrder e (map fst m)"

definition shardsInvolved :: "env \<Rightarrow> Transaction \<Rightarrow> u64 list" where
  "shardsInvolved e tx =
     fromUniqIds e (fold (\<lambda>trace uniqids.
       fold (\<lambda>ref. mput (shardForVersionID e ref) ()) (InputReferenceVersionIDs trace)
         (fold (\<lambda>obj. mput (shardForVersionID e obj) ()) (InputObjectVersionIDs trace) uniqids)) (Traces tx) [])"

text \<open>The loop deletes the first occurrence of the own shard.\<close>

definition shardsInvolvedWithoutSelf :: "env \<Rightarrow> Transaction \<Rightarrow> u64 list" where
  "shardsInvolvedWithoutSelf e tx = remove1 (shardID e) (shardsInvolved e tx)"

definition sendToAllShardInvolved :: "env \<Rightarrow> DetailTx \<Rightarrow> Message \<Rightarrow> world \<Rightarrow> world may_panic" where
  "sendToAllShardInvolved e dt msg w =
     obind (deref_tx (dt_Tx dt)) (\<lambda>tx. Ok (sendToShards e (shardsInvolvedWithoutSelf e tx) msg w))"

definition signTransaction :: "env \<Rightarrow> Transaction option \<Rightarrow> bytes option" where
  "signTransaction e tx = (let (b, err) = marshalTx e tx in if err then None else Some (sign e b))"

definition signTransactionRaw :: "env \<Rightarrow> bytes \<Rightarrow> bytes option" where
  "signTransactionRaw e tx = Some (sign e tx)"

text \<open>A missing own key is only logged; the call on the nil interface that follows panics.\<close>

definition verifyEvidenceSignature :: "env \<Rightarrow> bytes \<Rightarrow> evidences \<Rightarrow> bool may_panic" where
  "verifyEvidenceSignature e txID evs =
     (case map_of evs (nodeID e) of
        None \<Rightarrow> Ok False
      | Some sig \<Rightarrow>
          (case map_of (pubkeys e) (nodeID e) of
             None \<Rightarrow> Panic NilDereference
           | Some verify \<Rightarrow> Ok (verify txID sig)))"

definition verifyTransactionRawSignature :: "env \<Rightarrow> bytes \<Rightarrow> bytes \<Rightarrow> u64 \<Rightarrow> bool may_panic" where
  "verifyTransactionRawSignature e tx signature node =
     (case map_of (pubkeys e) node of None \<Rightarrow> Panic NilDereference | Some verify \<Rightarrow> Ok (verify tx signature))"

definition verifyTransactionSignature :: "env \<Rightarrow> Transaction option \<Rightarrow> bytes \<Rightarrow> u64 \<Rightarrow> (bool \<times> bool) may_panic" where
  "verifyTransactionSignature e tx signature node =
     (let (b, err) = marshalTx e tx in
      if err then Ok (False, True)
      else case map_of (pubkeys e) node of
             None \<Rightarrow> Panic NilDereference
           | Some verify \<Rightarrow> Ok (verify b signature, False))"

definition quorum2t1 :: "u64 \<Rightarrow> u64" where
  "quorum2t1 sz = 2 * (sz div 3) + 1"

definition quorumt1 :: "u64 \<Rightarrow> u64" where
  "quorumt1 sz = sz div 3 + 1"

section \<open>Laws\<close>

text \<open>What the model needs of the environment: a range over a map visits each key once, and the
  nodes of a shard are pairwise different and as many as the shard size.\<close>

definition env_ok :: "env \<Rightarrow> bool" where
  "env_ok e \<longleftrightarrow> (\<forall>ks. mset (keyOrder e ks) = mset ks) \<and>
     (\<forall>s. distinct (nodesInShard e s))"

definition local_inputs :: "env \<Rightarrow> Transaction \<Rightarrow> bytes list" where
  "local_inputs e tx = filter (in_shard e) (concat (map InputObjectVersionIDs (Traces tx)))"

definition all_ids :: "Transaction \<Rightarrow> bytes list" where
  "all_ids tx = concat (map (\<lambda>t. InputObjectVersionIDs t @ InputReferenceVersionIDs t) (Traces tx))"

lemma inputObjectsForShard_eq:
  "inputObjectsForShard e tx = (local_inputs e tx, list_all (in_shard e) (all_ids tx))"
proof -
  have "fold (\<lambda>t (objects, allInShard).
       (objects @ filter (in_shard e) (InputObjectVersionIDs t),
        allInShard \<and> list_all (in_shard e) (InputObjectVersionIDs t) \<and> list_all (in_shard e) (InputReferenceVersionIDs t)))
       ts (obs, b) =
     (obs @ filter (in_shard e) (concat (map InputObjectVersionIDs ts)),
      b \<and> list_all (in_shard e) (concat (map (\<lambda>t. InputObjectVersionIDs t @ InputReferenceVersionIDs t) ts)))" for ts obs b
    by (induction ts arbitrary: obs b) auto
  then show ?thesis by (simp add: inputObjectsForShard_def local_inputs_def all_ids_def)
qed

lemma mput_unit_keys: "set (map fst (fold (\<lambda>x. mput (f x) ()) xs m)) = f ` set xs \<union> fst ` set m"
  by (induction xs arbitrary: m) (auto simp: gomap_simps)

lemma mput_unit_mwf: "mwf m \<Longrightarrow> mwf (fold (\<lambda>x. mput (f x) ()) xs m)"
  by (induction xs arbitrary: m) auto

lemma keyOrder_set: "env_ok e \<Longrightarrow> set (keyOrder e ks) = set ks"
  unfolding env_ok_def by (metis set_mset_mset)

lemma keyOrder_distinct: "env_ok e \<Longrightarrow> distinct (keyOrder e ks) = distinct ks"
  unfolding env_ok_def by (metis mset_eq_imp_distinct_iff)

lemma shardsInvolved_props:
  assumes "env_ok e"
  shows "distinct (shardsInvolved e tx)" "set (shardsInvolved e tx) = shardForVersionID e ` set (all_ids tx)"
proof -
  define step where "step = (\<lambda>trace uniqids.
       fold (\<lambda>ref. mput (shardForVersionID e ref) ()) (InputReferenceVersionIDs trace)
         (fold (\<lambda>obj. mput (shardForVersionID e obj) ()) (InputObjectVersionIDs trace) uniqids))"
  have "mwf (fold step ts m) \<and> set (map fst (fold step ts m)) =
      shardForVersionID e ` set (concat (map (\<lambda>t. InputObjectVersionIDs t @ InputReferenceVersionIDs t) ts)) \<union> fst ` set m"
    if "mwf m" for ts m
    using that
  proof (induction ts arbitrary: m)
    case (Cons t ts)
    have "mwf (step t m)" unfolding step_def by (intro mput_unit_mwf Cons.prems)
    moreover have "fst ` set (step t m) = shardForVersionID e ` set (InputObjectVersionIDs t @ InputReferenceVersionIDs t) \<union> fst ` set m"
      using mput_unit_keys [where f = "shardForVersionID e"] by (auto simp: step_def)
    ultimately show ?case using Cons.IH [of "step t m"] by auto
  qed simp
  from this [of "[]" "Traces tx"] show "distinct (shardsInvolved e tx)"
    and "set (shardsInvolved e tx) = shardForVersionID e ` set (all_ids tx)"
    unfolding shardsInvolved_def fromUniqIds_def step_def all_ids_def
    by (simp_all add: keyOrder_set [OF assms] keyOrder_distinct [OF assms])
qed

lemma other_shards:
  assumes "env_ok e"
  shows "distinct (shardsInvolvedWithoutSelf e tx)"
    and "set (shardsInvolvedWithoutSelf e tx) = shardForVersionID e ` set (all_ids tx) - {shardID e}"
  using shardsInvolved_props [OF assms] by (simp_all add: shardsInvolvedWithoutSelf_def)

text \<open>All objects are local exactly when no other shard is involved.\<close>

lemma all_local_iff:
  assumes "env_ok e"
  shows "list_all (in_shard e) (all_ids tx) \<longleftrightarrow> shardsInvolvedWithoutSelf e tx = []"
  using other_shards(2) [OF assms, of tx]
  by (auto simp: list_all_iff in_shard_def simp flip: set_empty)

lemma world_frame [simp]:
  "w_store (publishObjects e ids b w) = w_store w" "w_kv (publishObjects e ids b w) = w_kv w"
  "w_store (saveLabels e ids w) = w_store w" "w_published (saveLabels e ids w) = w_published w"
  "w_store (sendToShards e shards msg w) = w_store w" "w_kv (sendToShards e shards msg w) = w_kv w"
  by (simp_all add: publishObjects_def saveLabels_def sendToShards_def)

lemma quorumt1_unat: "unat (quorumt1 sz) = unat sz div 3 + 1"
proof -
  have "unat (sz div 3) = unat sz div 3" by (simp add: unat_div)
  moreover have "unat (sz div 3) + 1 < 2 ^ 64"
    using unat_lt_64 [of sz] by (simp add: unat_div)
  ultimately show ?thesis
    unfolding quorumt1_def using unat_add_lem [of "sz div 3" 1] by simp
qed

end
