(* ===== verification/SbacPhases.thy ===== *)
theory SbacPhases
  imports SbacCommon
begin

text \<open>
  The events of a transaction (\<open>sbac/events.go\<close>) and the two small machines that collect them:
  one per consensus of the own shard (\<open>sbac/consensus_sm.go\<close>) and one per phase in which the
  nodes of the other shards vote (\<open>sbac/sbac_sm.go\<close>).
\<close>

section \<open>Events\<close>

datatype EventKind = EventKindSBACMessage | EventKindConsensus

text \<open>The \<open>Event\<close> interface has two implementations.\<close>

datatype Event = SBACEvent EventKind SBACMessage | ConsensusEvent EventKind ConsensusTransaction

fun Event_Kind :: "Event \<Rightarrow> EventKind" where
  "Event_Kind (SBACEvent k m) = k"
| "Event_Kind (ConsensusEvent k d) = k"

fun Event_TxID :: "Event \<Rightarrow> bytes" where
  "Event_TxID (SBACEvent k m) = sm_TxID m"
| "Event_TxID (ConsensusEvent k d) = ct_TxID d"

fun Event_PeerID :: "Event \<Rightarrow> u64" where
  "Event_PeerID (SBACEvent k m) = sm_PeerID m"
| "Event_PeerID (ConsensusEvent k d) = ct_Initiator d"

definition NewSBACEvent :: "SBACMessage \<Rightarrow> Event" where
  "NewSBACEvent msg = SBACEvent EventKindSBACMessage msg"

definition NewConsensusEvent :: "ConsensusTransaction \<Rightarrow> Event" where
  "NewConsensusEvent d = ConsensusEvent EventKindConsensus d"

datatype event_err = InvalidEventKind | AlreadyFinished | OtherTransaction | UnknownEvent

section \<open>Consensus machine\<close>

datatype StateConsensus = StateConsensusWaiting | StateConsensusAccepted | StateConsensusRejected

record ConsensusStateMachine =
  c_data :: "ConsensusTransaction option"
  c_phase :: ConsensusOp
  c_state :: StateConsensus

definition onConsensusEvent :: "env \<Rightarrow> ConsensusTransaction \<Rightarrow> StateConsensus may_panic" where
  "onConsensusEvent e d =
     (if ct_Op d \<noteq> ConsensusOp_ConsensusCommit then
        let txbytes = fst (marshalTx e (ct_Tx d)) in
        obind (verifyEvidenceSignature e txbytes (ct_Evidences d)) (\<lambda>ok.
          Ok (if \<not> ok then StateConsensusRejected else StateConsensusAccepted))
      else Ok StateConsensusAccepted)"

text \<open>The result is the machine and the error the caller drops.\<close>

definition csm_processEvent :: "env \<Rightarrow> EventKind \<Rightarrow> ConsensusTransaction \<Rightarrow> ConsensusStateMachine \<Rightarrow>
    (ConsensusStateMachine \<times> event_err option) may_panic" where
  "csm_processEvent e k d c =
     (if k \<noteq> EventKindConsensus then Ok (c, Some InvalidEventKind)
      else if c_state c \<noteq> StateConsensusWaiting then Ok (c, Some AlreadyFinished)
      else obind (onConsensusEvent e d) (\<lambda>s. Ok (c\<lparr>c_data := Some d, c_state := s\<rparr>, None)))"

definition NewConsensuStateMachine :: "ConsensusOp \<Rightarrow> ConsensusStateMachine" where
  "NewConsensuStateMachine phase = \<lparr>c_data = None, c_phase = phase, c_state = StateConsensusWaiting\<rparr>"

section \<open>Voting machine\<close>

datatype StateSBAC = StateSBACWaiting | StateSBACAccepted | StateSBACRejected

record SignedDecision =
  sd_Decision :: SBACDecision
  sd_Signature :: bytes

type_synonym decisions = "(u64, SignedDecision) gomap"

record SBACStateMachine =
  b_msgs :: "(u64, SBACMessage) gomap"
  b_decisions :: decisions
  b_phase :: SBACOp
  b_state :: StateSBAC

text \<open>Accepting and rejecting answers among the nodes of a shard.\<close>

definition count_answers :: "decisions \<Rightarrow> u64 list \<Rightarrow> u64 \<times> u64" where
  "count_answers ds nodes =
     fold (\<lambda>node (accepted, rejected).
       case map_of ds node of
         None \<Rightarrow> (accepted, rejected)
       | Some d \<Rightarrow> if sd_Decision d = SBACDecision_ACCEPT then (accepted + 1, rejected) else (accepted, rejected + 1))
       nodes (0, 0)"

text \<open>The loop over the shards: \<open>None\<close> is the early return of a rejection, otherwise the final value
  of \<open>somePending\<close>.\<close>

fun shards_loop :: "env \<Rightarrow> decisions \<Rightarrow> u64 list \<Rightarrow> bool \<Rightarrow> bool option" where
  "shards_loop e ds [] somePending = Some somePending"
| "shards_loop e ds (v # shards) somePending =
     (let (accepted, rejected) = count_answers ds (nodesInShard e v) in
      if rejected \<ge> quorumt1 (shardSize_of e) then None
      else if accepted \<ge> shardSize_of e then shards_loop e ds shards somePending
      else shards_loop e ds shards True)"

text \<open>The signatures are checked at the end, but an invalid one is only logged.\<close>

definition check_signatures :: "env \<Rightarrow> DetailTx \<Rightarrow> decisions \<Rightarrow> unit may_panic" where
  "check_signatures e dt ds =
     ofold (\<lambda>kv u. obind (verifyTransactionSignature e (dt_Tx dt) (sd_Signature (snd kv)) (fst kv)) (\<lambda>_. Ok ())) ds ()"

definition onSBACEvent :: "env \<Rightarrow> DetailTx \<Rightarrow> decisions \<Rightarrow> StateSBAC may_panic" where
  "onSBACEvent e dt ds =
     obind (deref_tx (dt_Tx dt)) (\<lambda>tx.
       case shards_loop e ds (shardsInvolvedWithoutSelf e tx) False of
         None \<Rightarrow> Ok StateSBACRejected
       | Some True \<Rightarrow> Ok StateSBACWaiting
       | Some False \<Rightarrow> obind (check_signatures e dt ds) (\<lambda>_. Ok StateSBACAccepted))"

definition SetDecision :: "u64 \<Rightarrow> SignedDecision \<Rightarrow> SBACStateMachine \<Rightarrow> SBACStateMachine" where
  "SetDecision n d c = c\<lparr>b_decisions := mput n d (b_decisions c)\<rparr>"

definition GetDecisions :: "SBACStateMachine \<Rightarrow> decisions" where
  "GetDecisions c = b_decisions c"

definition bsm_processEvent :: "env \<Rightarrow> DetailTx \<Rightarrow> EventKind \<Rightarrow> SBACMessage \<Rightarrow> SBACStateMachine \<Rightarrow>
    (SBACStateMachine \<times> event_err option) may_panic" where
  "bsm_processEvent e dt k m c =
     (if k \<noteq> EventKindSBACMessage then Ok (c, Some InvalidEventKind)
      else if b_state c \<noteq> StateSBACWaiting then Ok (c, Some AlreadyFinished)
      else
        let c1 = SetDecision (sm_PeerID m) \<lparr>sd_Decision = sm_Decision m, sd_Signature = sm_Signature m\<rparr>
                   (c\<lparr>b_msgs := mput (sm_PeerID m) m (b_msgs c)\<rparr>)
        in obind (onSBACEvent e dt (GetDecisions c1)) (\<lambda>s. Ok (c1\<lparr>b_state := s\<rparr>, None)))"

definition NewSBACStateMachine :: "SBACOp \<Rightarrow> SBACStateMachine" where
  "NewSBACStateMachine phase = \<lparr>b_msgs = [], b_decisions = [], b_phase = phase, b_state = StateSBACWaiting\<rparr>"

section \<open>Laws\<close>

definition accepting :: "decisions \<Rightarrow> u64 list \<Rightarrow> u64 list" where
  "accepting ds nodes = filter (\<lambda>n. map_option sd_Decision (map_of ds n) = Some SBACDecision_ACCEPT) nodes"

definition rejecting :: "decisions \<Rightarrow> u64 list \<Rightarrow> u64 list" where
  "rejecting ds nodes = filter (\<lambda>n. \<exists>d. map_of ds n = Some d \<and> sd_Decision d \<noteq> SBACDecision_ACCEPT) nodes"

lemma count_answers_eq:
  "count_answers ds nodes = (of_nat (length (accepting ds nodes)), of_nat (length (rejecting ds nodes)))"
proof -
  have "fold (\<lambda>node (accepted, rejected).
       case map_of ds node of
         None \<Rightarrow> (accepted, rejected)
       | Some d \<Rightarrow> if sd_Decision d = SBACDecision_ACCEPT then (accepted + 1, rejected) else (accepted, rejected + 1))
       nodes (a, r) = (a + of_nat (length (accepting ds nodes)), r + of_nat (length (rejecting ds nodes)))" for a r :: u64
    by (induction nodes arbitrary: a r) (auto simp: accepting_def rejecting_def ac_simps split: option.splits)
  then show ?thesis by (simp add: count_answers_def)
qed

text \<open>A shard rejects with \<open>t + 1\<close> rejecting nodes and accepts when all its nodes do.\<close>

definition shard_rejects :: "env \<Rightarrow> decisions \<Rightarrow> u64 \<Rightarrow> bool" where
  "shard_rejects e ds v = (unat (shardSize_of e) div 3 + 1 \<le> length (rejecting ds (nodesInShard e v)))"

definition shard_accepts :: "env \<Rightarrow> decisions \<Rightarrow> u64 \<Rightarrow> bool" where
  "shard_accepts e ds v = (unat (shardSize_of e) \<le> length (accepting ds (nodesInShard e v)))"

text \<open>The counters do not wrap around: a shard has less than \<open>2\<^sup>6\<^sup>4\<close> nodes.\<close>

definition small_shards :: "env \<Rightarrow> bool" where
  "small_shards e \<longleftrightarrow> (\<forall>v. length (nodesInShard e v) < 2 ^ 64)"

lemma counter_ge:
  assumes "small_shards e"
  shows "x \<le> (of_nat (length (filter P (nodesInShard e v))) :: u64) \<longleftrightarrow> unat x \<le> length (filter P (nodesInShard e v))"
proof -
  have "length (filter P (nodesInShard e v)) < 2 ^ 64"
    using assms length_filter_le [of P "nodesInShard e v"] unfolding small_shards_def by (meson le_less_trans)
  then show ?thesis using unat_of_nat_small [where ?'a = 64] by (simp add: word_le_nat_alt)
qed

lemma shards_loop_eq:
  assumes "small_shards e"
  shows "shards_loop e ds vs p =
    (if \<exists>v \<in> set vs. shard_rejects e ds v then None else Some (p \<or> (\<exists>v \<in> set vs. \<not> shard_accepts e ds v)))"
proof (induction vs arbitrary: p)
  case (Cons v vs)
  have "quorumt1 (shardSize_of e) \<le> (of_nat (length (rejecting ds (nodesInShard e v))) :: u64) \<longleftrightarrow> shard_rejects e ds v"
    unfolding rejecting_def counter_ge [OF assms] by (simp add: shard_rejects_def rejecting_def quorumt1_unat)
  moreover have "shardSize_of e \<le> (of_nat (length (accepting ds (nodesInShard e v))) :: u64) \<longleftrightarrow> shard_accepts e ds v"
    unfolding accepting_def counter_ge [OF assms] by (simp add: shard_accepts_def accepting_def)
  ultimately show ?case by (simp add: count_answers_eq Cons.IH)
qed simp

text \<open>The check succeeds when every peer has a key, whatever the signatures are.\<close>

lemma check_signatures_ok:
  assumes "\<forall>kv \<in> set ds. mhas (pubkeys e) (fst kv)"
  shows "check_signatures e dt ds = Ok ()"
  using assms
proof (induction ds)
  case (Cons kv ds)
  then show ?case
    by (auto simp: check_signatures_def verifyTransactionSignature_def mhas_def Let_def split: prod.splits option.splits)
qed (simp add: check_signatures_def)

lemma check_signatures_panics:
  assumes "(k, d) \<in> set ds" "\<not> mhas (pubkeys e) k" "\<not> snd (marshalTx e (dt_Tx dt))"
  shows "check_signatures e dt ds = Panic NilDereference"
  using assms
proof (induction ds)
  case (Cons kv ds)
  then show ?case
    by (auto simp: check_signatures_def verifyTransactionSignature_def mhas_def Let_def split: prod.splits option.splits)
qed simp

text \<open>A shard of the right size cannot reject and accept on the same answers.\<close>

lemma not_both:
  assumes "length (nodesInShard e v) = unat (shardSize_of e)" and "shard_rejects e ds v"
  shows "\<not> shard_accepts e ds v"
proof
  assume acc: "shard_accepts e ds v"
  have "length (accepting ds ns) + length (rejecting ds ns) \<le> length ns" for ns
    by (induction ns) (auto simp: accepting_def rejecting_def)
  from this [of "nodesInShard e v"] acc assms show False
    by (simp add: shard_rejects_def shard_accepts_def)
qed

text \<open>The state of a machine that is not waiting any more is final.\<close>

lemma csm_final:
  "csm_processEvent e k d c = Ok (c', err) \<Longrightarrow> c_state c \<noteq> StateConsensusWaiting \<Longrightarrow> c' = c"
  by (auto simp: csm_processEvent_def split: if_splits)

lemma bsm_final:
  "bsm_processEvent e dt k m c = Ok (c', err) \<Longrightarrow> b_state c \<noteq> StateSBACWaiting \<Longrightarrow> c' = c"
  by (auto simp: bsm_processEvent_def split: if_splits)

section \<open>Property\<close>

text \<open>\<^bold>\<open>C21\<close>: the outcome of a voting phase depends only on the votes, not on the order in which the
  shards are visited. It is a rejection iff some other involved shard has at least \<open>t + 1\<close>
  rejecting nodes; otherwise it is an acceptance iff every other involved shard has answered with
  as many accepting nodes as the shard size; otherwise the phase goes on.\<close>

theorem vote_outcome:
  assumes "env_ok e" and "small_shards e" and "dt_Tx dt = Some tx"
    and "\<forall>kv \<in> set ds. mhas (pubkeys e) (fst kv)"
  shows "onSBACEvent e dt ds = Ok
    (if \<exists>v \<in> shardForVersionID e ` set (all_ids tx) - {shardID e}. shard_rejects e ds v then StateSBACRejected
     else if \<forall>v \<in> shardForVersionID e ` set (all_ids tx) - {shardID e}. shard_accepts e ds v then StateSBACAccepted
     else StateSBACWaiting)"
  unfolding other_shards(2) [OF assms(1), symmetric]
  using check_signatures_ok [OF assms(4)]
  by (auto simp: onSBACEvent_def deref_tx_def assms(3) shards_loop_eq [OF assms(2)] split: option.splits bool.splits)

definition demo_env :: env where
  "demo_env = \<lparr>nodeID = 1, shardID = 1, shardSize_of = 4,
     nodesInShard = (\<lambda>s. if s = 1 then [1, 3, 5, 7] else [2, 4, 6, 8]),
     shardForVersionID = (\<lambda>vid. if vid = [9] then 2 else 1),
     pubkeys = map (\<lambda>n. (n, \<lambda>m sig. True)) [1, 2, 3, 4, 5, 6, 7, 8],
     sign = (\<lambda>b. [1]), sha = demo_sha,
     marshalTx = (\<lambda>tx. ([], tx = None)), marshalSBAC = (\<lambda>m. ([2], False)), marshalConsensus = (\<lambda>m. ([3], False)),
     keyOrder = (\<lambda>ks. ks)\<rparr>"

definition demo_tx :: Transaction where
  "demo_tx = \<lparr>Traces = [Trace [1] [2] [[1], [9]] [] [\<lparr>oo_Labels = [[4]], oo_Object = [5]\<rparr>] [] [] [] [] []]\<rparr>"

definition demo_detail :: DetailTx where
  "demo_detail = \<lparr>dt_ID = [7], dt_RawTx = [], dt_Tx = Some demo_tx, dt_Evidences = [(1, [1])], dt_HashID = 0\<rparr>"

definition vote :: "SBACDecision \<Rightarrow> SignedDecision" where
  "vote d = \<lparr>sd_Decision = d, sd_Signature = []\<rparr>"

lemma demo_env_ok: "env_ok demo_env" "small_shards demo_env"
  by (simp_all add: env_ok_def small_shards_def demo_env_def)

theorem vote_outcome_witness:
  "onSBACEvent demo_env demo_detail [(2, vote SBACDecision_REJECT), (4, vote SBACDecision_ACCEPT), (8, vote SBACDecision_REJECT)]
     = Ok StateSBACRejected"
proof -
  have v: "shardForVersionID demo_env ` set (all_ids demo_tx) - {shardID demo_env} = {2}"
    by (auto simp: demo_env_def demo_tx_def all_ids_def)
  have r: "shard_rejects demo_env [(2, vote SBACDecision_REJECT), (4, vote SBACDecision_ACCEPT), (8, vote SBACDecision_REJECT)] 2"
    by (simp add: shard_rejects_def rejecting_def demo_env_def vote_def)
  have k: "\<forall>kv \<in> set [(2, vote SBACDecision_REJECT), (4, vote SBACDecision_ACCEPT), (8, vote SBACDecision_REJECT)].
      mhas (pubkeys demo_env) (fst kv)"
    by (simp add: demo_env_def mhas_def)
  have tx: "dt_Tx demo_detail = Some demo_tx" by (simp add: demo_detail_def)
  show ?thesis
    using vote_outcome [OF demo_env_ok tx k] unfolding v using r by simp
qed

text \<open>The outcome does not depend on the signatures of the votes: forged votes count.\<close>

lemma forged_votes_count:
  assumes "env_ok e" and "small_shards e" and "dt_Tx dt = Some tx" and "\<forall>kv \<in> set ds. mhas (pubkeys e) (fst kv)"
  shows "onSBACEvent e dt (map (\<lambda>kv. (fst kv, \<lparr>sd_Decision = sd_Decision (snd kv), sd_Signature = forged (fst kv)\<rparr>)) ds) =
    onSBACEvent e dt ds"
proof -
  let ?f = "\<lambda>kv. (fst kv, \<lparr>sd_Decision = sd_Decision (snd kv), sd_Signature = forged (fst kv)\<rparr>)"
  have m: "map_option sd_Decision (map_of (map ?f ds) n) = map_option sd_Decision (map_of ds n)" for n
    by (induction ds) auto
  have m': "(\<exists>d. map_of (map ?f ds) n = Some d \<and> sd_Decision d \<noteq> a) \<longleftrightarrow> (\<exists>d. map_of ds n = Some d \<and> sd_Decision d \<noteq> a)" for n a
    by (induction ds) auto
  have "shard_rejects e (map ?f ds) v = shard_rejects e ds v" "shard_accepts e (map ?f ds) v = shard_accepts e ds v" for v
    unfolding shard_rejects_def shard_accepts_def rejecting_def accepting_def m m' by simp_all
  then have l: "shards_loop e (map ?f ds) vs p = shards_loop e ds vs p" for vs p
    by (simp add: shards_loop_eq [OF assms(2)])
  have c: "check_signatures e dt (map ?f ds) = Ok ()" "check_signatures e dt ds = Ok ()"
    using assms(4) by (auto intro!: check_signatures_ok)
  show ?thesis unfolding onSBACEvent_def l c ..
qed

text \<open>A vote under an unknown peer number makes the node panic once the phase is accepted.\<close>

lemma unknown_peer_panics:
  assumes "env_ok e" and "small_shards e" and "dt_Tx dt = Some tx" and "\<not> snd (marshalTx e (Some tx))"
    and "(k, d) \<in> set ds" and "\<not> mhas (pubkeys e) k"
    and "\<forall>v \<in> shardForVersionID e ` set (all_ids tx) - {shardID e}. shard_accepts e ds v \<and> \<not> shard_rejects e ds v"
  shows "onSBACEvent e dt ds = Panic NilDereference"
proof -
  have "check_signatures e dt ds = Panic NilDereference"
    by (rule check_signatures_panics [OF assms(5,6)]) (simp add: assms(3,4))
  then show ?thesis
    using assms(7) unfolding other_shards(2) [OF assms(1), symmetric]
    by (auto simp: onSBACEvent_def deref_tx_def assms(3) shards_loop_eq [OF assms(2)])
qed

end
