(* ===== verification/SbacStates.thy ===== *)
theory SbacStates
  imports SbacPhases
begin

text \<open>
  The life of one transaction on a node: the states, the actions taken on an event and the
  transitions between states (\<open>sbac/states.go\<close>), and the machine that drives them
  (\<open>sbac/state_machine.go\<close>). A transition returns the world, the next state and its error; a
  failed transition keeps the changes it made before it failed. The loop of \<open>applyTransition\<close>
  ends because the table has no cycle; the loop of \<open>moveState\<close> need not end, so it is a partial
  function whose value \<open>None\<close> is a run that never returns.
\<close>

section \<open>States\<close>

datatype State =
    StateWaitingForConsensus1
  | StateObjectLocked
  | StateAcceptPhase1Broadcasted
  | StateRejectPhase1Broadcasted
  | StateWaitingForPhase1
  | StateConsensus2Triggered
  | StateWaitingForConsensus2
  | StateAcceptPhase2Broadcasted
  | StateRejectPhase2Broadcasted
  | StateWaitingForPhase2
  | StateObjectsDeactivated
  | StateObjectsCreated
  | StateCommitObjectsBroadcasted
  | StateWaitingForCommit
  | StateConsensusCommitTriggered
  | StateWaitingForConsensusCommit
  | StateAborted
  | StateSucceeded

fun State_String :: "State \<Rightarrow> string" where
  "State_String StateWaitingForConsensus1 = ''StateWaitingOnConsensus1''"
| "State_String StateObjectLocked = ''StateObjectLocked''"
| "State_String StateRejectPhase1Broadcasted = ''StateRejectPhase1Broadcasted''"
| "State_String StateAcceptPhase1Broadcasted = ''StateAcceptPhase1Broadcasted''"
| "State_String StateWaitingForPhase1 = ''StateWaitingForPhase1''"
| "State_String StateConsensus2Triggered = ''StateConsensus2Triggered''"
| "State_String StateWaitingForConsensus2 = ''StateWaitingForConsensus2''"
| "State_String StateAcceptPhase2Broadcasted = ''StateAcceptPhase2Broadcasted''"
| "State_String StateRejectPhase2Broadcasted = ''StateRejectPhase2Broadcasted''"
| "State_String StateWaitingForPhase2 = ''StateWaitingForPhase2''"
| "State_String StateObjectsDeactivated = ''StateObjectsDeactivated''"
| "State_String StateObjectsCreated = ''StateObjectsCreated''"
| "State_String StateSucceeded = ''StateSucceeded''"
| "State_String StateCommitObjectsBroadcasted = ''StateCommitObjectsBroadcasted''"
| "State_String StateConsensusCommitTriggered = ''StateConsensusCommitTriggered''"
| "State_String StateWaitingForCommit = ''StateWaitingForCommit''"
| "State_String StateWaitingForConsensusCommit = ''StateWaitingForConsensusCommit''"
| "State_String StateAborted = ''StateAborted''"

record States =
  st_consensus :: "(ConsensusOp, ConsensusStateMachine) gomap"
  st_sbac :: "(SBACOp, SBACStateMachine) gomap"
  st_detail :: DetailTx

section \<open>Actions\<close>

text \<open>An action reads the small machines and the store; none of them returns an error. Reading
  the state of a machine that is not in the map follows a nil pointer.\<close>

type_synonym Action = "States \<Rightarrow> world \<Rightarrow> State may_panic"

definition sbac_state :: "States \<Rightarrow> SBACOp \<Rightarrow> StateSBAC may_panic" where
  "sbac_state st p = (case map_of (st_sbac st) p of None \<Rightarrow> Panic NilDereference | Some c \<Rightarrow> Ok (b_state c))"

definition consensus_state :: "States \<Rightarrow> ConsensusOp \<Rightarrow> StateConsensus may_panic" where
  "consensus_state st p = (case map_of (st_consensus st) p of None \<Rightarrow> Panic NilDereference | Some c \<Rightarrow> Ok (c_state c))"

definition onWaitingForPhase1 :: "env \<Rightarrow> Action" where
  "onWaitingForPhase1 e st w = omap (\<lambda>s. case s of
      StateSBACRejected \<Rightarrow> StateAborted
    | StateSBACWaiting \<Rightarrow> StateWaitingForPhase1
    | _ \<Rightarrow> StateConsensus2Triggered) (sbac_state st SBACOp_Phase1)"

definition onWaitingForPhase2 :: "env \<Rightarrow> Action" where
  "onWaitingForPhase2 e st w = omap (\<lambda>s. case s of
      StateSBACRejected \<Rightarrow> StateAborted
    | StateSBACWaiting \<Rightarrow> StateWaitingForPhase2
    | _ \<Rightarrow> StateObjectsDeactivated) (sbac_state st SBACOp_Phase2)"

definition onWaitingForCommit :: "env \<Rightarrow> Action" where
  "onWaitingForCommit e st w = omap (\<lambda>s. case s of
      StateSBACRejected \<Rightarrow> StateAborted
    | StateSBACWaiting \<Rightarrow> StateWaitingForCommit
    | _ \<Rightarrow> StateConsensusCommitTriggered) (sbac_state st SBACOp_Commit)"

text \<open>The loop over the traces: every input and reference of this shard must exist and be
  consumable.\<close>

fun check_inputs :: "env \<Rightarrow> Trace list \<Rightarrow> db \<Rightarrow> bool may_panic" where
  "check_inputs e [] d = Ok True"
| "check_inputs e (trace # traces) d =
     obind (objectsExists e (InputObjectVersionIDs trace) (InputReferenceVersionIDs trace) d) (\<lambda>r.
       case r of
         None \<Rightarrow> Ok False
       | Some objects \<Rightarrow>
           if list_ex (\<lambda>v. Status v = ObjectStatus_INACTIVE) objects then Ok False
           else check_inputs e traces d)"

definition onWaitingForConsensus1 :: "env \<Rightarrow> Action" where
  "onWaitingForConsensus1 e st w =
     obind (consensus_state st ConsensusOp_Consensus1) (\<lambda>state.
       if state = StateConsensusWaiting then Ok StateWaitingForConsensus1
       else if state = StateConsensusRejected then Ok StateRejectPhase1Broadcasted
       else obind (deref_tx (dt_Tx (st_detail st))) (\<lambda>tx.
         omap (\<lambda>ok. if ok then StateObjectLocked else StateRejectPhase1Broadcasted)
           (check_inputs e (Traces tx) (w_store w))))"

definition onWaitingForConsensus2 :: "env \<Rightarrow> Action" where
  "onWaitingForConsensus2 e st w =
     omap (\<lambda>state. if state = StateConsensusWaiting then StateWaitingForConsensus2
       else if state = StateConsensusRejected then StateRejectPhase2Broadcasted
       else StateAcceptPhase2Broadcasted) (consensus_state st ConsensusOp_Consensus2)"

definition onWaitingForConsensusCommit :: "env \<Rightarrow> Action" where
  "onWaitingForConsensusCommit e st w =
     omap (\<lambda>state. if state = StateConsensusWaiting then StateWaitingForConsensusCommit
       else if state = StateConsensusRejected then StateAborted
       else StateObjectsCreated) (consensus_state st ConsensusOp_ConsensusCommit)"

section \<open>Transitions\<close>

datatype trans_err = ErrCreate store_err | ErrMarshalConsensus

type_synonym Transition = "States \<Rightarrow> world \<Rightarrow> (world \<times> State \<times> trans_err option) may_panic"

text \<open>A call on the store: its error is handed to the caller, its effect goes to the world.\<close>

definition on_store :: "(db \<Rightarrow> db store_op) \<Rightarrow> world \<Rightarrow> (world \<times> store_err option) may_panic" where
  "on_store f w = (case f (w_store w) of
      Ok d \<Rightarrow> Ok (w\<lparr>w_store := d\<rparr>, None)
    | Err x \<Rightarrow> Ok (w, Some x)
    | Panic r \<Rightarrow> Panic r)"

definition toObjectLocked :: "env \<Rightarrow> Transition" where
  "toObjectLocked e st w =
     obind (deref_tx (dt_Tx (st_detail st))) (\<lambda>tx.
       let (objects, allInShard) = inputObjectsForShard e tx in
       obind (on_store (LockObjects objects) w) (\<lambda>(w1, err).
         if err \<noteq> None then Ok (w1, StateAborted, None)
         else if allInShard then Ok (w1, StateObjectsDeactivated, None)
         else Ok (w1, StateAcceptPhase1Broadcasted, None)))"

definition signSBACMessage :: "env \<Rightarrow> SBACOp \<Rightarrow> SBACDecision \<Rightarrow> States \<Rightarrow> Message option" where
  "signSBACMessage e sbacphase decision st =
     (case signTransaction e (dt_Tx (st_detail st)) of
        None \<Rightarrow> None
      | Some signature \<Rightarrow>
          let sbacmsg = \<lparr>sm_Op = sbacphase, sm_Decision = decision, sm_TxID = dt_ID (st_detail st),
                sm_Tx = dt_Tx (st_detail st), sm_Evidences = dt_Evidences (st_detail st),
                sm_Signature = signature, sm_PeerID = nodeID e\<rparr>;
              (payload, err) = marshalSBAC e sbacmsg
          in if err then None
             else Some \<lparr>msg_ID = 0, msg_Error = [], msg_Opcode = Opcode_SBAC, msg_Payload = payload\<rparr>)"

definition toRejectPhase1Broadcasted :: "env \<Rightarrow> Transition" where
  "toRejectPhase1Broadcasted e st w =
     (case signSBACMessage e SBACOp_Phase1 SBACDecision_REJECT st of
        None \<Rightarrow> Ok (w, StateAborted, None)
      | Some msg \<Rightarrow> omap (\<lambda>w1. (w1, StateAborted, None)) (sendToAllShardInvolved e (st_detail st) msg w))"

definition toAcceptPhase1Broadcasted :: "env \<Rightarrow> Transition" where
  "toAcceptPhase1Broadcasted e st w =
     (case signSBACMessage e SBACOp_Phase1 SBACDecision_ACCEPT st of
        None \<Rightarrow> Ok (w, StateAborted, None)
      | Some msg \<Rightarrow> omap (\<lambda>w1. (w1, StateWaitingForPhase1, None)) (sendToAllShardInvolved e (st_detail st) msg w))"

definition toRejectPhase2Broadcasted :: "env \<Rightarrow> Transition" where
  "toRejectPhase2Broadcasted e st w =
     (case signSBACMessage e SBACOp_Phase2 SBACDecision_REJECT st of
        None \<Rightarrow> Ok (w, StateAborted, None)
      | Some msg \<Rightarrow> omap (\<lambda>w1. (w1, StateAborted, None)) (sendToAllShardInvolved e (st_detail st) msg w))"

definition toAcceptPhase2Broadcasted :: "env \<Rightarrow> Transition" where
  "toAcceptPhase2Broadcasted e st w =
     (case signSBACMessage e SBACOp_Phase2 SBACDecision_ACCEPT st of
        None \<Rightarrow> Ok (w, StateAborted, None)
      | Some msg \<Rightarrow> omap (\<lambda>w1. (w1, StateWaitingForPhase2, None)) (sendToAllShardInvolved e (st_detail st) msg w))"

text \<open>The shards that get a new object and were not involved by an input.\<close>

definition new_shards :: "env \<Rightarrow> Transaction \<Rightarrow> u64 list" where
  "new_shards e tx =
     (let shardsUniq = toUniqIds (shardsInvolved e tx);
          outs = concat (map top_OutputObjects (ids_TraceObjectPairs (MakeIDs (sha e) tx)));
          shardsInvolvedUniq = fold (\<lambda>ob m. let shard = shardForVersionID e (VersionID ob) in
            if mhas shardsUniq shard then m else mput shard () m) outs []
      in fromUniqIds e shardsInvolvedUniq)"

definition toCommitObjectsBroadcasted :: "env \<Rightarrow> Transition" where
  "toCommitObjectsBroadcasted e st w =
     (case signSBACMessage e SBACOp_Commit SBACDecision_ACCEPT st of
        None \<Rightarrow> Ok (w, StateAborted, None)
      | Some msg \<Rightarrow> obind (deref_tx (dt_Tx (st_detail st))) (\<lambda>tx.
          let shards = new_shards e tx in
          Ok (if length shards > 0 then sendToShards e shards msg w else w, StateSucceeded, None)))"

definition toWaitingForPhase1 :: "env \<Rightarrow> Transition" where
  "toWaitingForPhase1 e st w = Ok (w, StateWaitingForPhase1, None)"

definition toWaitingForPhase2 :: "env \<Rightarrow> Transition" where
  "toWaitingForPhase2 e st w = Ok (w, StateWaitingForPhase2, None)"

definition toObjectDeactivated :: "env \<Rightarrow> Transition" where
  "toObjectDeactivated e st w =
     obind (deref_tx (dt_Tx (st_detail st))) (\<lambda>tx.
       let (objects, _) = inputObjectsForShard e tx in
       obind (on_store (DeactivateObjects objects) w) (\<lambda>(w1, err).
         if err \<noteq> None then Ok (w1, StateAborted, None)
         else Ok (w1, StateObjectsCreated, None)))"

definition toObjectsCreated :: "env \<Rightarrow> Transition" where
  "toObjectsCreated e st w =
     obind (deref_tx (dt_Tx (st_detail st))) (\<lambda>tx.
       let outs = concat (map top_OutputObjects (MakeTraceObjectPairs (sha e) (MakeTraceIDs (sha e) (Traces tx))));
           objects = filter (\<lambda>ob. in_shard e (VersionID ob)) outs;
           allObjectsInCurrentShard = list_all (\<lambda>ob. in_shard e (VersionID ob)) outs
       in obind (on_store (CreateObjects objects) w) (\<lambda>(w1, err).
         case err of
           Some x \<Rightarrow> Ok (w1, StateAborted, Some (ErrCreate x))
         | None \<Rightarrow> Ok (w1, if allObjectsInCurrentShard then StateSucceeded else StateCommitObjectsBroadcasted, None)))"

definition toSucceeded :: "env \<Rightarrow> Transition" where
  "toSucceeded e st w =
     obind (on_store (FinishTransaction (dt_ID (st_detail st))) w) (\<lambda>(w1, _).
     obind (deref_tx (dt_Tx (st_detail st))) (\<lambda>tx.
       let ids = MakeIDs (sha e) tx in
       Ok (publishObjects e ids True (saveLabels e ids w1), StateSucceeded, None)))"

definition toAborted :: "env \<Rightarrow> Transition" where
  "toAborted e st w =
     obind (deref_tx (dt_Tx (st_detail st))) (\<lambda>tx.
       let (objects, _) = inputObjectsForShard e tx in
       obind (on_store (UnlockObjects objects) w) (\<lambda>(w1, _).
       obind (on_store (FinishTransaction (dt_ID (st_detail st))) w1) (\<lambda>(w2, _).
         let ids = MakeIDs (sha e) tx in
         Ok (publishObjects e ids False w2, StateAborted, None))))"

text \<open>The node that broadcasts is chosen by the hash of the transaction; the error of the
  broadcaster is ignored.\<close>

definition trigger_consensus :: "env \<Rightarrow> ConsensusOp \<Rightarrow> State \<Rightarrow> Transition" where
  "trigger_consensus e p next st w =
     obind (isNodeInitiatingBroadcast e (dt_HashID (st_detail st))) (\<lambda>initiate.
       if initiate then
         let consensusTx = \<lparr>ct_TxID = dt_ID (st_detail st), ct_Tx = dt_Tx (st_detail st),
               ct_Evidences = dt_Evidences (st_detail st), ct_Op = p, ct_Initiator = nodeID e\<rparr>;
             (b, err) = marshalConsensus e consensusTx
         in if err then Ok (w, StateAborted, Some ErrMarshalConsensus)
            else Ok (w\<lparr>w_broadcast := w_broadcast w @ [(b, 0)]\<rparr>, next, None)
       else Ok (w, next, None))"

definition toConsensus2Triggered :: "env \<Rightarrow> Transition" where
  "toConsensus2Triggered e = trigger_consensus e ConsensusOp_Consensus2 StateWaitingForConsensus2"

definition toConsensusCommitTriggered :: "env \<Rightarrow> Transition" where
  "toConsensusCommitTriggered e = trigger_consensus e ConsensusOp_ConsensusCommit StateWaitingForConsensusCommit"

definition toWaitingForConsensusCommit :: "env \<Rightarrow> Transition" where
  "toWaitingForConsensusCommit e st w = Ok (w, StateWaitingForConsensusCommit, None)"

definition toWaitingForConsensus2 :: "env \<Rightarrow> Transition" where
  "toWaitingForConsensus2 e st w = Ok (w, StateWaitingForConsensus2, None)"

section \<open>The table\<close>

definition actions :: "env \<Rightarrow> (State, Action) gomap" where
  "actions e =
     [(StateWaitingForConsensus1, onWaitingForConsensus1 e),
      (StateWaitingForConsensus2, onWaitingForConsensus2 e),
      (StateWaitingForPhase1, onWaitingForPhase1 e),
      (StateWaitingForPhase2, onWaitingForPhase2 e),
      (StateWaitingForCommit, onWaitingForCommit e),
      (StateWaitingForConsensusCommit, onWaitingForConsensusCommit e)]"

definition transitions :: "env \<Rightarrow> (State \<times> State, Transition) gomap" where
  "transitions e =
     [((StateWaitingForConsensus1, StateRejectPhase1Broadcasted), toRejectPhase1Broadcasted e),
      ((StateRejectPhase1Broadcasted, StateAborted), toAborted e),
      ((StateObjectLocked, StateAborted), toAborted e),
      ((StateObjectLocked, StateObjectsDeactivated), toObjectDeactivated e),
      ((StateObjectsDeactivated, StateObjectsCreated), toObjectsCreated e),
      ((StateObjectsCreated, StateSucceeded), toSucceeded e),
      ((StateWaitingForConsensus1, StateObjectLocked), toObjectLocked e),
      ((StateObjectLocked, StateAcceptPhase1Broadcasted), toAcceptPhase1Broadcasted e),
      ((StateAcceptPhase1Broadcasted, StateWaitingForPhase1), toWaitingForPhase1 e),
      ((StateWaitingForPhase1, StateAborted), toAborted e),
      ((StateWaitingForPhase1, StateConsensus2Triggered), toConsensus2Triggered e),
      ((StateConsensus2Triggered, StateWaitingForConsensus2), toWaitingForConsensus2 e),
      ((StateWaitingForConsensus2, StateAcceptPhase2Broadcasted), toAcceptPhase2Broadcasted e),
      ((StateWaitingForConsensus2, StateRejectPhase2Broadcasted), toRejectPhase2Broadcasted e),
      ((StateRejectPhase2Broadcasted, StateAborted), toAborted e),
      ((StateAcceptPhase2Broadcasted, StateWaitingForPhase2), toWaitingForPhase2 e),
      ((StateWaitingForPhase2, StateAborted), toAborted e),
      ((StateWaitingForPhase2, StateObjectsDeactivated), toObjectDeactivated e),
      ((StateObjectsCreated, StateCommitObjectsBroadcasted), toCommitObjectsBroadcasted e),
      ((StateCommitObjectsBroadcasted, StateAborted), toAborted e),
      ((StateCommitObjectsBroadcasted, StateSucceeded), toSucceeded e),
      ((StateWaitingForCommit, StateConsensusCommitTriggered), toConsensusCommitTriggered e),
      ((StateWaitingForCommit, StateAborted), toAborted e),
      ((StateConsensusCommitTriggered, StateWaitingForConsensusCommit), toWaitingForConsensusCommit e),
      ((StateWaitingForConsensusCommit, StateObjectsCreated), toObjectsCreated e),
      ((StateWaitingForConsensusCommit, StateAborted), toAborted e)]"

text \<open>Every edge of the table leads to a state of smaller rank.\<close>

fun state_rank :: "State \<Rightarrow> nat" where
  "state_rank StateWaitingForConsensus1 = 11"
| "state_rank StateObjectLocked = 10"
| "state_rank StateAcceptPhase1Broadcasted = 9"
| "state_rank StateWaitingForPhase1 = 8"
| "state_rank StateConsensus2Triggered = 7"
| "state_rank StateWaitingForConsensus2 = 6"
| "state_rank StateAcceptPhase2Broadcasted = 5"
| "state_rank StateWaitingForPhase2 = 4"
| "state_rank StateWaitingForCommit = 5"
| "state_rank StateConsensusCommitTriggered = 4"
| "state_rank StateWaitingForConsensusCommit = 3"
| "state_rank StateObjectsDeactivated = 3"
| "state_rank StateObjectsCreated = 2"
| "state_rank StateRejectPhase1Broadcasted = 1"
| "state_rank StateRejectPhase2Broadcasted = 1"
| "state_rank StateCommitObjectsBroadcasted = 1"
| "state_rank StateAborted = 0"
| "state_rank StateSucceeded = 0"

lemma transitions_descend: "map_of (transitions e) (a, b) = Some f \<Longrightarrow> state_rank b < state_rank a"
  by (drule map_of_SomeD) (auto simp: transitions_def)

section \<open>Driving the machine\<close>

text \<open>The loop of \<open>applyTransition\<close>, with the state of the machine as an argument; the result has
  the state the machine is left in.\<close>

function applyTransition :: "env \<Rightarrow> States \<Rightarrow> State \<Rightarrow> State \<Rightarrow> world \<Rightarrow> (world \<times> State \<times> trans_err option) may_panic" where
  "applyTransition e st curState transitionTo w =
     (case map_of (transitions e) (curState, transitionTo) of
        None \<Rightarrow> Ok (w, curState, None)
      | Some f \<Rightarrow> obind (f st w) (\<lambda>r.
          case snd (snd r) of
            Some err \<Rightarrow> Ok (fst r, curState, Some err)
          | None \<Rightarrow> applyTransition e st transitionTo (fst (snd r)) (fst r)))"
  by pat_completeness auto

termination applyTransition
  by (relation "measure (\<lambda>(e, st, cur, to, w). state_rank cur)") (auto dest: transitions_descend)

declare applyTransition.simps [simp del]

partial_function (option) moveState :: "env \<Rightarrow> States \<Rightarrow> State \<Rightarrow> world \<Rightarrow> ((world \<times> State) may_panic) option" where
  "moveState e st curState w =
     (case map_of (actions e) curState of
        None \<Rightarrow> Some (Ok (w, curState))
      | Some action \<Rightarrow>
          (case action st w of
             Panic r \<Rightarrow> Some (Panic r)
           | Err u \<Rightarrow> Some (Err u)
           | Ok newstate \<Rightarrow>
               if newstate = curState then Some (Ok (w, curState))
               else if mhas (transitions e) (curState, newstate) then
                 (case applyTransition e st curState newstate w of
                    Panic r \<Rightarrow> Some (Panic r)
                  | Err u \<Rightarrow> Some (Err u)
                  | Ok r \<Rightarrow> moveState e st (fst (snd r)) (fst r))
               else moveState e st newstate w))"

section \<open>Events\<close>

definition sm_processEvent :: "env \<Rightarrow> Event \<Rightarrow> States \<Rightarrow> (States \<times> event_err option) may_panic" where
  "sm_processEvent e rawe st =
     (if Event_TxID rawe \<noteq> dt_ID (st_detail st) then Ok (st, Some OtherTransaction)
      else case Event_Kind rawe of
        EventKindConsensus \<Rightarrow>
          (case rawe of
             SBACEvent k m \<Rightarrow> Panic TypeAssertion
           | ConsensusEvent k d \<Rightarrow>
               (case map_of (st_consensus st) (ct_Op d) of
                  None \<Rightarrow> Panic NilDereference
                | Some c \<Rightarrow> omap (\<lambda>r. (st\<lparr>st_consensus := mput (ct_Op d) (fst r) (st_consensus st)\<rparr>, None))
                    (csm_processEvent e k d c)))
      | EventKindSBACMessage \<Rightarrow>
          (case rawe of
             ConsensusEvent k d \<Rightarrow> Panic TypeAssertion
           | SBACEvent k m \<Rightarrow>
               (case map_of (st_sbac st) (sm_Op m) of
                  None \<Rightarrow> Panic NilDereference
                | Some c \<Rightarrow> omap (\<lambda>r. (st\<lparr>st_sbac := mput (sm_Op m) (fst r) (st_sbac st)\<rparr>, None))
                    (bsm_processEvent e (st_detail st) k m c))))"

record StateMachine =
  m_states :: States
  m_state :: State
  m_events :: "Event list"

text \<open>The callback always reports the event as consumed.\<close>

definition consumeEvent :: "env \<Rightarrow> Event \<Rightarrow> StateMachine \<Rightarrow> world \<Rightarrow> ((StateMachine \<times> world) may_panic) option" where
  "consumeEvent e ev sm w =
     (case sm_processEvent e ev (m_states sm) of
        Panic r \<Rightarrow> Some (Panic r)
      | Err u \<Rightarrow> Some (Err u)
      | Ok (st, _) \<Rightarrow>
          if m_state sm = StateSucceeded \<or> m_state sm = StateAborted then Some (Ok (sm\<lparr>m_states := st\<rparr>, w))
          else map_option (omap (\<lambda>(w1, cur). (sm\<lparr>m_states := st, m_state := cur\<rparr>, w1))) (moveState e st (m_state sm) w))"

definition OnEvent :: "Event \<Rightarrow> StateMachine \<Rightarrow> StateMachine" where
  "OnEvent ev sm = sm\<lparr>m_events := m_events sm @ [ev]\<rparr>"

definition NewStateMachine :: "DetailTx \<Rightarrow> State \<Rightarrow> StateMachine" where
  "NewStateMachine detail initialState =
     \<lparr>m_states = \<lparr>st_consensus =
        [(ConsensusOp_Consensus1, NewConsensuStateMachine ConsensusOp_Consensus1),
         (ConsensusOp_Consensus2, NewConsensuStateMachine ConsensusOp_Consensus2),
         (ConsensusOp_ConsensusCommit, NewConsensuStateMachine ConsensusOp_ConsensusCommit)],
       st_sbac =
        [(SBACOp_Phase1, NewSBACStateMachine SBACOp_Phase1),
         (SBACOp_Phase2, NewSBACStateMachine SBACOp_Phase2),
         (SBACOp_Commit, NewSBACStateMachine SBACOp_Commit)],
       st_detail = detail\<rparr>,
      m_state = initialState, m_events = []\<rparr>"

record StateReport =
  sr_HashID :: u32
  sr_CommitDecisions :: "(u64, bool) gomap"
  sr_Phase1Decisions :: "(u64, bool) gomap"
  sr_Phase2Decisions :: "(u64, bool) gomap"
  sr_State :: string
  sr_PendingEvents :: u32

definition decisions_report :: "States \<Rightarrow> SBACOp \<Rightarrow> ((u64, bool) gomap) may_panic" where
  "decisions_report st p =
     (case map_of (st_sbac st) p of
        None \<Rightarrow> Panic NilDereference
      | Some c \<Rightarrow> Ok (map (\<lambda>(k, v). (k, sd_Decision v = SBACDecision_ACCEPT)) (GetDecisions c)))"

definition sm_StateReport :: "StateMachine \<Rightarrow> StateReport may_panic" where
  "sm_StateReport sm =
     obind (decisions_report (m_states sm) SBACOp_Commit) (\<lambda>commit.
     obind (decisions_report (m_states sm) SBACOp_Phase1) (\<lambda>phase1.
     obind (decisions_report (m_states sm) SBACOp_Phase2) (\<lambda>phase2.
       Ok \<lparr>sr_HashID = dt_HashID (st_detail (m_states sm)), sr_CommitDecisions = commit,
           sr_Phase1Decisions = phase1, sr_Phase2Decisions = phase2,
           sr_State = State_String (m_state sm), sr_PendingEvents = of_nat (length (m_events sm))\<rparr>)))"

end
