(* ===== verification/SbacEffects.thy ===== *)
theory SbacEffects
  imports SbacStates
begin

text \<open>
  What each transition of a transaction does to the object store: a transition runs a list of
  store commands that depends on its target state only.
\<close>

section \<open>Effects of the transitions\<close>

named_theorems trans_defs \<open>definitions of the transitions\<close>

lemmas [trans_defs] = toObjectLocked_def toRejectPhase1Broadcasted_def toAcceptPhase1Broadcasted_def
  toRejectPhase2Broadcasted_def toAcceptPhase2Broadcasted_def toCommitObjectsBroadcasted_def
  toWaitingForPhase1_def toWaitingForPhase2_def toObjectDeactivated_def toObjectsCreated_def
  toSucceeded_def toAborted_def toConsensus2Triggered_def toConsensusCommitTriggered_def
  toWaitingForConsensusCommit_def toWaitingForConsensus2_def

text \<open>The objects of this shard that a transaction creates.\<close>

definition tx_outputs :: "env \<Rightarrow> Transaction \<Rightarrow> Object list" where
  "tx_outputs e tx = local_outputs e (MakeIDs (sha e) tx)"

lemma tx_outputs_eq:
  "filter (\<lambda>ob. in_shard e (VersionID ob))
     (concat (map top_OutputObjects (MakeTraceObjectPairs (sha e) (MakeTraceIDs (sha e) (Traces tx))))) = tx_outputs e tx"
  by (simp add: tx_outputs_def local_outputs_def MakeIDs_def Let_def)

text \<open>The commands a transition to a state runs on the store.\<close>

fun target_cmds :: "env \<Rightarrow> bytes \<Rightarrow> Transaction \<Rightarrow> State \<Rightarrow> store_cmd list" where
  "target_cmds e i tx StateObjectLocked = [CmdLock (local_inputs e tx)]"
| "target_cmds e i tx StateObjectsDeactivated = [CmdDeactivate (local_inputs e tx)]"
| "target_cmds e i tx StateObjectsCreated = [CmdCreate (tx_outputs e tx)]"
| "target_cmds e i tx StateSucceeded = [CmdFinish i]"
| "target_cmds e i tx StateAborted = [CmdUnlock (local_inputs e tx), CmdFinish i]"
| "target_cmds e i tx _ = []"

definition trans_cmds :: "env \<Rightarrow> DetailTx \<Rightarrow> State \<Rightarrow> store_cmd list" where
  "trans_cmds e dt to = (case dt_Tx dt of None \<Rightarrow> [] | Some tx \<Rightarrow> target_cmds e (dt_ID dt) tx to)"

lemma cmd_eqs:
  "LockObjects ks = exec_cmd (CmdLock ks)" "UnlockObjects ks = exec_cmd (CmdUnlock ks)"
  "DeactivateObjects ks = exec_cmd (CmdDeactivate ks)" "CreateObjects objs = exec_cmd (CmdCreate objs)"
  "FinishTransaction i = exec_cmd (CmdFinish i)"
  by (auto simp: fun_eq_iff)

lemma on_store_run: "on_store (exec_cmd c) w = Ok (w1, err) \<Longrightarrow> w_store w1 = run_cmd c (w_store w)"
  by (auto simp: on_store_def run_cmd_def split: outcome.splits)

lemma on_store_None: "on_store f w = Ok (w1, None) \<longleftrightarrow> (\<exists>d. f (w_store w) = Ok d \<and> w1 = w\<lparr>w_store := d\<rparr>)"
  by (auto simp: on_store_def split: outcome.splits)

lemma on_store_Some: "on_store f w = Ok (w1, Some x) \<longleftrightarrow> f (w_store w) = Err x \<and> w1 = w"
  by (auto simp: on_store_def split: outcome.splits)

lemma deref_tx_Ok [outcome_simps]: "deref_tx p = Ok tx \<longleftrightarrow> p = Some tx"
  by (auto simp: deref_tx_def split: option.splits)

lemma toObjectLocked_store:
  "toObjectLocked e st w = Ok (w1, next, err) \<Longrightarrow> w_store w1 = fold run_cmd (trans_cmds e (st_detail st) StateObjectLocked) (w_store w)"
  by (auto simp: trans_defs trans_cmds_def outcome_simps inputObjectsForShard_eq cmd_eqs split: if_splits dest!: on_store_run)

lemma toObjectDeactivated_store:
  "toObjectDeactivated e st w = Ok (w1, next, err) \<Longrightarrow> w_store w1 = fold run_cmd (trans_cmds e (st_detail st) StateObjectsDeactivated) (w_store w)"
  by (auto simp: trans_defs trans_cmds_def outcome_simps inputObjectsForShard_eq cmd_eqs split: if_splits dest!: on_store_run)

lemma toObjectsCreated_store:
  "toObjectsCreated e st w = Ok (w1, next, err) \<Longrightarrow> w_store w1 = fold run_cmd (trans_cmds e (st_detail st) StateObjectsCreated) (w_store w)"
  by (auto simp: trans_defs trans_cmds_def outcome_simps tx_outputs_eq cmd_eqs Let_def split: if_splits option.splits dest!: on_store_run)

lemma toSucceeded_store:
  "toSucceeded e st w = Ok (w1, next, err) \<Longrightarrow> w_store w1 = fold run_cmd (trans_cmds e (st_detail st) StateSucceeded) (w_store w)"
  by (auto simp: trans_defs trans_cmds_def outcome_simps cmd_eqs Let_def dest!: on_store_run)

lemma toAborted_store:
  "toAborted e st w = Ok (w1, next, err) \<Longrightarrow> w_store w1 = fold run_cmd (trans_cmds e (st_detail st) StateAborted) (w_store w)"
  by (auto simp: trans_defs trans_cmds_def outcome_simps inputObjectsForShard_eq cmd_eqs Let_def dest!: on_store_run)

lemma sendToAll_store: "sendToAllShardInvolved e dt msg w = Ok w1 \<Longrightarrow> w_store w1 = w_store w"
  by (auto simp: sendToAllShardInvolved_def outcome_simps)

lemma trigger_store: "trigger_consensus e p next st w = Ok (w1, n, err) \<Longrightarrow> w_store w1 = w_store w"
  by (auto simp: trigger_consensus_def outcome_simps Let_def split: if_splits prod.splits)

lemma no_cmds: "to \<notin> {StateObjectLocked, StateObjectsDeactivated, StateObjectsCreated, StateSucceeded, StateAborted} \<Longrightarrow>
    trans_cmds e dt to = []"
  by (cases to) (auto simp: trans_cmds_def split: option.splits)

lemma quiet_transitions:
  "toRejectPhase1Broadcasted e st w = Ok (w1, next, err) \<Longrightarrow> w_store w1 = w_store w"
  "toAcceptPhase1Broadcasted e st w = Ok (w1, next, err) \<Longrightarrow> w_store w1 = w_store w"
  "toRejectPhase2Broadcasted e st w = Ok (w1, next, err) \<Longrightarrow> w_store w1 = w_store w"
  "toAcceptPhase2Broadcasted e st w = Ok (w1, next, err) \<Longrightarrow> w_store w1 = w_store w"
  "toCommitObjectsBroadcasted e st w = Ok (w1, next, err) \<Longrightarrow> w_store w1 = w_store w"
  "toWaitingForPhase1 e st w = Ok (w1, next, err) \<Longrightarrow> w_store w1 = w_store w"
  "toWaitingForPhase2 e st w = Ok (w1, next, err) \<Longrightarrow> w_store w1 = w_store w"
  "toConsensus2Triggered e st w = Ok (w1, next, err) \<Longrightarrow> w_store w1 = w_store w"
  "toConsensusCommitTriggered e st w = Ok (w1, next, err) \<Longrightarrow> w_store w1 = w_store w"
  "toWaitingForConsensusCommit e st w = Ok (w1, next, err) \<Longrightarrow> w_store w1 = w_store w"
  "toWaitingForConsensus2 e st w = Ok (w1, next, err) \<Longrightarrow> w_store w1 = w_store w"
  by (auto simp: trans_defs outcome_simps Let_def split: option.splits dest!: sendToAll_store trigger_store)

text \<open>The target of a transition determines its function, hence its effect.\<close>

fun toward :: "env \<Rightarrow> State \<Rightarrow> Transition" where
  "toward e StateObjectLocked = toObjectLocked e"
| "toward e StateAcceptPhase1Broadcasted = toAcceptPhase1Broadcasted e"
| "toward e StateRejectPhase1Broadcasted = toRejectPhase1Broadcasted e"
| "toward e StateWaitingForPhase1 = toWaitingForPhase1 e"
| "toward e StateConsensus2Triggered = toConsensus2Triggered e"
| "toward e StateWaitingForConsensus2 = toWaitingForConsensus2 e"
| "toward e StateAcceptPhase2Broadcasted = toAcceptPhase2Broadcasted e"
| "toward e StateRejectPhase2Broadcasted = toRejectPhase2Broadcasted e"
| "toward e StateWaitingForPhase2 = toWaitingForPhase2 e"
| "toward e StateObjectsDeactivated = toObjectDeactivated e"
| "toward e StateObjectsCreated = toObjectsCreated e"
| "toward e StateCommitObjectsBroadcasted = toCommitObjectsBroadcasted e"
| "toward e StateConsensusCommitTriggered = toConsensusCommitTriggered e"
| "toward e StateWaitingForConsensusCommit = toWaitingForConsensusCommit e"
| "toward e StateSucceeded = toSucceeded e"
| "toward e _ = toAborted e"

lemma transitions_toward: "map_of (transitions e) (a, b) = Some f \<Longrightarrow> f = toward e b"
  by (drule map_of_SomeD) (auto simp: transitions_def)

lemma not_target: "map_of (transitions e) (a, StateWaitingForConsensus1) = None" "map_of (transitions e) (a, StateWaitingForCommit) = None"
  by (auto simp: transitions_def)

lemma transition_store:
  assumes "map_of (transitions e) (a, b) = Some f" and "f st w = Ok (w1, next, err)"
  shows "w_store w1 = fold run_cmd (trans_cmds e (st_detail st) b) (w_store w)"
proof -
  have f: "toward e b st w = Ok (w1, next, err)" using transitions_toward [OF assms(1)] assms(2) by simp
  show ?thesis
    using f assms(1) not_target
    by (cases b) (auto simp: no_cmds dest: toObjectLocked_store toObjectDeactivated_store toObjectsCreated_store
        toSucceeded_store toAborted_store quiet_transitions)
qed

lemma apply_store:
  "applyTransition e st a b w = Ok (w1, c, err) \<Longrightarrow> \<exists>cmds. w_store w1 = fold run_cmd cmds (w_store w)"
proof (induction e st a b w rule: applyTransition.induct)
  case (1 e st a b w)
  show ?case
  proof (cases "map_of (transitions e) (a, b)")
    case None
    with "1.prems" show ?thesis by (auto simp: applyTransition.simps [of e st a b w] intro: exI [of _ "[]"])
  next
    case (Some f)
    with "1.prems" obtain w2 nx err2 where f: "f st w = Ok (w2, nx, err2)"
      by (auto simp: applyTransition.simps [of e st a b w] outcome_simps)
    note eff = transition_store [OF Some f]
    show ?thesis
    proof (cases err2)
      case None
      with "1.prems" Some f have "applyTransition e st b nx w2 = Ok (w1, c, err)"
        by (simp add: applyTransition.simps [of e st a b w])
      with "1.IH" [OF Some f] None obtain cmds where "w_store w1 = fold run_cmd cmds (w_store w2)" by auto
      then have "w_store w1 = fold run_cmd (trans_cmds e (st_detail st) b @ cmds) (w_store w)" by (simp add: eff)
      then show ?thesis by blast
    next
      case (Some x)
      with "1.prems" \<open>map_of _ _ = Some f\<close> f have "w1 = w2" by (simp add: applyTransition.simps [of e st a b w])
      with eff show ?thesis by blast
    qed
  qed
qed

end
