(* ===== verification/SbacRun.thy ===== *)
theory SbacRun
  imports SbacEffects
begin

text \<open>
  Laws of one machine: when \<open>moveState\<close> returns, and the runs of a transaction whose objects are
  all in one shard.
\<close>

section \<open>When the machine comes to rest\<close>

text \<open>Only two kinds of transition can fail: creating objects that exist, and broadcasting a
  transaction that cannot be encoded.\<close>

lemma transition_err:
  assumes "map_of (transitions e) (a, b) = Some f" and "f st w = Ok (w1, nx, Some x)"
    and "\<And>ct. \<not> snd (marshalConsensus e ct)"
  shows "w1 = w \<and> b = StateObjectsCreated \<and> (\<exists>tx y. dt_Tx (st_detail st) = Some tx \<and> CreateObjects (tx_outputs e tx) (w_store w) = Err y)"
proof -
  have f: "toward e b st w = Ok (w1, nx, Some x)" using transitions_toward [OF assms(1)] assms(2) by simp
  have m: "marshalConsensus e ct = (d, s) \<Longrightarrow> \<not> s" for ct d s using assms(3) [of ct] by simp
  show ?thesis
  proof (cases "b = StateObjectsCreated")
    case True
    with f show ?thesis
      by (auto simp: trans_defs outcome_simps tx_outputs_eq Let_def on_store_Some split: if_splits option.splits)
  next
    case False
    from f False show ?thesis
      by (cases b)
        (auto simp: trans_defs trigger_consensus_def inputObjectsForShard_eq outcome_simps Let_def
          split: if_splits option.splits prod.splits dest: m)
  qed
qed

lemma apply_descends:
  "applyTransition e st a b w = Ok (w1, c, err) \<Longrightarrow> state_rank c \<le> state_rank a"
proof (induction e st a b w rule: applyTransition.induct)
  case (1 e st a b w)
  show ?case
  proof (cases "map_of (transitions e) (a, b)")
    case None
    with "1.prems" show ?thesis by (auto simp: applyTransition.simps [of e st a b w])
  next
    case (Some f)
    with "1.prems" obtain w2 nx err2 where f: "f st w = Ok (w2, nx, err2)"
      by (auto simp: applyTransition.simps [of e st a b w] outcome_simps)
    show ?thesis
      using "1.prems" "1.IH" [OF Some f] transitions_descend [OF Some] Some f
      by (cases err2) (auto simp: applyTransition.simps [of e st a b w])
  qed
qed

text \<open>The states of a node that only creates outputs.\<close>

definition commit_path :: "State set" where
  "commit_path = {StateWaitingForCommit, StateConsensusCommitTriggered, StateWaitingForConsensusCommit}"

lemma enter_commit_path:
  assumes "map_of (transitions e) (a, b) = Some f" and "b \<in> commit_path"
  shows "a \<in> commit_path" "trans_cmds e dt b = []"
  using map_of_SomeD [OF assms(1)] assms(2) by (auto simp: transitions_def commit_path_def no_cmds)

lemma apply_commit_path:
  "applyTransition e st a b w = Ok (w1, c, err) \<Longrightarrow> c \<in> commit_path \<Longrightarrow>
    (\<And>ct. \<not> snd (marshalConsensus e ct)) \<Longrightarrow> a \<in> commit_path \<and> w_store w1 = w_store w"
proof (induction e st a b w rule: applyTransition.induct)
  case (1 e st a b w)
  show ?case
  proof (cases "map_of (transitions e) (a, b)")
    case None
    with "1.prems" show ?thesis by (auto simp: applyTransition.simps [of e st a b w])
  next
    case (Some f)
    with "1.prems" obtain w2 nx err2 where f: "f st w = Ok (w2, nx, err2)"
      by (auto simp: applyTransition.simps [of e st a b w] outcome_simps)
    show ?thesis
    proof (cases err2)
      case None
      with "1.prems" Some f have r: "applyTransition e st b nx w2 = Ok (w1, c, err)"
        by (simp add: applyTransition.simps [of e st a b w])
      with "1.IH" [OF Some f] None "1.prems"(2,3) have ih: "b \<in> commit_path" "w_store w1 = w_store w2" by simp_all
      have "w_store w2 = w_store w"
        using transition_store [OF Some f] enter_commit_path(2) [OF Some ih(1)] by simp
      with ih(2) show ?thesis using enter_commit_path(1) [OF Some ih(1)] by simp
    next
      case (Some x)
      with transition_err [OF \<open>map_of _ _ = Some f\<close>] f "1.prems"(3) have "w2 = w" by blast
      with Some "1.prems" \<open>map_of _ _ = Some f\<close> f show ?thesis by (simp add: applyTransition.simps [of e st a b w])
    qed
  qed
qed

text \<open>An action asks for its own state, or for an edge of the table.\<close>

lemma action_edges:
  "mhas (transitions e) (StateWaitingForConsensus1, StateRejectPhase1Broadcasted)"
  "mhas (transitions e) (StateWaitingForConsensus1, StateObjectLocked)"
  "mhas (transitions e) (StateWaitingForPhase1, StateAborted)"
  "mhas (transitions e) (StateWaitingForPhase1, StateConsensus2Triggered)"
  "mhas (transitions e) (StateWaitingForConsensus2, StateRejectPhase2Broadcasted)"
  "mhas (transitions e) (StateWaitingForConsensus2, StateAcceptPhase2Broadcasted)"
  "mhas (transitions e) (StateWaitingForPhase2, StateAborted)"
  "mhas (transitions e) (StateWaitingForPhase2, StateObjectsDeactivated)"
  "mhas (transitions e) (StateWaitingForCommit, StateAborted)"
  "mhas (transitions e) (StateWaitingForCommit, StateConsensusCommitTriggered)"
  "mhas (transitions e) (StateWaitingForConsensusCommit, StateAborted)"
  "mhas (transitions e) (StateWaitingForConsensusCommit, StateObjectsCreated)"
  by (simp_all add: mhas_def transitions_def)

lemma action_target:
  assumes "map_of (actions e) cur = Some act" and "act st w = Ok new"
  shows "new = cur \<or> mhas (transitions e) (cur, new) \<and> (new = StateObjectsCreated \<longrightarrow> cur \<in> commit_path)"
  using assms
  by (cases cur) (auto simp: actions_def commit_path_def outcome_simps action_edges onWaitingForConsensus1_def
      onWaitingForConsensus2_def onWaitingForPhase1_def onWaitingForPhase2_def onWaitingForCommit_def
      onWaitingForConsensusCommit_def split: if_splits StateSBAC.splits; metis (full_types) StateSBAC.exhaust)+

lemma apply_first_step:
  assumes "map_of (transitions e) (a, b) = Some f" "applyTransition e st a b w = Ok (w1, c, err)"
  shows "(\<exists>nx x. f st w = Ok (w1, nx, Some x) \<and> c = a) \<or> state_rank c \<le> state_rank b"
proof -
  from assms obtain w2 nx err2 where f: "f st w = Ok (w2, nx, err2)"
    by (auto simp: applyTransition.simps [of e st a b w] outcome_simps)
  with assms show ?thesis
    by (cases err2) (auto simp: applyTransition.simps [of e st a b w] dest: apply_descends)
qed

text \<open>The outputs of the transaction can be created in a store.\<close>

definition creatable :: "env \<Rightarrow> DetailTx \<Rightarrow> db \<Rightarrow> bool" where
  "creatable e dt d = (\<forall>tx. dt_Tx dt = Some tx \<longrightarrow> is_ok (CreateObjects (tx_outputs e tx) d))"

lemma moveState_terminates:
  assumes "\<And>ct. \<not> snd (marshalConsensus e ct)"
  shows "(cur \<in> commit_path \<Longrightarrow> creatable e (st_detail st) (w_store w)) \<Longrightarrow> \<exists>r. moveState e st cur w = Some r"
proof (induction "state_rank cur" arbitrary: cur w rule: less_induct)
  case less
  show ?case
  proof (cases "map_of (actions e) cur")
    case None
    then show ?thesis by (subst moveState.simps) simp
  next
    case (Some act)
    note act = this
    show ?thesis
    proof (cases "\<exists>new. act st w = Ok new \<and> new \<noteq> cur")
      case False
      with act show ?thesis by (subst moveState.simps) (auto split: outcome.splits)
    next
      case True
      then obtain new where new: "act st w = Ok new" "new \<noteq> cur" by blast
      from action_target [OF act new(1)] new(2) have edge: "mhas (transitions e) (cur, new)"
        and oc: "new = StateObjectsCreated \<Longrightarrow> cur \<in> commit_path" by auto
      then obtain f where f: "map_of (transitions e) (cur, new) = Some f" by (auto simp: mhas_def)
      have "\<exists>r. moveState e st c w1 = Some r" if "applyTransition e st cur new w = Ok (w1, c, err)" for w1 c err
      proof (rule less.hyps)
        have "c \<noteq> cur \<or> state_rank c \<le> state_rank new"
        proof -
          have "False" if "f st w = Ok (w1, nx, Some x)" for nx x
            using transition_err [OF f that assms] oc less.prems by (auto simp: creatable_def is_ok_iff)
          then show ?thesis using apply_first_step [OF f that] by blast
        qed
        moreover have "state_rank c \<le> state_rank new \<or> c = cur" using apply_first_step [OF f that] by blast
        ultimately show "state_rank c < state_rank cur" using transitions_descend [OF f] by auto
        show "creatable e (st_detail st) (w_store w1)" if "c \<in> commit_path"
          using apply_commit_path [OF \<open>applyTransition e st cur new w = Ok (w1, c, err)\<close> that assms] less.prems by simp
      qed
      with act new edge show ?thesis
        by (subst moveState.simps) (auto split: outcome.splits)
    qed
  qed
qed

lemma apply_step:
  "map_of (transitions e) (a, b) = Some f \<Longrightarrow> f st w = Ok (w2, nx, None) \<Longrightarrow> applyTransition e st a b w = applyTransition e st b nx w2"
  by (simp add: applyTransition.simps [of e st a b w])

lemma apply_stop: "map_of (transitions e) (a, b) = None \<Longrightarrow> applyTransition e st a b w = Ok (w, a, None)"
  by (simp add: applyTransition.simps [of e st a b w])

lemma move_rest: "map_of (actions e) c = None \<Longrightarrow> moveState e st c w = Some (Ok (w, c))"
  by (subst moveState.simps) simp

lemma move_step:
  "map_of (actions e) a = Some act \<Longrightarrow> act st w = Ok b \<Longrightarrow> b \<noteq> a \<Longrightarrow> map_of (transitions e) (a, b) = Some f \<Longrightarrow>
   applyTransition e st a b w = Ok (w1, c, err) \<Longrightarrow> moveState e st a w = moveState e st c w1"
  by (subst moveState.simps) (simp add: mhas_def)

section \<open>Checking the inputs\<close>

lemma getObject_eq:
  assumes "store_wf d"
  shows "case status_of d v of
      None \<Rightarrow> getObject v d = Err (ErrBadger ErrKeyNotFound)
    | Some c \<Rightarrow> \<exists>val. getObject v d = Ok \<lparr>VersionID = v, Value = val, Status = c, Labels = []\<rparr>"
proof (cases "map_of d (objectKey v)")
  case None
  with assms have "map_of d (objectStatusKey v) = None" by (simp add: store_wf_def)
  with None show ?thesis by (simp add: getObject_def get_val_eq status_of_def)
next
  case (Some val)
  with assms obtain c cs where "map_of d (objectStatusKey v) = Some (c # cs)"
    unfolding store_wf_def by (metis neq_Nil_conv not_Some_eq)
  with Some show ?thesis by (simp add: getObject_def get_val_eq txn_Get_def status_of_def first_byte_def)
qed

lemma GetObjects_status:
  assumes "store_wf d"
  shows "case GetObjects vids d of
      Ok objects \<Rightarrow> map (\<lambda>v. status_of d v) vids = map (\<lambda>ob. Some (Status ob)) objects
    | Err x \<Rightarrow> \<exists>v \<in> set vids. status_of d v = None
    | Panic r \<Rightarrow> False"
proof -
  have "case ofold (\<lambda>vid objects. omap (\<lambda>ob. objects @ [ob]) (getObject vid d)) vids acc of
      Ok objects \<Rightarrow> map (\<lambda>ob. Some (Status ob)) acc @ map (\<lambda>v. status_of d v) vids = map (\<lambda>ob. Some (Status ob)) objects
    | Err x \<Rightarrow> \<exists>v \<in> set vids. status_of d v = None
    | Panic r \<Rightarrow> False" for acc
  proof (induction vids arbitrary: acc)
    case (Cons v vids)
    show ?case
    proof (cases "status_of d v")
      case None
      with getObject_eq [OF assms, of v] show ?thesis by simp
    next
      case (Some c)
      with getObject_eq [OF assms, of v] obtain val
        where g: "getObject v d = Ok \<lparr>VersionID = v, Value = val, Status = c, Labels = []\<rparr>" by auto
      from Cons.IH [of "acc @ [\<lparr>VersionID = v, Value = val, Status = c, Labels = []\<rparr>]"] show ?thesis
        by (simp add: g Some split: outcome.splits)
    qed
  qed simp
  from this [of "[]"] show ?thesis by (simp add: GetObjects_def split: outcome.splits)
qed

text \<open>The inputs pass the check iff those of this shard exist and are not consumed.\<close>

lemma check_inputs_eq:
  assumes "store_wf d"
  shows "check_inputs e ts d = Ok (\<forall>k \<in> set (concat (map (\<lambda>t. InputObjectVersionIDs t @ InputReferenceVersionIDs t) ts)).
     in_shard e k \<longrightarrow> (\<exists>c. status_of d k = Some c \<and> c \<noteq> ObjectStatus_INACTIVE))"
proof (induction ts)
  case (Cons t ts)
  let ?vids = "filter (in_shard e) (InputObjectVersionIDs t @ InputReferenceVersionIDs t)"
  let ?ok = "\<lambda>k. \<exists>c. status_of d k = Some c \<and> c \<noteq> ObjectStatus_INACTIVE"
  show ?case
  proof (cases "GetObjects ?vids d")
    case (Ok objects)
    with GetObjects_status [OF assms, of ?vids]
    have st: "map (\<lambda>v. status_of d v) ?vids = map (\<lambda>ob. Some (Status ob)) objects" by simp
    then have "(\<lambda>v. status_of d v) ` set ?vids = (\<lambda>ob. Some (Status ob)) ` set objects"
      unfolding set_map [symmetric] by simp
    then have "(\<forall>v \<in> set ?vids. ?ok v) \<longleftrightarrow> (\<forall>ob \<in> set objects. Status ob \<noteq> ObjectStatus_INACTIVE)"
      by (smt (verit, best) image_iff option.inject)
    with Ok Cons show ?thesis
      by (auto simp: objectsExists_def list_ex_iff)
  next
    case (Err x)
    with GetObjects_status [OF assms, of ?vids] obtain v where "v \<in> set ?vids" "status_of d v = None" by auto
    with Err show ?thesis by (force simp: objectsExists_def)
  next
    case (Panic r)
    with GetObjects_status [OF assms, of ?vids] show ?thesis by simp
  qed
qed simp

section \<open>Transactions within one shard\<close>

text \<open>The first event of a transaction on a fresh machine: the consensus on it, with the evidence
  this node signed.\<close>

definition consensus1_event :: "env \<Rightarrow> DetailTx \<Rightarrow> ConsensusTransaction \<Rightarrow> bool \<Rightarrow> bool" where
  "consensus1_event e dt d valid \<longleftrightarrow> ct_TxID d = dt_ID dt \<and> ct_Op d = ConsensusOp_Consensus1 \<and>
     verifyEvidenceSignature e (fst (marshalTx e (ct_Tx d))) (ct_Evidences d) = Ok valid"

lemma first_event:
  assumes "consensus1_event e dt d valid"
  obtains st where
    "sm_processEvent e (NewConsensusEvent d) (m_states (NewStateMachine dt StateWaitingForConsensus1)) = Ok (st, None)"
    "st_detail st = dt"
    "consensus_state st ConsensusOp_Consensus1 = Ok (if valid then StateConsensusAccepted else StateConsensusRejected)"
proof -
  let ?st = "m_states (NewStateMachine dt StateWaitingForConsensus1)"
  let ?c = "(NewConsensuStateMachine ConsensusOp_Consensus1)\<lparr>c_data := Some d,
      c_state := (if valid then StateConsensusAccepted else StateConsensusRejected)\<rparr>"
  let ?st1 = "?st\<lparr>st_consensus := mput ConsensusOp_Consensus1 ?c (st_consensus ?st)\<rparr>"
  have "onConsensusEvent e d = Ok (if valid then StateConsensusAccepted else StateConsensusRejected)"
    using assms by (simp add: consensus1_event_def onConsensusEvent_def)
  then have "csm_processEvent e EventKindConsensus d (NewConsensuStateMachine ConsensusOp_Consensus1) = Ok (?c, None)"
    by (simp add: csm_processEvent_def NewConsensuStateMachine_def)
  then have "sm_processEvent e (NewConsensusEvent d) ?st = Ok (?st1, None)"
    using assms by (simp add: consensus1_event_def sm_processEvent_def NewConsensusEvent_def NewStateMachine_def)
  then show thesis
    by (rule that) (simp_all add: NewStateMachine_def consensus_state_def gomap_simps)
qed

lemma consume_first:
  assumes "consensus1_event e dt d valid"
    and "\<And>st. st_detail st = dt \<Longrightarrow>
      consensus_state st ConsensusOp_Consensus1 = Ok (if valid then StateConsensusAccepted else StateConsensusRejected) \<Longrightarrow>
      moveState e st StateWaitingForConsensus1 w = Some (Ok (w1, c))"
  shows "\<exists>sm1. consumeEvent e (NewConsensusEvent d) (NewStateMachine dt StateWaitingForConsensus1) w = Some (Ok (sm1, w1)) \<and>
    m_state sm1 = c"
proof -
  obtain st where st: "sm_processEvent e (NewConsensusEvent d) (m_states (NewStateMachine dt StateWaitingForConsensus1)) = Ok (st, None)"
    "st_detail st = dt"
    "consensus_state st ConsensusOp_Consensus1 = Ok (if valid then StateConsensusAccepted else StateConsensusRejected)"
    using first_event [OF assms(1)] by metis
  have "m_state (NewStateMachine dt StateWaitingForConsensus1) = StateWaitingForConsensus1" by (simp add: NewStateMachine_def)
  with st(1) assms(2) [OF st(2,3)] show ?thesis by (simp add: consumeEvent_def)
qed

text \<open>The stores a local commit goes through.\<close>

definition committed_store :: "env \<Rightarrow> DetailTx \<Rightarrow> Transaction \<Rightarrow> db \<Rightarrow> db" where
  "committed_store e dt tx d = mput (finishedTxnKey (dt_ID dt)) []
     (put_objects (tx_outputs e tx) (put_status ObjectStatus_INACTIVE (local_inputs e tx)
       (put_status ObjectStatus_LOCKED (local_inputs e tx) d)))"

definition committed_world :: "env \<Rightarrow> DetailTx \<Rightarrow> Transaction \<Rightarrow> world \<Rightarrow> world" where
  "committed_world e dt tx w =
     publishObjects e (MakeIDs (sha e) tx) True (saveLabels e (MakeIDs (sha e) tx)
       (w\<lparr>w_store := committed_store e dt tx (w_store w)\<rparr>))"

definition can_commit :: "env \<Rightarrow> Transaction \<Rightarrow> db \<Rightarrow> bool" where
  "can_commit e tx d \<longleftrightarrow> store_wf d \<and> distinct (local_inputs e tx) \<and>
     (\<forall>k \<in> set (local_inputs e tx). status_of d k = Some ObjectStatus_ACTIVE) \<and>
     (\<forall>k \<in> set (all_ids tx). \<exists>c. status_of d k = Some c \<and> c \<noteq> ObjectStatus_INACTIVE) \<and>
     distinct (map VersionID (tx_outputs e tx)) \<and> (\<forall>ob \<in> set (tx_outputs e tx). status_of d (VersionID ob) = None)"

lemma local_commit_stores:
  assumes "can_commit e tx d"
  defines "d1 \<equiv> put_status ObjectStatus_LOCKED (local_inputs e tx) d"
  defines "d2 \<equiv> put_status ObjectStatus_INACTIVE (local_inputs e tx) d1"
  shows "LockObjects (local_inputs e tx) d = Ok d1" "DeactivateObjects (local_inputs e tx) d1 = Ok d2"
    "CreateObjects (tx_outputs e tx) d2 = Ok (put_objects (tx_outputs e tx) d2)"
proof -
  note c = assms(1) [unfolded can_commit_def]
  have "ofold lockObject (local_inputs e tx) d = Ok d1"
    using mark_all_cases [of d "\<lambda>st. st = ObjectStatus_ACTIVE" ObjectStatus_LOCKED ErrObjectCannotBeLocked "local_inputs e tx"] c
    by (auto simp: mark_instances(1) d1_def holds_Some)
  then show "LockObjects (local_inputs e tx) d = Ok d1" by (simp add: LockObjects_def)
  have wf1: "store_wf d1" unfolding d1_def using c by (intro store_wf_put_status) auto
  have "ofold setObjectInactive (local_inputs e tx) d1 = Ok d2"
    using mark_all_cases [OF wf1, of "\<lambda>st. st \<noteq> ObjectStatus_INACTIVE" ObjectStatus_INACTIVE ErrObjectAlreadyInactive "local_inputs e tx"] c
    by (auto simp: mark_instances(3) d1_def d2_def status_put_status holds_Some)
  then show "DeactivateObjects (local_inputs e tx) d1 = Ok d2" by (simp add: DeactivateObjects_def setObjectsInactive_def)
  have wf2: "store_wf d2" unfolding d2_def using wf1 by (rule store_wf_put_status) (simp add: d1_def status_put_status)
  have "\<forall>k \<in> set (map VersionID (tx_outputs e tx)). status_of d2 k = None"
    using c by (auto simp: d2_def d1_def status_put_status)
  then show "CreateObjects (tx_outputs e tx) d2 = Ok (put_objects (tx_outputs e tx) d2)"
    using createObjects_cases [OF wf2, of "tx_outputs e tx"] c by (auto simp: CreateObjects_def)
qed

lemma edge_facts:
  "map_of (transitions e) (StateWaitingForConsensus1, StateObjectLocked) = Some (toObjectLocked e)"
  "map_of (transitions e) (StateObjectLocked, StateObjectsDeactivated) = Some (toObjectDeactivated e)"
  "map_of (transitions e) (StateObjectsDeactivated, StateObjectsCreated) = Some (toObjectsCreated e)"
  "map_of (transitions e) (StateObjectsCreated, StateSucceeded) = Some (toSucceeded e)"
  "map_of (transitions e) (StateSucceeded, c) = None" "map_of (transitions e) (StateAborted, c) = None"
  "map_of (transitions e) (StateWaitingForConsensus1, StateRejectPhase1Broadcasted) = Some (toRejectPhase1Broadcasted e)"
  "map_of (transitions e) (StateRejectPhase1Broadcasted, StateAborted) = Some (toAborted e)"
  "map_of (transitions e) (StateWaitingForConsensusCommit, StateObjectsCreated) = Some (toObjectsCreated e)"
  by (simp_all add: transitions_def)

lemma action_facts:
  "map_of (actions e) StateSucceeded = None" "map_of (actions e) StateAborted = None"
  "map_of (actions e) StateWaitingForConsensus1 = Some (onWaitingForConsensus1 e)"
  "map_of (actions e) StateWaitingForConsensusCommit = Some (onWaitingForConsensusCommit e)"
  by (simp_all add: actions_def)

lemma local_commit_apply:
  assumes "can_commit e tx (w_store w)" and "dt_Tx (st_detail st) = Some tx"
    and "list_all (in_shard e) (all_ids tx)" and "list_all (\<lambda>ob. in_shard e (VersionID ob)) (output_objects (sha e) tx)"
  shows "applyTransition e st StateWaitingForConsensus1 StateObjectLocked w =
    Ok (committed_world e (st_detail st) tx w, StateSucceeded, None)"
proof -
  note ls = local_commit_stores [OF assms(1)]
  have 1: "toObjectLocked e st w = Ok (w\<lparr>w_store := put_status ObjectStatus_LOCKED (local_inputs e tx) (w_store w)\<rparr>,
      StateObjectsDeactivated, None)" (is "_ = Ok (?w1, _)")
    by (simp add: toObjectLocked_def deref_tx_def assms(2,3) inputObjectsForShard_eq on_store_def ls(1))
  have 2: "toObjectDeactivated e st ?w1 = Ok (?w1\<lparr>w_store := put_status ObjectStatus_INACTIVE (local_inputs e tx) (w_store ?w1)\<rparr>,
      StateObjectsCreated, None)" (is "_ = Ok (?w2, _)")
    by (simp add: toObjectDeactivated_def deref_tx_def assms(2) inputObjectsForShard_eq on_store_def ls(2))
  have out: "list_all (\<lambda>ob. in_shard e (VersionID ob))
      (concat (map top_OutputObjects (MakeTraceObjectPairs (sha e) (MakeTraceIDs (sha e) (Traces tx)))))"
    using assms(4) by (simp add: output_objects_def MakeIDs_def Let_def)
  have 3: "toObjectsCreated e st ?w2 = Ok (?w2\<lparr>w_store := put_objects (tx_outputs e tx) (w_store ?w2)\<rparr>, StateSucceeded, None)"
    (is "_ = Ok (?w3, _)")
    using ls(3) out by (simp add: toObjectsCreated_def deref_tx_def assms(2) on_store_def tx_outputs_eq Let_def)
  have 4: "toSucceeded e st ?w3 = Ok (committed_world e (st_detail st) tx w, StateSucceeded, None)"
    by (simp add: toSucceeded_def on_store_def FinishTransaction_def set_val_ok deref_tx_def assms(2)
        committed_world_def committed_store_def Let_def)
  show ?thesis
    unfolding apply_step [OF edge_facts(1) 1] apply_step [OF edge_facts(2) 2] apply_step [OF edge_facts(3) 3]
      apply_step [OF edge_facts(4) 4] by (rule apply_stop [OF edge_facts(5)])
qed

lemma local_commit_move:
  assumes "can_commit e tx (w_store w)" and "dt_Tx (st_detail st) = Some tx"
    and "list_all (in_shard e) (all_ids tx)" and "list_all (\<lambda>ob. in_shard e (VersionID ob)) (output_objects (sha e) tx)"
    and "consensus_state st ConsensusOp_Consensus1 = Ok StateConsensusAccepted"
  shows "moveState e st StateWaitingForConsensus1 w = Some (Ok (committed_world e (st_detail st) tx w, StateSucceeded))"
proof -
  have "check_inputs e (Traces tx) (w_store w) = Ok True"
    using assms(1) by (auto simp: can_commit_def check_inputs_eq all_ids_def)
  then have act: "onWaitingForConsensus1 e st w = Ok StateObjectLocked"
    by (simp add: onWaitingForConsensus1_def assms(2,5) deref_tx_def)
  have "moveState e st StateWaitingForConsensus1 w =
      moveState e st StateSucceeded (committed_world e (st_detail st) tx w)"
    by (rule move_step [OF action_facts(3) act _ edge_facts(1) local_commit_apply [OF assms(1-4)]]) simp
  then show ?thesis by (simp add: move_rest action_facts(1))
qed

lemma committed_status:
  "status_of (committed_store e dt tx d) k =
     (if k \<in> VersionID ` set (tx_outputs e tx) then Some ObjectStatus_ACTIVE
      else if k \<in> set (local_inputs e tx) then Some ObjectStatus_INACTIVE else status_of d k)"
  by (simp add: committed_store_def store_simps status_put_objects status_put_status)

lemma committed_finished: "TxnFinished (dt_ID dt) (committed_store e dt tx d) = Ok True"
  by (simp add: TxnFinished_def txn_Get_def committed_store_def gomap_simps)

text \<open>\<^bold>\<open>C14\<close>: a transaction of one shard commits in one go. When the consensus on it arrives with valid
  evidence, its inputs are active, its references exist and its outputs are new and belong to this
  shard, then handling that event returns with the machine succeeded: the inputs are inactive, the
  outputs active, all other objects as before, the transaction is marked as finished and its
  outputs are published as a success.\<close>

theorem local_transaction_commits:
  assumes "consensus1_event e dt d True" and "dt_Tx dt = Some tx" and "can_commit e tx (w_store w)"
    and "list_all (in_shard e) (all_ids tx)" and "list_all (\<lambda>ob. in_shard e (VersionID ob)) (output_objects (sha e) tx)"
  shows "\<exists>sm1 w1. consumeEvent e (NewConsensusEvent d) (NewStateMachine dt StateWaitingForConsensus1) w = Some (Ok (sm1, w1)) \<and>
    m_state sm1 = StateSucceeded \<and>
    (\<forall>k. status_of (w_store w1) k =
       (if k \<in> VersionID ` set (tx_outputs e tx) then Some ObjectStatus_ACTIVE
        else if k \<in> set (local_inputs e tx) then Some ObjectStatus_INACTIVE else status_of (w_store w) k)) \<and>
    TxnFinished (dt_ID dt) (w_store w1) = Ok True \<and>
    w_published w1 = w_published w @ map (\<lambda>ob. (VersionID ob, Labels ob, True)) (tx_outputs e tx)"
proof -
  have "\<exists>sm1. consumeEvent e (NewConsensusEvent d) (NewStateMachine dt StateWaitingForConsensus1) w =
      Some (Ok (sm1, committed_world e dt tx w)) \<and> m_state sm1 = StateSucceeded"
    by (rule consume_first [OF assms(1)])
      (use local_commit_move [OF assms(3) _ assms(4,5)] assms(2) in simp)
  moreover have "w_store (committed_world e dt tx w) = committed_store e dt tx (w_store w)"
    "w_published (committed_world e dt tx w) = w_published w @ map (\<lambda>ob. (VersionID ob, Labels ob, True)) (tx_outputs e tx)"
    by (simp_all add: committed_world_def publishObjects_def saveLabels_def tx_outputs_def)
  ultimately show ?thesis by (auto simp: committed_status committed_finished)
qed

definition local_tx :: Transaction where
  "local_tx = \<lparr>Traces = [Trace [1] [2] [[1]] [[2]] [\<lparr>oo_Labels = [[4]], oo_Object = [5]\<rparr>] [] [] [] [] []]\<rparr>"

definition local_detail :: DetailTx where
  "local_detail = \<lparr>dt_ID = [7], dt_RawTx = [], dt_Tx = Some local_tx, dt_Evidences = [(1, [1])], dt_HashID = 0\<rparr>"

definition local_consensus :: ConsensusTransaction where
  "local_consensus = \<lparr>ct_TxID = [7], ct_Tx = Some local_tx, ct_Evidences = [(1, [1])], ct_Op = ConsensusOp_Consensus1, ct_Initiator = 3\<rparr>"

definition local_world :: world where
  "local_world = \<lparr>w_store = put_objects [\<lparr>VersionID = [1], Value = [], Status = 0, Labels = []\<rparr>,
       \<lparr>VersionID = [2], Value = [], Status = 0, Labels = []\<rparr>] [],
     w_kv = [], w_sent = [], w_published = [], w_broadcast = []\<rparr>"

lemma long_id: "replicate 32 b \<noteq> [a]"
  by (simp add: numeral_eq_Suc)

lemma local_facts:
  "local_inputs demo_env local_tx = [[1]]" "set (all_ids local_tx) = {[1], [2]}"
  "map VersionID (output_objects demo_sha local_tx) = [replicate 32 (197 :: byte)]"
  "list_all (in_shard demo_env) (all_ids local_tx)" "list_all (\<lambda>ob. in_shard demo_env (VersionID ob)) (output_objects demo_sha local_tx)"
proof -
  show "local_inputs demo_env local_tx = [[1]]" "set (all_ids local_tx) = {[1], [2]}"
    "list_all (in_shard demo_env) (all_ids local_tx)"
    by (auto simp: local_inputs_def all_ids_def local_tx_def in_shard_def demo_env_def)
  show out: "map VersionID (output_objects demo_sha local_tx) = [replicate 32 (197 :: byte)]"
    by (simp add: output_versions tx_preimages_def trace_preimages_def object_preimage_def local_tx_def demo_sha_def
        sum_list_replicate PutUint32_def putLE_def upt_rec)
  then have "VersionID ob = replicate 32 (197 :: byte)" if "ob \<in> set (output_objects demo_sha local_tx)" for ob
    using that out by auto
  then show "list_all (\<lambda>ob. in_shard demo_env (VersionID ob)) (output_objects demo_sha local_tx)"
    by (auto simp: list_all_iff in_shard_def demo_env_def long_id)
qed

lemma local_world_status:
  "status_of (w_store local_world) k = (if k = [1] \<or> k = [2] then Some ObjectStatus_ACTIVE else None)"
  by (simp add: local_world_def status_put_objects) (simp add: status_of_def)

lemma local_can_commit: "can_commit demo_env local_tx (w_store local_world)"
proof -
  have empty: "store_wf []" by (simp add: store_wf_def)
  have wf: "store_wf (w_store local_world)"
    using createObjects_cases [OF empty, of "[\<lparr>VersionID = [1], Value = [], Status = 0, Labels = []\<rparr>,
       \<lparr>VersionID = [2], Value = [], Status = 0, Labels = []\<rparr>]"]
    by (auto simp: local_world_def status_of_def)
  have "map VersionID (tx_outputs demo_env local_tx) = [replicate 32 (197 :: byte)]"
  proof -
    have "tx_outputs demo_env local_tx = output_objects demo_sha local_tx"
      using local_facts(5) by (simp add: tx_outputs_def local_outputs_def output_objects_def demo_env_def list_all_iff filter_id_conv)
    then show ?thesis by (simp add: local_facts(3))
  qed
  then have o: "distinct (map VersionID (tx_outputs demo_env local_tx))"
    "\<forall>ob \<in> set (tx_outputs demo_env local_tx). VersionID ob = replicate 32 (197 :: byte)" by auto
  then show ?thesis
    using wf by (auto simp: can_commit_def local_facts(1,2) local_world_status long_id)
qed

lemma local_event: "consensus1_event demo_env local_detail local_consensus True"
  by (simp add: consensus1_event_def local_detail_def local_consensus_def verifyEvidenceSignature_def demo_env_def)

theorem local_transaction_commits_witness:
  "\<exists>sm1 w1. consumeEvent demo_env (NewConsensusEvent local_consensus) (NewStateMachine local_detail StateWaitingForConsensus1) local_world
      = Some (Ok (sm1, w1)) \<and> m_state sm1 = StateSucceeded \<and>
    status_of (w_store w1) [1] = Some ObjectStatus_INACTIVE \<and> status_of (w_store w1) [2] = Some ObjectStatus_ACTIVE"
proof -
  have tx: "dt_Tx local_detail = Some local_tx" by (simp add: local_detail_def)
  have out: "list_all (\<lambda>ob. in_shard demo_env (VersionID ob)) (output_objects (sha demo_env) local_tx)"
    using local_facts(5) by (simp add: demo_env_def)
  have fresh: "[1] \<notin> VersionID ` set (tx_outputs demo_env local_tx)" "[2] \<notin> VersionID ` set (tx_outputs demo_env local_tx)"
    using local_can_commit local_world_status by (auto simp: can_commit_def)
  show ?thesis
    using local_transaction_commits [OF local_event tx local_can_commit local_facts(4) out] fresh
    by (fastforce simp: local_facts(1) local_world_status)
qed

section \<open>Rejected transactions\<close>

definition aborted_world :: "env \<Rightarrow> DetailTx \<Rightarrow> Transaction \<Rightarrow> world \<Rightarrow> world" where
  "aborted_world e dt tx w = publishObjects e (MakeIDs (sha e) tx) False
     (w\<lparr>w_store := mput (finishedTxnKey (dt_ID dt)) [] (run_cmd (CmdUnlock (local_inputs e tx)) (w_store w))\<rparr>)"

lemma toAborted_eq:
  assumes "store_wf (w_store w)" and "dt_Tx (st_detail st) = Some tx"
  shows "toAborted e st w = Ok (aborted_world e (st_detail st) tx w, StateAborted, None)"
proof -
  have "refines status_of store_wf (spec_unlock (local_inputs e tx)) (w_store w) (UnlockObjects (local_inputs e tx) (w_store w))"
    by (rule ostore.unlock_spec [OF assms(1)])
  then have "on_store (UnlockObjects (local_inputs e tx)) w =
      Ok (w\<lparr>w_store := run_cmd (CmdUnlock (local_inputs e tx)) (w_store w)\<rparr>,
        case UnlockObjects (local_inputs e tx) (w_store w) of Err x \<Rightarrow> Some x | _ \<Rightarrow> None)"
    by (auto simp: on_store_def run_cmd_def refines_def split: outcome.splits)
  then show ?thesis
    by (simp add: toAborted_def deref_tx_def assms(2) inputObjectsForShard_eq on_store_def [of "FinishTransaction _"]
        FinishTransaction_def set_val_ok aborted_world_def Let_def)
qed

lemma toReject1_eq:
  assumes "dt_Tx (st_detail st) = Some tx"
  obtains w1 where "toRejectPhase1Broadcasted e st w = Ok (w1, StateAborted, None)" "w_store w1 = w_store w"
    "w_published w1 = w_published w"
  using assms by (cases "signSBACMessage e SBACOp_Phase1 SBACDecision_REJECT st")
    (auto simp: toRejectPhase1Broadcasted_def sendToAllShardInvolved_def deref_tx_def sendToShards_def)

lemma unlock_status_cases:
  assumes "store_wf d"
  shows "status_of (run_cmd (CmdUnlock ks) d) k = status_of d k \<or>
    k \<in> set ks \<and> status_of d k = Some ObjectStatus_LOCKED \<and> status_of (run_cmd (CmdUnlock ks) d) k = Some ObjectStatus_ACTIVE"
proof (cases "UnlockObjects ks d")
  case (Ok d1)
  have "spec_unlock ks (status_of d) = Some (status_of d1)"
    using ostore.unlock_spec [OF assms, of ks] Ok by (simp add: refines_def)
  then have "status_of d1 k = (if k \<in> set ks then Some ObjectStatus_ACTIVE else status_of d k)"
    and "k \<in> set ks \<Longrightarrow> \<exists>c. status_of d k = Some c \<and> (c = ObjectStatus_LOCKED \<or> c = ObjectStatus_ACTIVE)"
    using ostore.unlock_status [OF assms, of ks d1 k] Ok by (auto simp: spec_unlock_def spec_mark_def holds_Some split: if_splits)
  then show ?thesis by (cases "k \<in> set ks") (auto simp: run_cmd_def Ok)
qed (simp_all add: run_cmd_def)

text \<open>The reasons for which the first consensus rejects a transaction.\<close>

definition unfit :: "env \<Rightarrow> Transaction \<Rightarrow> db \<Rightarrow> bool" where
  "unfit e tx d \<longleftrightarrow> (\<exists>k \<in> set (all_ids tx). in_shard e k \<and> status_of d k \<in> {None, Some ObjectStatus_INACTIVE})"

lemma reject_move:
  assumes "store_wf (w_store w)" and "dt_Tx (st_detail st) = Some tx"
    and "consensus_state st ConsensusOp_Consensus1 = Ok StateConsensusRejected \<or>
      consensus_state st ConsensusOp_Consensus1 = Ok StateConsensusAccepted \<and> unfit e tx (w_store w)"
  obtains w1 where "moveState e st StateWaitingForConsensus1 w = Some (Ok (aborted_world e (st_detail st) tx w1, StateAborted))"
    "w_store w1 = w_store w" "w_published w1 = w_published w"
proof -
  have "unfit e tx (w_store w) \<Longrightarrow> check_inputs e (Traces tx) (w_store w) = Ok False"
    unfolding check_inputs_eq [OF assms(1)] all_ids_def [symmetric] by (force simp: unfit_def)
  then have act: "onWaitingForConsensus1 e st w = Ok StateRejectPhase1Broadcasted"
    using assms(3) by (auto simp: onWaitingForConsensus1_def assms(2) deref_tx_def)
  obtain w1 where w1: "toRejectPhase1Broadcasted e st w = Ok (w1, StateAborted, None)" "w_store w1 = w_store w"
    "w_published w1 = w_published w" using toReject1_eq [OF assms(2)] by metis
  have ab: "toAborted e st w1 = Ok (aborted_world e (st_detail st) tx w1, StateAborted, None)"
    using assms(1) w1(2) by (intro toAborted_eq assms(2)) simp
  have "applyTransition e st StateWaitingForConsensus1 StateRejectPhase1Broadcasted w =
      Ok (aborted_world e (st_detail st) tx w1, StateAborted, None)"
    unfolding apply_step [OF edge_facts(7) w1(1)] apply_step [OF edge_facts(8) ab] by (rule apply_stop [OF edge_facts(6)])
  from move_step [OF action_facts(3) act _ edge_facts(7) this]
  have "moveState e st StateWaitingForConsensus1 w = Some (Ok (aborted_world e (st_detail st) tx w1, StateAborted))"
    by (simp add: move_rest action_facts(2))
  with w1(2,3) that show thesis by blast
qed

text \<open>\<^bold>\<open>C15\<close>: a transaction that the first consensus rejects has no effect on objects. When its
  evidence is invalid, or an input or reference of this shard is missing or consumed, handling the
  event returns with the machine aborted: no object is created or consumed, a status changes at
  most from locked to active and only for inputs of the transaction, the transaction is marked as
  finished and its outputs are published as a failure.\<close>

theorem rejected_transaction_aborts:
  assumes "consensus1_event e dt d valid" and "dt_Tx dt = Some tx" and "store_wf (w_store w)"
    and "\<not> valid \<or> unfit e tx (w_store w)"
  shows "\<exists>sm1 w1. consumeEvent e (NewConsensusEvent d) (NewStateMachine dt StateWaitingForConsensus1) w = Some (Ok (sm1, w1)) \<and>
    m_state sm1 = StateAborted \<and>
    (\<forall>k. status_of (w_store w1) k = status_of (w_store w) k \<or>
       k \<in> set (local_inputs e tx) \<and> status_of (w_store w) k = Some ObjectStatus_LOCKED \<and>
       status_of (w_store w1) k = Some ObjectStatus_ACTIVE) \<and>
    TxnFinished (dt_ID dt) (w_store w1) = Ok True \<and>
    w_published w1 = w_published w @ map (\<lambda>ob. (VersionID ob, Labels ob, False)) (tx_outputs e tx)"
proof -
  obtain st where st: "sm_processEvent e (NewConsensusEvent d) (m_states (NewStateMachine dt StateWaitingForConsensus1)) = Ok (st, None)"
    "st_detail st = dt"
    "consensus_state st ConsensusOp_Consensus1 = Ok (if valid then StateConsensusAccepted else StateConsensusRejected)"
    using first_event [OF assms(1)] by metis
  obtain w1 where w1: "moveState e st StateWaitingForConsensus1 w = Some (Ok (aborted_world e dt tx w1, StateAborted))"
    "w_store w1 = w_store w" "w_published w1 = w_published w"
    by (rule reject_move [OF assms(3), of st tx e]) (use st(2,3) assms(2,4) in \<open>auto split: if_splits\<close>)
  have "m_state (NewStateMachine dt StateWaitingForConsensus1) = StateWaitingForConsensus1" by (simp add: NewStateMachine_def)
  with st(1) w1(1) have "consumeEvent e (NewConsensusEvent d) (NewStateMachine dt StateWaitingForConsensus1) w =
      Some (Ok ((NewStateMachine dt StateWaitingForConsensus1)\<lparr>m_states := st, m_state := StateAborted\<rparr>, aborted_world e dt tx w1))"
    by (simp add: consumeEvent_def)
  moreover have "TxnFinished (dt_ID dt) (w_store (aborted_world e dt tx w1)) = Ok True"
    by (simp add: aborted_world_def TxnFinished_def txn_Get_def gomap_simps)
  moreover have "status_of (w_store (aborted_world e dt tx w1)) k = status_of (w_store w) k \<or>
       k \<in> set (local_inputs e tx) \<and> status_of (w_store w) k = Some ObjectStatus_LOCKED \<and>
       status_of (w_store (aborted_world e dt tx w1)) k = Some ObjectStatus_ACTIVE" for k
    using unlock_status_cases [OF assms(3), of "local_inputs e tx" k] by (simp add: aborted_world_def w1(2) store_simps)
  moreover have "w_published (aborted_world e dt tx w1) = w_published w @ map (\<lambda>ob. (VersionID ob, Labels ob, False)) (tx_outputs e tx)"
    by (simp add: aborted_world_def publishObjects_def w1(3) tx_outputs_def)
  ultimately show ?thesis by fastforce
qed

theorem rejected_transaction_aborts_witness:
  "\<exists>sm1 w1. consumeEvent demo_env (NewConsensusEvent (local_consensus\<lparr>ct_Evidences := []\<rparr>))
      (NewStateMachine local_detail StateWaitingForConsensus1) local_world = Some (Ok (sm1, w1)) \<and> m_state sm1 = StateAborted \<and>
    status_of (w_store w1) [1] = Some ObjectStatus_ACTIVE"
proof -
  have ev: "consensus1_event demo_env local_detail (local_consensus\<lparr>ct_Evidences := []\<rparr>) False"
    by (simp add: consensus1_event_def local_detail_def local_consensus_def verifyEvidenceSignature_def)
  have tx: "dt_Tx local_detail = Some local_tx" by (simp add: local_detail_def)
  have wf: "store_wf (w_store local_world)" using local_can_commit by (simp add: can_commit_def)
  have "\<not> False \<or> unfit demo_env local_tx (w_store local_world)" by simp
  from rejected_transaction_aborts [OF ev tx wf this] obtain sm1 w1
    where r: "consumeEvent demo_env (NewConsensusEvent (local_consensus\<lparr>ct_Evidences := []\<rparr>))
      (NewStateMachine local_detail StateWaitingForConsensus1) local_world = Some (Ok (sm1, w1))" "m_state sm1 = StateAborted"
      and s: "\<forall>k. status_of (w_store w1) k = status_of (w_store local_world) k \<or>
       k \<in> set (local_inputs demo_env local_tx) \<and> status_of (w_store local_world) k = Some ObjectStatus_LOCKED \<and>
       status_of (w_store w1) k = Some ObjectStatus_ACTIVE" by (elim exE conjE)
  have "status_of (w_store w1) [1] = Some ObjectStatus_ACTIVE"
    using s [THEN spec, of "[1]"] by (auto simp: local_world_status)
  with r show ?thesis by (intro exI conjI)
qed

text \<open>Aborting unlocks the inputs whoever locked them: a rejected transaction frees an object that
  another transaction has locked.\<close>

lemma abort_frees_foreign_lock:
  assumes "store_wf (w_store w)" and "dt_Tx (st_detail st) = Some tx"
    and "\<forall>k \<in> set (local_inputs e tx). status_of (w_store w) k = Some ObjectStatus_LOCKED" and "k \<in> set (local_inputs e tx)"
  shows "\<exists>w1. toAborted e st w = Ok (w1, StateAborted, None) \<and> status_of (w_store w1) k = Some ObjectStatus_ACTIVE"
proof -
  have "UnlockObjects (local_inputs e tx) (w_store w) = Ok (put_status ObjectStatus_ACTIVE (local_inputs e tx) (w_store w))"
    using mark_all_cases [OF assms(1), of "\<lambda>st. st = ObjectStatus_LOCKED \<or> st = ObjectStatus_ACTIVE" ObjectStatus_ACTIVE
        ErrObjectCannotBeUnlocked "local_inputs e tx"] assms(3)
    by (auto simp: UnlockObjects_def mark_instances(2) holds_Some)
  then show ?thesis
    using assms(4) by (simp add: toAborted_eq [OF assms(1,2)] aborted_world_def run_cmd_def store_simps status_put_status)
qed

section \<open>Returning and not returning\<close>

text \<open>\<^bold>\<open>C22\<close>: the loop that moves a machine returns. If the consensus transactions can be encoded and,
  for a node that only creates outputs, the outputs can be created, then \<open>moveState\<close> ends, from every
  state and with whatever events were collected.\<close>

theorem moveState_returns:
  assumes "\<And>ct. \<not> snd (marshalConsensus e ct)"
    and "cur \<in> {StateWaitingForCommit, StateConsensusCommitTriggered, StateWaitingForConsensusCommit} \<Longrightarrow>
      creatable e (st_detail st) (w_store w)"
  shows "\<exists>r. moveState e st cur w = Some r"
  using moveState_terminates [OF assms(1), where cur = cur and st = st and w = w] assms(2) by (simp add: commit_path_def)

theorem moveState_returns_witness:
  "\<exists>st r. sm_processEvent demo_env (NewConsensusEvent local_consensus)
       (m_states (NewStateMachine local_detail StateWaitingForConsensus1)) = Ok (st, None) \<and>
     consensus_state st ConsensusOp_Consensus1 = Ok StateConsensusAccepted \<and>
     moveState demo_env st StateWaitingForConsensus1 local_world = Some r"
proof -
  obtain st where st: "sm_processEvent demo_env (NewConsensusEvent local_consensus)
      (m_states (NewStateMachine local_detail StateWaitingForConsensus1)) = Ok (st, None)"
    "consensus_state st ConsensusOp_Consensus1 = Ok StateConsensusAccepted"
    using first_event [OF local_event] by (metis (full_types))
  moreover have "\<exists>r. moveState demo_env st StateWaitingForConsensus1 local_world = Some r"
    by (rule moveState_returns) (simp_all add: demo_env_def)
  ultimately show ?thesis by blast
qed

text \<open>\<^bold>\<open>C23\<close>: the condition is needed. A node that waits to create the outputs of a transaction, whose
  consensus on it is accepted, and which already has one of these objects, never returns from
  \<open>moveState\<close>: the transition fails, the state does not change, and the loop starts again.\<close>

theorem moveState_livelock:
  assumes "consensus_state st ConsensusOp_ConsensusCommit = Ok StateConsensusAccepted"
    and "dt_Tx (st_detail st) = Some tx" and "CreateObjects (tx_outputs e tx) (w_store w) = Err x"
  shows "moveState e st StateWaitingForConsensusCommit w = None"
proof -
  have act: "onWaitingForConsensusCommit e st w = Ok StateObjectsCreated"
    by (simp add: onWaitingForConsensusCommit_def assms(1))
  have tr: "toObjectsCreated e st w = Ok (w, StateAborted, Some (ErrCreate x))"
    by (simp add: toObjectsCreated_def deref_tx_def assms(2) tx_outputs_eq on_store_def assms(3) Let_def)
  have app: "applyTransition e st StateWaitingForConsensusCommit StateObjectsCreated w =
      Ok (w, StateWaitingForConsensusCommit, Some (ErrCreate x))"
    by (simp add: applyTransition.simps [of e st StateWaitingForConsensusCommit] edge_facts(9) tr)
  have "e' = e \<longrightarrow> st' = st \<longrightarrow> c = StateWaitingForConsensusCommit \<longrightarrow> w' = w \<longrightarrow> False"
    if "moveState e' st' c w' = Some r" for e' st' c w' r
  proof (rule moveState.raw_induct [OF _ that])
    fix mv and e' :: env and st' c w' r
    assume ih: "\<And>e' st' c w' r. mv e' st' c w' = Some r \<Longrightarrow>
        e' = e \<longrightarrow> st' = st \<longrightarrow> c = StateWaitingForConsensusCommit \<longrightarrow> w' = w \<longrightarrow> False"
      and body: "(case map_of (actions e') c of
        None \<Rightarrow> Some (Ok (w', c))
      | Some action \<Rightarrow>
          (case action st' w' of
             Panic r \<Rightarrow> Some (Panic r)
           | Err u \<Rightarrow> Some (Err u)
           | Ok newstate \<Rightarrow>
               if newstate = c then Some (Ok (w', c))
               else if mhas (transitions e') (c, newstate) then
                 (case applyTransition e' st' c newstate w' of
                    Panic r \<Rightarrow> Some (Panic r)
                  | Err u \<Rightarrow> Some (Err u)
                  | Ok r \<Rightarrow> mv e' st' (fst (snd r)) (fst r))
               else mv e' st' newstate w')) = Some r"
    show "e' = e \<longrightarrow> st' = st \<longrightarrow> c = StateWaitingForConsensusCommit \<longrightarrow> w' = w \<longrightarrow> False"
    proof (intro impI)
      assume "e' = e" "st' = st" "c = StateWaitingForConsensusCommit" "w' = w"
      with body have "mv e st StateWaitingForConsensusCommit w = Some r"
        by (simp add: action_facts(4) act edge_facts(9) mhas_def app)
      with ih show False by blast
    qed
  qed
  then show ?thesis by (metis not_Some_eq)
qed

definition stuck_states :: States where
  "stuck_states = \<lparr>st_consensus = [(ConsensusOp_ConsensusCommit,
       (NewConsensuStateMachine ConsensusOp_ConsensusCommit)\<lparr>c_state := StateConsensusAccepted\<rparr>)],
     st_sbac = [], st_detail = local_detail\<rparr>"

definition stuck_world :: world where
  "stuck_world = local_world\<lparr>w_store := put_objects (tx_outputs demo_env local_tx) []\<rparr>"

theorem moveState_livelock_witness:
  "moveState demo_env stuck_states StateWaitingForConsensusCommit stuck_world = None"
proof -
  have empty: "store_wf []" by (simp add: store_wf_def)
  have o: "tx_outputs demo_env local_tx \<noteq> []" "distinct (map VersionID (tx_outputs demo_env local_tx))"
  proof -
    have "tx_outputs demo_env local_tx = output_objects demo_sha local_tx"
      using local_facts(5) by (simp add: tx_outputs_def local_outputs_def output_objects_def demo_env_def list_all_iff filter_id_conv)
    then show "tx_outputs demo_env local_tx \<noteq> []" using local_facts(3) by auto
    show "distinct (map VersionID (tx_outputs demo_env local_tx))" using local_can_commit by (simp add: can_commit_def)
  qed
  have wf: "store_wf (put_objects (tx_outputs demo_env local_tx) [])"
    using createObjects_cases [OF empty, of "tx_outputs demo_env local_tx"] o(2) by (auto simp: status_of_def)
  have "\<not> (\<forall>k \<in> set (map VersionID (tx_outputs demo_env local_tx)). status_of (put_objects (tx_outputs demo_env local_tx) []) k = None)"
    using o(1) by (cases "tx_outputs demo_env local_tx") (auto simp: status_put_objects)
  then have c: "CreateObjects (tx_outputs demo_env local_tx) (w_store stuck_world) = Err ErrObjectAlreadyExists"
    using createObjects_cases [OF wf, of "tx_outputs demo_env local_tx"] by (auto simp: CreateObjects_def stuck_world_def)
  have s: "consensus_state stuck_states ConsensusOp_ConsensusCommit = Ok StateConsensusAccepted"
    by (simp add: stuck_states_def consensus_state_def)
  have t: "dt_Tx (st_detail stuck_states) = Some local_tx" by (simp add: stuck_states_def local_detail_def)
  show ?thesis by (rule moveState_livelock [OF s t c])
qed

end
