(* ===== verification/SbacService.thy ===== *)
theory SbacService
  imports SbacRun
begin

text \<open>
  The service of a node (\<open>sbac/sbac.go\<close>) with its queue of events (\<open>sbac/pending_events.go\<close>) and
  its scheduler of machines (\<open>sbac/state_machine_scheduler.go\<close>). Every machine runs in its own
  goroutine, and \<open>Add\<close> may replace the machine of a transaction while the old one still runs, so the
  service has a list of all machines ever started and the scheduler maps a transaction to a
  position in that list. The control of a goroutine tells where in \<open>Run\<close>, \<open>moveState\<close> or
  \<open>applyTransition\<close> it is. Decoding of requests and encoding of responses are parameters.
\<close>

section \<open>Threads\<close>

datatype ctrl = Idle | Moving | Applying State

type_synonym thread = "StateMachine \<times> ctrl"

text \<open>One turn of a loop: taking an event from the queue, one iteration of \<open>moveState\<close>, or one
  iteration of \<open>applyTransition\<close>. \<open>None\<close> means that the goroutine waits for an event.\<close>

definition take_event :: "env \<Rightarrow> StateMachine \<Rightarrow> world \<Rightarrow> ((thread \<times> world) may_panic) option" where
  "take_event e sm w =
     (case m_events sm of
        [] \<Rightarrow> None
      | ev # evs \<Rightarrow> Some (obind (sm_processEvent e ev (m_states sm)) (\<lambda>(st, _).
          let sm1 = sm\<lparr>m_states := st, m_events := evs\<rparr> in
          if m_state sm = StateSucceeded \<or> m_state sm = StateAborted then Ok ((sm1, Idle), w)
          else Ok ((sm1, Moving), w))))"

definition move_once :: "env \<Rightarrow> StateMachine \<Rightarrow> world \<Rightarrow> (thread \<times> world) may_panic" where
  "move_once e sm w =
     (case map_of (actions e) (m_state sm) of
        None \<Rightarrow> Ok ((sm, Idle), w)
      | Some action \<Rightarrow> obind (action (m_states sm) w) (\<lambda>newstate.
          if newstate = m_state sm then Ok ((sm, Idle), w)
          else if mhas (transitions e) (m_state sm, newstate) then Ok ((sm, Applying newstate), w)
          else Ok ((sm\<lparr>m_state := newstate\<rparr>, Moving), w)))"

definition apply_once :: "env \<Rightarrow> State \<Rightarrow> StateMachine \<Rightarrow> world \<Rightarrow> (thread \<times> world) may_panic" where
  "apply_once e transitionTo sm w =
     (case map_of (transitions e) (m_state sm, transitionTo) of
        None \<Rightarrow> Ok ((sm, Moving), w)
      | Some f \<Rightarrow> obind (f (m_states sm) w) (\<lambda>(w1, nx, err).
          if err \<noteq> None then Ok ((sm, Moving), w1)
          else Ok ((sm\<lparr>m_state := transitionTo\<rparr>, Applying nx), w1)))"

definition thread_step :: "env \<Rightarrow> thread \<Rightarrow> world \<Rightarrow> ((thread \<times> world) may_panic) option" where
  "thread_step e th w =
     (case snd th of
        Idle \<Rightarrow> take_event e (fst th) w
      | Moving \<Rightarrow> Some (move_once e (fst th) w)
      | Applying to \<Rightarrow> Some (apply_once e to (fst th) w))"

section \<open>Service\<close>

record service =
  svc_world :: world
  svc_machines :: "thread list"
  svc_txstates :: "(bytes, nat) gomap"
  svc_pe :: "Event list"

record codec =
  unmarshalConsensus :: "bytes \<Rightarrow> ConsensusTransaction option"
  unmarshalSBAC :: "bytes \<Rightarrow> SBACMessage option"
  unmarshalAdd :: "bytes \<Rightarrow> (Transaction option \<times> evidences) option"
  unmarshalCreate :: "bytes \<Rightarrow> bytes option"
  unmarshalCreates :: "bytes \<Rightarrow> (bytes list) option"
  unmarshalQuery :: "bytes \<Rightarrow> (bytes option) option"
  marshalAck :: "u64 \<Rightarrow> bytes \<times> bool"
  marshalObjects :: "Object list \<Rightarrow> bytes \<times> bool"
  marshalCreate :: "bytes \<Rightarrow> store_err option \<Rightarrow> bool \<Rightarrow> bytes"
  marshalCreates :: "bytes list \<Rightarrow> store_err option \<Rightarrow> bool \<Rightarrow> bytes"
  marshalQuery :: "Object option \<Rightarrow> store_err option \<Rightarrow> bool \<Rightarrow> bytes"
  marshalStates :: "StateReport list \<Rightarrow> u32 \<Rightarrow> bytes \<times> bool"

datatype svc_err = SvcUnmarshal | SvcMarshal | SvcEvidence | SvcUnknownOpcode u32 | SvcStore store_err | SvcCount

subsection \<open>Scheduler\<close>

definition sched_Add :: "DetailTx \<Rightarrow> State \<Rightarrow> service \<Rightarrow> service" where
  "sched_Add detail initialState s =
     s\<lparr>svc_machines := svc_machines s @ [(NewStateMachine detail initialState, Idle)],
       svc_txstates := mput (dt_ID detail) (length (svc_machines s)) (svc_txstates s)\<rparr>"

definition sched_Get :: "bytes \<Rightarrow> service \<Rightarrow> nat option" where
  "sched_Get txID s = map_of (svc_txstates s) txID"

definition sched_GetOrCreate :: "DetailTx \<Rightarrow> State \<Rightarrow> service \<Rightarrow> service" where
  "sched_GetOrCreate detail initialState s =
     (case map_of (svc_txstates s) (dt_ID detail) of
        Some i \<Rightarrow> s
      | None \<Rightarrow> sched_Add detail initialState s)"

definition sched_StatesReport :: "service \<Rightarrow> (StateReport list) may_panic" where
  "sched_StatesReport s = ofold (\<lambda>(k, i) sr. omap (\<lambda>r. sr @ [r]) (sm_StateReport (fst (svc_machines s ! i)))) (svc_txstates s) []"

text \<open>One pass of the collector, which is never started.\<close>

definition gc_pass :: "service \<Rightarrow> service" where
  "gc_pass s = s\<lparr>svc_txstates := filter (\<lambda>(k, i).
     m_state (fst (svc_machines s ! i)) \<noteq> StateAborted \<and> m_state (fst (svc_machines s ! i)) \<noteq> StateSucceeded) (svc_txstates s)\<rparr>"

subsection \<open>Queue of events\<close>

definition machine_OnEvent :: "nat \<Rightarrow> Event \<Rightarrow> service \<Rightarrow> service" where
  "machine_OnEvent i ev s =
     s\<lparr>svc_machines := (svc_machines s)[i := (OnEvent ev (fst (svc_machines s ! i)), snd (svc_machines s ! i))]\<rparr>"

definition consumeEvents :: "Event \<Rightarrow> service \<Rightarrow> (bool \<times> service) may_panic" where
  "consumeEvents ev s =
     (case TxnFinished (Event_TxID ev) (w_store (svc_world s)) of
        Panic r \<Rightarrow> Panic r
      | Err _ \<Rightarrow> Ok (True, s)
      | Ok _ \<Rightarrow>
          (case sched_Get (Event_TxID ev) s of
             Some i \<Rightarrow> Ok (True, machine_OnEvent i ev s)
           | None \<Rightarrow> Ok (False, s)))"

definition pe_OnEvent :: "Event \<Rightarrow> service \<Rightarrow> service" where
  "pe_OnEvent ev s = s\<lparr>svc_pe := svc_pe s @ [ev]\<rparr>"

text \<open>One turn of \<open>Run\<close>: an event that is not consumed goes back to the end of the queue.\<close>

definition pe_Run :: "service \<Rightarrow> (service may_panic) option" where
  "pe_Run s =
     (case svc_pe s of
        [] \<Rightarrow> None
      | ev # evs \<Rightarrow> Some (omap (\<lambda>(consumed, s1). if consumed then s1 else pe_OnEvent ev s1)
          (consumeEvents ev (s\<lparr>svc_pe := evs\<rparr>))))"

subsection \<open>Deliveries and messages\<close>

definition checkEvent :: "env \<Rightarrow> ConsensusTransaction \<Rightarrow> service \<Rightarrow> service" where
  "checkEvent e d s =
     (if ct_Op d = ConsensusOp_Consensus1 then
        sched_GetOrCreate \<lparr>dt_ID = ct_TxID d, dt_RawTx = fst (marshalTx e (ct_Tx d)), dt_Tx = ct_Tx d,
          dt_Evidences = ct_Evidences d, dt_HashID = ID (ct_TxID d)\<rparr> StateWaitingForConsensus1 s
      else s)"

definition deliver_tx :: "env \<Rightarrow> codec \<Rightarrow> bytes \<Rightarrow> service \<Rightarrow> service" where
  "deliver_tx e c txdata s =
     (case unmarshalConsensus c txdata of
        None \<Rightarrow> s
      | Some tx \<Rightarrow> pe_OnEvent (NewConsensusEvent tx) (checkEvent e tx s))"

text \<open>A delivered block is the list of its transaction data, or \<open>None\<close> when it cannot be decoded.\<close>

definition handleDeliver :: "env \<Rightarrow> codec \<Rightarrow> (bytes list option) list \<Rightarrow> service \<Rightarrow> service may_panic" where
  "handleDeliver e c blocks s =
     ofold (\<lambda>block s. case block of None \<Rightarrow> Panic LogFatal | Some txs \<Rightarrow> Ok (fold (deliver_tx e c) txs s)) blocks s"

type_synonym reply = "service \<times> (svc_err + Message)"

definition reply_msg :: "u64 \<Rightarrow> u32 \<Rightarrow> bytes \<Rightarrow> Message" where
  "reply_msg i opcode payload = \<lparr>msg_ID = i, msg_Error = [], msg_Opcode = opcode, msg_Payload = payload\<rparr>"

definition handleSBAC :: "env \<Rightarrow> codec \<Rightarrow> bytes \<Rightarrow> u64 \<Rightarrow> service \<Rightarrow> reply" where
  "handleSBAC e c payload msgID s =
     (case unmarshalSBAC c payload of
        None \<Rightarrow> (s, Inl SvcUnmarshal)
      | Some req \<Rightarrow>
          let s1 = (if sm_Op req = SBACOp_Commit then
                sched_GetOrCreate \<lparr>dt_ID = sm_TxID req, dt_RawTx = fst (marshalTx e (sm_Tx req)), dt_Tx = sm_Tx req,
                  dt_Evidences = sm_Evidences req, dt_HashID = ID (sm_TxID req)\<rparr> StateWaitingForCommit s
                else s);
              s2 = pe_OnEvent (NewSBACEvent req) s1;
              (payloadres, err) = marshalAck c msgID
          in (s2, if err then Inl SvcMarshal else Inr (reply_msg msgID Opcode_SBAC payloadres)))"

definition AddTransaction :: "env \<Rightarrow> Transaction option \<Rightarrow> evidences \<Rightarrow> service \<Rightarrow> (service \<times> (svc_err + Object list)) may_panic" where
  "AddTransaction e txp evs s =
     obind (deref_tx txp) (\<lambda>tx.
       let ids = MakeIDs (sha e) tx; txbytes = fst (marshalTx e txp) in
       obind (verifyEvidenceSignature e txbytes evs) (\<lambda>ok.
         if \<not> ok then Ok (s, Inl SvcEvidence)
         else
           let objects = concat (map top_OutputObjects (ids_TraceObjectPairs ids));
               s1 = sched_Add \<lparr>dt_ID = ids_TxID ids, dt_RawTx = txbytes, dt_Tx = txp, dt_Evidences = evs,
                      dt_HashID = ID (ids_TxID ids)\<rparr> StateWaitingForConsensus1 s;
               (b, err) = marshalConsensus e \<lparr>ct_TxID = ids_TxID ids, ct_Tx = txp, ct_Evidences = evs,
                      ct_Op = ConsensusOp_Consensus1, ct_Initiator = nodeID e\<rparr>
           in if err then Ok (s1, Inl SvcMarshal)
              else Ok (s1\<lparr>svc_world := (svc_world s1)\<lparr>w_broadcast := w_broadcast (svc_world s1) @ [(b, 0)]\<rparr>\<rparr>, Inr objects)))"

definition handleAddTransaction :: "env \<Rightarrow> codec \<Rightarrow> bytes \<Rightarrow> u64 \<Rightarrow> service \<Rightarrow> reply may_panic" where
  "handleAddTransaction e c payload i s =
     (case unmarshalAdd c payload of
        None \<Rightarrow> Ok (s, Inl SvcUnmarshal)
      | Some (tx, evs) \<Rightarrow> omap (\<lambda>(s1, r).
          case r of
            Inl err \<Rightarrow> (s1, Inl err)
          | Inr objects \<Rightarrow> let (b, err) = marshalObjects c objects in
              (s1, if err then Inl SvcMarshal else Inr (reply_msg i Opcode_ADD_TRANSACTION b))) (AddTransaction e tx evs s))"

subsection \<open>Objects\<close>

text \<open>\<open>store.CreateObject\<close> under the hash of the object.\<close>

definition create_object :: "env \<Rightarrow> bytes \<Rightarrow> service \<Rightarrow> (store_err + bytes \<times> service) may_panic" where
  "create_object e ob s =
     (case CreateObject (sha e ob) ob (w_store (svc_world s)) of
        Panic r \<Rightarrow> Panic r
      | Err x \<Rightarrow> Ok (Inl x)
      | Ok (o1, d) \<Rightarrow> Ok (Inr (VersionID o1, s\<lparr>svc_world := (svc_world s)\<lparr>w_store := d\<rparr>\<rparr>)))"

definition createPayload :: "codec \<Rightarrow> u64 \<Rightarrow> bytes \<Rightarrow> store_err option \<Rightarrow> bool \<Rightarrow> Message" where
  "createPayload c i vid err bad = reply_msg i Opcode_CREATE_OBJECT (marshalCreate c vid err bad)"

definition createObjectsPayload :: "codec \<Rightarrow> u64 \<Rightarrow> bytes list \<Rightarrow> store_err option \<Rightarrow> bool \<Rightarrow> Message" where
  "createObjectsPayload c i vids err bad = reply_msg i Opcode_CREATE_OBJECT (marshalCreates c vids err bad)"

definition queryPayload :: "codec \<Rightarrow> u64 \<Rightarrow> Object option \<Rightarrow> store_err option \<Rightarrow> bool \<Rightarrow> Message" where
  "queryPayload c i ob err bad = reply_msg i Opcode_QUERY_OBJECT (marshalQuery c ob err bad)"

text \<open>The flag of a response stands for an error of the request itself: it cannot be decoded or it
  names no object.\<close>

definition handleCreateObject :: "env \<Rightarrow> codec \<Rightarrow> bytes \<Rightarrow> u64 \<Rightarrow> service \<Rightarrow> reply may_panic" where
  "handleCreateObject e c payload i s =
     (case unmarshalCreate c payload of
        None \<Rightarrow> Ok (s, Inr (createPayload c i [] None True))
      | Some ob \<Rightarrow>
          if ob = [] then Ok (s, Inr (createPayload c i [] None True))
          else omap (\<lambda>r. case r of
              Inl x \<Rightarrow> (s, Inr (createPayload c i [] (Some x) False))
            | Inr (vid, s1) \<Rightarrow> (s1, Inr (createPayload c i vid None False))) (create_object e ob s))"

text \<open>The loop stops at the first object that cannot be created; those before it stay.\<close>

fun create_loop :: "env \<Rightarrow> bytes list \<Rightarrow> bytes list \<Rightarrow> service \<Rightarrow> (service \<times> bytes list \<times> store_err option) may_panic" where
  "create_loop e [] out s = Ok (s, out, None)"
| "create_loop e (ob # obs) out s =
     obind (create_object e ob s) (\<lambda>r. case r of
         Inl x \<Rightarrow> Ok (s, out, Some x)
       | Inr (vid, s1) \<Rightarrow> create_loop e obs (out @ [vid]) s1)"

definition handleCreateObjects :: "env \<Rightarrow> codec \<Rightarrow> bytes \<Rightarrow> u64 \<Rightarrow> service \<Rightarrow> reply may_panic" where
  "handleCreateObjects e c payload i s =
     (case unmarshalCreates c payload of
        None \<Rightarrow> Ok (s, Inr (createObjectsPayload c i [] None True))
      | Some obs \<Rightarrow>
          if obs = [] then Ok (s, Inr (createObjectsPayload c i [] None True))
          else omap (\<lambda>(s1, out, err). (s1, Inr (createObjectsPayload c i (if err = None then out else []) err False)))
            (create_loop e obs [] s))"

definition handleQueryObject :: "codec \<Rightarrow> bytes \<Rightarrow> u64 \<Rightarrow> service \<Rightarrow> reply may_panic" where
  "handleQueryObject c payload i s =
     (case unmarshalQuery c payload of
        None \<Rightarrow> Ok (s, Inr (queryPayload c i None None True))
      | Some None \<Rightarrow> Ok (s, Inr (queryPayload c i None None True))
      | Some (Some vid) \<Rightarrow>
          (case GetObjects [vid] (w_store (svc_world s)) of
             Panic r \<Rightarrow> Panic r
           | Err x \<Rightarrow> Ok (s, Inr (queryPayload c i None (Some x) False))
           | Ok objects \<Rightarrow>
               if length objects \<noteq> 1 then Ok (s, Inr (queryPayload c i None None True))
               else Ok (s, Inr (queryPayload c i (Some (objects ! 0)) None False))))"

definition QueryObjectByVersionID :: "bytes \<Rightarrow> service \<Rightarrow> (svc_err, bytes) outcome" where
  "QueryObjectByVersionID vid s =
     (case GetObjects [vid] (w_store (svc_world s)) of
        Panic r \<Rightarrow> Panic r
      | Err x \<Rightarrow> Err (SvcStore x)
      | Ok objects \<Rightarrow> if length objects \<noteq> 1 then Err SvcCount else Ok (Value (objects ! 0)))"

definition handleStates :: "codec \<Rightarrow> u64 \<Rightarrow> service \<Rightarrow> reply may_panic" where
  "handleStates c i s =
     omap (\<lambda>sr. let (b, err) = marshalStates c sr (of_nat (length (svc_pe s))) in
       (s, if err then Inl SvcMarshal else Inr (reply_msg i Opcode_STATES b))) (sched_StatesReport s)"

definition svc_StatesReport :: "service \<Rightarrow> (StateReport list \<times> u32) may_panic" where
  "svc_StatesReport s = omap (\<lambda>sr. (sr, of_nat (length (svc_pe s)))) (sched_StatesReport s)"

definition svc_Handle :: "env \<Rightarrow> codec \<Rightarrow> Message \<Rightarrow> service \<Rightarrow> reply may_panic" where
  "svc_Handle e c m s =
     (if msg_Opcode m = Opcode_ADD_TRANSACTION then handleAddTransaction e c (msg_Payload m) (msg_ID m) s
      else if msg_Opcode m = Opcode_QUERY_OBJECT then handleQueryObject c (msg_Payload m) (msg_ID m) s
      else if msg_Opcode m = Opcode_CREATE_OBJECT then handleCreateObject e c (msg_Payload m) (msg_ID m) s
      else if msg_Opcode m = Opcode_STATES then handleStates c (msg_ID m) s
      else if msg_Opcode m = Opcode_SBAC then Ok (handleSBAC e c (msg_Payload m) (msg_ID m) s)
      else if msg_Opcode m = Opcode_CREATE_OBJECTS then handleCreateObjects e c (msg_Payload m) (msg_ID m) s
      else Ok (s, Inl (SvcUnknownOpcode (msg_Opcode m))))"

definition New_service :: "db \<Rightarrow> db \<Rightarrow> service" where
  "New_service store kv = \<lparr>svc_world = \<lparr>w_store = store, w_kv = kv, w_sent = [], w_published = [], w_broadcast = []\<rparr>,
     svc_machines = [], svc_txstates = [], svc_pe = []\<rparr>"

end
