(* ===== verification/SbacTurns.thy ===== *)
theory SbacTurns
  imports SbacService
begin

text \<open>
  The loops of a machine (\<open>moveState\<close>, \<open>applyTransition\<close>) and the turns of its goroutine that the
  system runs interleave (\<open>move_once\<close>, \<open>apply_once\<close>) are two readings of the same lines of
  \<open>state_machine.go\<close>. They agree: what \<open>consumeEvent\<close> computes in one go
  is reached by turns, between which other goroutines may run.
\<close>

section \<open>Turns and loops\<close>

inductive turns :: "env \<Rightarrow> thread \<times> world \<Rightarrow> thread \<times> world \<Rightarrow> bool" for e :: env where
  turns_refl: "turns e x x"
| turns_step: "thread_step e (fst x) (snd x) = Some (Ok y) \<Longrightarrow> turns e y z \<Longrightarrow> turns e x z"

lemma turns_trans: "turns e x y \<Longrightarrow> turns e y z \<Longrightarrow> turns e x z"
proof (induction rule: turns.induct)
  case (turns_step x y z')
  show ?case by (rule turns.turns_step [OF turns_step.hyps(1) turns_step.IH [OF turns_step.prems]])
qed

lemma turns_one: "thread_step e th w = Some (Ok y) \<Longrightarrow> turns e (th, w) y"
  by (rule turns_step [OF _ turns_refl]) simp

lemma apply_turns:
  "applyTransition e (m_states sm) (m_state sm) b w = Ok (w1, c, err) \<Longrightarrow>
     turns e ((sm, Applying b), w) ((sm\<lparr>m_state := c\<rparr>, Moving), w1)"
proof (induction "state_rank (m_state sm)" arbitrary: sm b w rule: less_induct)
  case less
  show ?case
  proof (cases "map_of (transitions e) (m_state sm, b)")
    case None
    then have "applyTransition e (m_states sm) (m_state sm) b w = Ok (w, m_state sm, None)" by (rule apply_stop)
    with less.prems have r: "w1 = w" "c = m_state sm" by simp_all
    have "thread_step e (sm, Applying b) w = Some (Ok ((sm, Moving), w))"
      by (simp add: thread_step_def apply_once_def None)
    from turns_one [OF this] show ?thesis by (simp add: r)
  next
    case (Some f)
    with less.prems obtain w2 nx err2 where f: "f (m_states sm) w = Ok (w2, nx, err2)"
      by (auto simp: applyTransition.simps [of e "m_states sm" "m_state sm" b w] outcome_simps)
    show ?thesis
    proof (cases err2)
      case None
      with less.prems Some f have "applyTransition e (m_states sm) b nx w2 = Ok (w1, c, err)"
        by (simp add: applyTransition.simps [of e "m_states sm" "m_state sm" b w])
      then have t2: "turns e ((sm\<lparr>m_state := b\<rparr>, Applying nx), w2) ((sm\<lparr>m_state := b\<rparr>\<lparr>m_state := c\<rparr>, Moving), w1)"
        by (intro less.hyps) (simp_all add: transitions_descend [OF Some])
      have t1: "thread_step e (sm, Applying b) w = Some (Ok ((sm\<lparr>m_state := b\<rparr>, Applying nx), w2))"
        by (simp add: thread_step_def apply_once_def Some f None)
      show ?thesis using turns_trans [OF turns_one [OF t1] t2] by simp
    next
      case (Some x)
      with less.prems \<open>map_of _ _ = Some f\<close> f have r: "w1 = w2" "c = m_state sm"
        by (simp_all add: applyTransition.simps [of e "m_states sm" "m_state sm" b w])
      have "thread_step e (sm, Applying b) w = Some (Ok ((sm, Moving), w2))"
        by (simp add: thread_step_def apply_once_def \<open>map_of _ _ = Some f\<close> f Some)
      from turns_one [OF this] show ?thesis by (simp add: r)
    qed
  qed
qed

lemma move_body_turns:
  assumes ih: "\<And>c' w' sm w1 c1. mv c' w' = Some (Ok (w1, c1)) \<Longrightarrow> m_states sm = st \<Longrightarrow> m_state sm = c' \<Longrightarrow>
      turns e ((sm, Moving), w') ((sm\<lparr>m_state := c1\<rparr>, Idle), w1)"
    and body: "(case map_of (actions e) c of
        None \<Rightarrow> Some (Ok (w, c))
      | Some action \<Rightarrow>
          (case action st w of
             Panic r \<Rightarrow> Some (Panic r)
           | Err u \<Rightarrow> Some (Err u)
           | Ok newstate \<Rightarrow>
               if newstate = c then Some (Ok (w, c))
               else if mhas (transitions e) (c, newstate) then
                 (case applyTransition e st c newstate w of
                    Panic r \<Rightarrow> Some (Panic r)
                  | Err u \<Rightarrow> Some (Err u)
                  | Ok r \<Rightarrow> mv (fst (snd r)) (fst r))
               else mv newstate w)) = Some (Ok (w1, c1))"
    and sm: "m_states sm = st" "m_state sm = c"
  shows "turns e ((sm, Moving), w) ((sm\<lparr>m_state := c1\<rparr>, Idle), w1)"
proof -
  have same: "sm\<lparr>m_state := c\<rparr> = sm" using sm(2) by simp
  have stop: ?thesis if "w1 = w" "c1 = c" "move_once e sm w = Ok ((sm, Idle), w)"
  proof -
    have "thread_step e (sm, Moving) w = Some (Ok ((sm, Idle), w))" using that(3) by (simp add: thread_step_def)
    from turns_one [OF this] show ?thesis by (simp add: that(1,2) same)
  qed
  show ?thesis
  proof (cases "map_of (actions e) c")
    case None
    with body have "w1 = w" "c1 = c" by auto
    moreover have "move_once e sm w = Ok ((sm, Idle), w)" unfolding move_once_def sm(2) None by simp
    ultimately show ?thesis by (rule stop)
  next
    case (Some act)
    with body obtain new where new: "act st w = Ok new" by (auto split: outcome.splits)
    have once: "move_once e sm w = (if new = c then Ok ((sm, Idle), w)
        else if mhas (transitions e) (c, new) then Ok ((sm, Applying new), w) else Ok ((sm\<lparr>m_state := new\<rparr>, Moving), w))"
      unfolding move_once_def sm(2) Some by (simp add: sm(1) new)
    consider "new = c" | "new \<noteq> c" "mhas (transitions e) (c, new)" | "new \<noteq> c" "\<not> mhas (transitions e) (c, new)" by blast
    then show ?thesis
    proof cases
      case 1
      with body Some new have "w1 = w" "c1 = c" by auto
      then show ?thesis by (rule stop) (simp add: once 1)
    next
      case 2
      with body Some new obtain w2 c2 err where a: "applyTransition e st c new w = Ok (w2, c2, err)" and m: "mv c2 w2 = Some (Ok (w1, c1))"
        by (auto split: outcome.splits)
      have t1: "thread_step e (sm, Moving) w = Some (Ok ((sm, Applying new), w))" using once 2 by (simp add: thread_step_def)
      have t2: "turns e ((sm, Applying new), w) ((sm\<lparr>m_state := c2\<rparr>, Moving), w2)"
        by (rule apply_turns) (use a sm in simp)
      have "turns e ((sm\<lparr>m_state := c2\<rparr>, Moving), w2) ((sm\<lparr>m_state := c2\<rparr>\<lparr>m_state := c1\<rparr>, Idle), w1)"
        by (rule ih [OF m]) (simp_all add: sm)
      from turns_trans [OF turns_one [OF t1] turns_trans [OF t2 this]] show ?thesis by simp
    next
      case 3
      with body Some new have m: "mv new w = Some (Ok (w1, c1))" by auto
      have t1: "thread_step e (sm, Moving) w = Some (Ok ((sm\<lparr>m_state := new\<rparr>, Moving), w))" using once 3 by (simp add: thread_step_def)
      have "turns e ((sm\<lparr>m_state := new\<rparr>, Moving), w) ((sm\<lparr>m_state := new\<rparr>\<lparr>m_state := c1\<rparr>, Idle), w1)"
        by (rule ih [OF m]) (simp_all add: sm)
      from turns_trans [OF turns_one [OF t1] this] show ?thesis by simp
    qed
  qed
qed

lemma move_turns:
  assumes "moveState e st c w = Some r"
  shows "\<forall>sm w1 c1. r = Ok (w1, c1) \<longrightarrow> m_states sm = st \<longrightarrow> m_state sm = c \<longrightarrow>
     turns e ((sm, Moving), w) ((sm\<lparr>m_state := c1\<rparr>, Idle), w1)"
proof (rule moveState.raw_induct [OF _ assms], intro allI impI)
  fix mv and e :: env and st c w r and sm :: StateMachine and w1 c1
  assume ih: "\<And>e st c w r. mv e st c w = Some r \<Longrightarrow> \<forall>sm w1 c1. r = Ok (w1, c1) \<longrightarrow> m_states sm = st \<longrightarrow> m_state sm = c \<longrightarrow>
      turns e ((sm, Moving), w) ((sm\<lparr>m_state := c1\<rparr>, Idle), w1)"
    and body: "(case map_of (actions e) c of
        None \<Rightarrow> Some (Ok (w, c))
      | Some action \<Rightarrow>
          (case action st w of
             Panic r \<Rightarrow> Some (Panic r)
           | Err u \<Rightarrow> Some (Err u)
           | Ok newstate \<Rightarrow>
               if newstate = c then Some (Ok (w, c))
               else if mhas (transitions e) (c, newstate) then
                 (case applyTransition e st c newstate w of
                    Panic r \<Rightarrow> Some (Panic r)
                  | Err u \<Rightarrow> Some (Err u)
                  | Ok r \<Rightarrow> mv e st (fst (snd r)) (fst r))
               else mv e st newstate w)) = Some r"
    and r: "r = Ok (w1, c1)" and sm: "m_states sm = st" "m_state sm = c"
  show "turns e ((sm, Moving), w) ((sm\<lparr>m_state := c1\<rparr>, Idle), w1)"
    by (rule move_body_turns [where mv = "mv e st", OF _ body [unfolded r] sm]) (use ih in simp)
qed

text \<open>Handling an event by the loops of the code is a sequence of turns. Whenever \<open>consumeEvent\<close>
  returns, the goroutine of the machine can take the event from its queue and reach, by turns alone,
  the same machine and world.\<close>

lemma consumeEvent_is_turns:
  assumes "consumeEvent e ev sm w = Some (Ok (sm1, w1))"
  shows "turns e ((sm\<lparr>m_events := ev # evs\<rparr>, Idle), w) ((sm1\<lparr>m_events := evs\<rparr>, Idle), w1)"
proof -
  from assms obtain st err where p: "sm_processEvent e ev (m_states sm) = Ok (st, err)"
    by (auto simp: consumeEvent_def split: outcome.splits)
  show ?thesis
  proof (cases "m_state sm = StateSucceeded \<or> m_state sm = StateAborted")
    case True
    with assms p have r: "sm1 = sm\<lparr>m_states := st\<rparr>" "w1 = w" by (auto simp: consumeEvent_def)
    have "thread_step e (sm\<lparr>m_events := ev # evs\<rparr>, Idle) w = Some (Ok ((sm\<lparr>m_events := ev # evs, m_states := st, m_events := evs\<rparr>, Idle), w))"
      using True by (simp add: thread_step_def take_event_def p Let_def)
    from turns_one [OF this] show ?thesis by (simp add: r)
  next
    case False
    with assms p obtain c where m: "moveState e st (m_state sm) w = Some (Ok (w1, c))"
      and r: "sm1 = sm\<lparr>m_states := st, m_state := c\<rparr>"
      by (auto simp: consumeEvent_def outcome_simps)
    let ?sm = "sm\<lparr>m_states := st, m_events := evs\<rparr>"
    have t1: "thread_step e (sm\<lparr>m_events := ev # evs\<rparr>, Idle) w = Some (Ok ((?sm, Moving), w))"
      using False by (simp add: thread_step_def take_event_def p Let_def)
    have t2: "turns e ((?sm, Moving), w) ((?sm\<lparr>m_state := c\<rparr>, Idle), w1)"
      using move_turns [OF m] by simp
    have "?sm\<lparr>m_state := c\<rparr> = sm1\<lparr>m_events := evs\<rparr>" unfolding r by (cases sm) simp
    with turns_trans [OF turns_one [OF t1] t2] show ?thesis by simp
  qed
qed

end
