(* ===== verification/SbacSystem.thy ===== *)
theory SbacSystem
  imports SbacTurns
begin

text \<open>
  All interleavings of a node. A step of the system is a turn of one goroutine: a delivery of the
  broadcaster, a request, a turn of the event queue, or a turn of one machine. A step is labelled
  with the objects it consumes. Over any run no object is consumed twice.
\<close>

section \<open>Interleavings\<close>

text \<open>The objects a turn of a machine consumes: those of a deactivation that succeeds.\<close>

definition spent :: "env \<Rightarrow> thread \<Rightarrow> world \<Rightarrow> bytes list" where
  "spent e th w =
     (case dt_Tx (st_detail (m_states (fst th))) of
        None \<Rightarrow> []
      | Some tx \<Rightarrow>
          if snd th = Applying StateObjectsDeactivated \<and> mhas (transitions e) (m_state (fst th), StateObjectsDeactivated) \<and>
             is_ok (DeactivateObjects (local_inputs e tx) (w_store w))
          then local_inputs e tx else [])"

inductive sys_step :: "env \<Rightarrow> codec \<Rightarrow> service \<Rightarrow> bytes list \<Rightarrow> service \<Rightarrow> bool" for e :: env and c :: codec where
  sys_deliver: "handleDeliver e c blocks s = Ok s1 \<Longrightarrow> sys_step e c s [] s1"
| sys_handle: "svc_Handle e c m s = Ok (s1, r) \<Longrightarrow> sys_step e c s [] s1"
| sys_queue: "pe_Run s = Some (Ok s1) \<Longrightarrow> sys_step e c s [] s1"
| sys_thread: "i < length (svc_machines s) \<Longrightarrow> thread_step e (svc_machines s ! i) (svc_world s) = Some (Ok (th, w)) \<Longrightarrow>
    sys_step e c s (spent e (svc_machines s ! i) (svc_world s)) (s\<lparr>svc_machines := (svc_machines s)[i := th], svc_world := w\<rparr>)"

inductive sys_run :: "env \<Rightarrow> codec \<Rightarrow> service \<Rightarrow> bytes list list \<Rightarrow> service \<Rightarrow> bool" for e :: env and c :: codec and s :: service where
  run_start: "sys_run e c s [] s"
| run_step: "sys_run e c s ls s1 \<Longrightarrow> sys_step e c s1 l s2 \<Longrightarrow> sys_run e c s (ls @ [l]) s2"

subsection \<open>Steps and the store\<close>

lemma sched_world [simp]:
  "svc_world (sched_Add dt i s) = svc_world s" "svc_world (sched_GetOrCreate dt i s) = svc_world s"
  "svc_world (pe_OnEvent ev s) = svc_world s" "svc_world (machine_OnEvent i' ev s) = svc_world s"
  "svc_world (checkEvent e d s) = svc_world s" "svc_world (deliver_tx e c b s) = svc_world s"
  by (simp_all add: sched_Add_def sched_GetOrCreate_def pe_OnEvent_def machine_OnEvent_def checkEvent_def deliver_tx_def
      split: option.splits)

lemma handleDeliver_world:
  assumes "handleDeliver e c blocks s = Ok s1"
  shows "svc_world s1 = svc_world s"
proof -
  have f: "svc_world (fold (deliver_tx e c) txs u) = svc_world u" for txs u by (induction txs arbitrary: u) simp_all
  show ?thesis
    by (rule ofold_invariant [where P = "\<lambda>u. svc_world u = svc_world s", OF assms [unfolded handleDeliver_def]])
      (auto simp: f split: option.splits)
qed

lemma pe_Run_world: "pe_Run s = Some (Ok s1) \<Longrightarrow> svc_world s1 = svc_world s"
  by (auto simp: pe_Run_def consumeEvents_def outcome_simps split: list.splits outcome.splits option.splits if_splits)

definition store_history :: "db \<Rightarrow> db \<Rightarrow> bool" where
  "store_history d d1 \<longleftrightarrow> (\<exists>cmds. d1 = fold run_cmd cmds d)"

lemma history_refl [simp]: "store_history d d"
  unfolding store_history_def by (rule exI [of _ "[]"]) simp

lemma history_trans: "store_history d d1 \<Longrightarrow> store_history d1 d2 \<Longrightarrow> store_history d d2"
  unfolding store_history_def by (metis fold_append comp_apply)

lemma create_object_history:
  "create_object e ob s = Ok (Inr (vid, s1)) \<Longrightarrow> store_history (w_store (svc_world s)) (w_store (svc_world s1))"
proof -
  assume "create_object e ob s = Ok (Inr (vid, s1))"
  then obtain o1 d where c: "CreateObject (sha e ob) ob (w_store (svc_world s)) = Ok (o1, d)" "w_store (svc_world s1) = d"
    by (auto simp: create_object_def split: outcome.splits)
  then obtain o2 where "createObject o2 (w_store (svc_world s)) = Ok d" by (auto simp: CreateObject_def Let_def outcome_simps)
  then have "d = fold run_cmd [CmdCreate [o2]] (w_store (svc_world s))" by (simp add: run_cmd_def CreateObjects_def createObjects_def)
  with c(2) show ?thesis unfolding store_history_def by blast
qed

lemma create_loop_history:
  "create_loop e obs out s = Ok (s1, out1, err) \<Longrightarrow> store_history (w_store (svc_world s)) (w_store (svc_world s1))"
proof (induction e obs out s rule: create_loop.induct)
  case (2 e ob obs out s)
  then obtain r where r: "create_object e ob s = Ok r" by (auto simp: outcome_simps)
  show ?case
  proof (cases r)
    case (Inl x)
    with r "2.prems" show ?thesis by simp
  next
    case (Inr vs)
    obtain vid s2 where vs: "vs = (vid, s2)" by (cases vs)
    with r Inr "2.prems" have "create_loop e obs (out @ [vid]) s2 = Ok (s1, out1, err)" by simp
    from history_trans [OF create_object_history "2.IH" [OF r Inr vs [symmetric] this]] r Inr vs show ?thesis by simp
  qed
qed simp

lemma handle_history:
  assumes "svc_Handle e c m s = Ok (s1, r)"
  shows "store_history (w_store (svc_world s)) (w_store (svc_world s1))"
proof -
  have add: "handleAddTransaction e c p i s = Ok (s1, r) \<Longrightarrow> w_store (svc_world s1) = w_store (svc_world s)" for p i
    by (auto simp: handleAddTransaction_def AddTransaction_def outcome_simps Let_def split: option.splits if_splits prod.splits sum.splits)
  have query: "handleQueryObject c p i s = Ok (s1, r) \<Longrightarrow> w_store (svc_world s1) = w_store (svc_world s)" for p i
    by (auto simp: handleQueryObject_def split: option.splits if_splits outcome.splits)
  have states: "handleStates c i s = Ok (s1, r) \<Longrightarrow> w_store (svc_world s1) = w_store (svc_world s)" for i
    by (auto simp: handleStates_def outcome_simps case_prod_beta)
  have create: "store_history (w_store (svc_world s)) (w_store (svc_world s1))"
    if h: "handleCreateObject e c p i s = Ok (s1, r)" for p i
  proof (cases "\<exists>ob. unmarshalCreate c p = Some ob \<and> ob \<noteq> []")
    case True
    then obtain ob where "unmarshalCreate c p = Some ob" "ob \<noteq> []" by blast
    with h obtain v where v: "create_object e ob s = Ok v"
      "(s1, r) = (case v of Inl x \<Rightarrow> (s, Inr (createPayload c i [] (Some x) False))
         | Inr (vid, s1) \<Rightarrow> (s1, Inr (createPayload c i vid None False)))"
      by (auto simp: handleCreateObject_def omap_eq_Ok)
    then show ?thesis by (cases v) (auto dest: create_object_history)
  next
    case False
    with h have "s1 = s" by (auto simp: handleCreateObject_def split: option.splits)
    then show ?thesis by simp
  qed
  have creates: "handleCreateObjects e c p i s = Ok (s1, r) \<Longrightarrow> store_history (w_store (svc_world s)) (w_store (svc_world s1))" for p i
    by (auto simp: handleCreateObjects_def outcome_simps split: option.splits if_splits dest: create_loop_history)
  have sbac: "svc_world (fst (handleSBAC e c p i s)) = svc_world s" for p i
    by (simp add: handleSBAC_def Let_def case_prod_beta split: option.splits)
  show ?thesis
    using assms add query states create creates sbac [of "msg_Payload m" "msg_ID m"]
    unfolding svc_Handle_def by (auto split: if_splits)
qed

lemma thread_store:
  assumes "thread_step e th w = Some (Ok (th1, w1))"
  shows "store_history (w_store w) (w_store w1)"
proof (cases "snd th")
  case Idle
  with assms show ?thesis
    by (auto simp: thread_step_def take_event_def outcome_simps Let_def split: list.splits if_splits)
next
  case Moving
  with assms show ?thesis
    by (auto simp: thread_step_def move_once_def outcome_simps split: option.splits if_splits)
next
  case (Applying b)
  then have a: "apply_once e b (fst th) w = Ok (th1, w1)" using assms by (simp add: thread_step_def)
  show ?thesis
  proof (cases "map_of (transitions e) (m_state (fst th), b)")
    case None
    with a show ?thesis by (simp add: apply_once_def)
  next
    case (Some f)
    with a obtain nx err where "f (m_states (fst th)) w = Ok (w1, nx, err)"
      by (auto simp: apply_once_def outcome_simps split: if_splits)
    from transition_store [OF Some this] show ?thesis unfolding store_history_def by blast
  qed
qed

lemma step_history: "sys_step e c s l s1 \<Longrightarrow> store_history (w_store (svc_world s)) (w_store (svc_world s1))"
proof (induction rule: sys_step.induct)
  case (sys_deliver blocks s s1)
  then show ?case by (simp add: handleDeliver_world)
next
  case (sys_queue s s1)
  then show ?case by (simp add: pe_Run_world)
next
  case (sys_thread i s th w)
  from thread_store [OF sys_thread(2)] show ?case by simp
qed (rule handle_history)

subsection \<open>Consumption\<close>

lemma history_wf: "store_history d d1 \<Longrightarrow> store_wf d \<Longrightarrow> store_wf d1"
  unfolding store_history_def by (auto intro: run_cmds_wf)

lemma history_inactive:
  "store_history d d1 \<Longrightarrow> store_wf d \<Longrightarrow> status_of d k = Some ObjectStatus_INACTIVE \<Longrightarrow> status_of d1 k = Some ObjectStatus_INACTIVE"
  unfolding store_history_def by (auto intro: run_cmds_inactive)

lemma spent_cases:
  assumes "spent e th w \<noteq> []"
  obtains tx d where "dt_Tx (st_detail (m_states (fst th))) = Some tx" "snd th = Applying StateObjectsDeactivated"
    "mhas (transitions e) (m_state (fst th), StateObjectsDeactivated)" "spent e th w = local_inputs e tx"
    "DeactivateObjects (local_inputs e tx) (w_store w) = Ok d"
  using assms by (auto simp: spent_def is_ok_iff split: option.splits if_splits)

lemma spent_effect:
  assumes "thread_step e th w = Some (Ok (th1, w1))" and "store_wf (w_store w)"
  shows "distinct (spent e th w) \<and> (\<forall>k \<in> set (spent e th w).
     status_of (w_store w) k \<noteq> Some ObjectStatus_INACTIVE \<and> status_of (w_store w1) k = Some ObjectStatus_INACTIVE)"
proof (cases "spent e th w = []")
  case False
  then obtain tx d where tx: "dt_Tx (st_detail (m_states (fst th))) = Some tx" "snd th = Applying StateObjectsDeactivated"
    "mhas (transitions e) (m_state (fst th), StateObjectsDeactivated)" "spent e th w = local_inputs e tx"
    "DeactivateObjects (local_inputs e tx) (w_store w) = Ok d" by (rule spent_cases)
  from tx(3) obtain f where f: "map_of (transitions e) (m_state (fst th), StateObjectsDeactivated) = Some f" by (auto simp: mhas_def)
  have "apply_once e StateObjectsDeactivated (fst th) w = Ok (th1, w1)" using assms(1) tx(2) by (simp add: thread_step_def)
  with f obtain nx err where "f (m_states (fst th)) w = Ok (w1, nx, err)"
    by (auto simp: apply_once_def outcome_simps split: if_splits)
  from transition_store [OF f this] have w1: "w_store w1 = d" using tx(1,5) by (simp add: trans_cmds_def run_cmd_def)
  have spec: "spec_deactivate (local_inputs e tx) (status_of (w_store w)) = Some (status_of d)"
    using ostore.deactivate_spec [OF assms(2), of "local_inputs e tx"] tx(5) by (simp add: refines_def)
  then have "distinct (local_inputs e tx)" "\<forall>k \<in> set (local_inputs e tx). status_of (w_store w) k \<noteq> Some ObjectStatus_INACTIVE"
    by (auto simp: spec_deactivate_def spec_mark_def holds_Some split: if_splits)
  moreover have "\<forall>k \<in> set (local_inputs e tx). status_of d k = Some ObjectStatus_INACTIVE"
    using ostore.deactivate_status [OF assms(2) tx(5)] by simp
  ultimately show ?thesis by (simp add: tx(4) w1)
qed simp

lemma step_spent:
  assumes "sys_step e c s l s1" and "store_wf (w_store (svc_world s))"
  shows "distinct l \<and> (\<forall>k \<in> set l. status_of (w_store (svc_world s)) k \<noteq> Some ObjectStatus_INACTIVE \<and>
     status_of (w_store (svc_world s1)) k = Some ObjectStatus_INACTIVE)"
  using assms
proof (induction rule: sys_step.induct)
  case (sys_thread i s th w)
  from spent_effect [OF sys_thread(2,3)] show ?case by simp
qed simp_all

lemma run_spent:
  assumes "sys_run e c s ls s1" and "store_wf (w_store (svc_world s))"
  shows "store_wf (w_store (svc_world s1)) \<and> distinct (concat ls) \<and>
    (\<forall>k \<in> set (concat ls). status_of (w_store (svc_world s1)) k = Some ObjectStatus_INACTIVE)"
  using assms
proof (induction rule: sys_run.induct)
  case (run_step ls s1 l s2)
  then have ih: "store_wf (w_store (svc_world s1))" "distinct (concat ls)"
    "\<forall>k \<in> set (concat ls). status_of (w_store (svc_world s1)) k = Some ObjectStatus_INACTIVE" by simp_all
  note h = step_history [OF run_step.hyps(2)]
  have "\<forall>k \<in> set (concat ls). status_of (w_store (svc_world s2)) k = Some ObjectStatus_INACTIVE"
    using ih(3) history_inactive [OF h ih(1)] by blast
  with step_spent [OF run_step.hyps(2) ih(1)] ih history_wf [OF h ih(1)] show ?case by auto
qed simp

text \<open>\<^bold>\<open>C3\<close>: no object is consumed twice on a node. Over any interleaving of deliveries, requests,
  queue turns and turns of any number of machines, from any service with a well-formed store, the
  objects consumed by all machines together are pairwise different.\<close>

theorem consumed_once:
  assumes "sys_run e c s ls s1" and "store_wf (w_store (svc_world s))"
  shows "distinct (concat ls)"
  using run_spent [OF assms] by simp

definition demo_codec :: codec where
  "demo_codec = \<lparr>unmarshalConsensus = (\<lambda>b. None), unmarshalSBAC = (\<lambda>b. None), unmarshalAdd = (\<lambda>b. None),
     unmarshalCreate = Some, unmarshalCreates = (\<lambda>b. None), unmarshalQuery = (\<lambda>b. Some (Some b)),
     marshalAck = (\<lambda>i. ([], False)), marshalObjects = (\<lambda>obs. ([], False)), marshalCreate = (\<lambda>v x b. v),
     marshalCreates = (\<lambda>v x b. []), marshalQuery = (\<lambda>v x b. []), marshalStates = (\<lambda>r n. ([], False))\<rparr>"

definition spending_service :: service where
  "spending_service = \<lparr>svc_world = local_world,
     svc_machines = [(NewStateMachine local_detail StateObjectLocked, Applying StateObjectsDeactivated)],
     svc_txstates = [], svc_pe = []\<rparr>"

lemma spending_wf: "store_wf (w_store local_world)"
  using local_can_commit by (simp add: can_commit_def)

lemma spending_run: "\<exists>s1. sys_run demo_env demo_codec spending_service [[[1]]] s1"
proof -
  let ?th = "(NewStateMachine local_detail StateObjectLocked, Applying StateObjectsDeactivated)"
  have tx: "dt_Tx local_detail = Some local_tx" by (simp add: local_detail_def)
  obtain d where d: "DeactivateObjects [[1]] (w_store local_world) = Ok d"
  proof -
    have "holds (\<lambda>st. st \<noteq> ObjectStatus_INACTIVE) (status_of (w_store local_world) [1])"
      by (simp add: local_world_status holds_def)
    then show thesis
      using ostore.deactivate_spec [OF spending_wf, of "[[1]]"] that
      by (auto simp: refines_def spec_deactivate_def spec_mark_def split: outcome.splits)
  qed
  have st: "st_detail (m_states (NewStateMachine local_detail StateObjectLocked)) = local_detail"
    "m_state (NewStateMachine local_detail StateObjectLocked) = StateObjectLocked" by (simp_all add: NewStateMachine_def)
  have sp: "spent demo_env ?th local_world = [[1]]"
    by (simp add: spent_def st tx local_facts(1) d edge_facts(2) mhas_def)
  have "toObjectDeactivated demo_env (m_states (NewStateMachine local_detail StateObjectLocked)) local_world =
      Ok (local_world\<lparr>w_store := d\<rparr>, StateObjectsCreated, None)"
    by (simp add: toObjectDeactivated_def st(1) tx deref_tx_def inputObjectsForShard_eq local_facts(1) on_store_def d)
  then obtain th where "thread_step demo_env ?th local_world = Some (Ok (th, local_world\<lparr>w_store := d\<rparr>))"
    by (simp add: thread_step_def apply_once_def st(2) edge_facts(2))
  from sys_thread [of 0 spending_service demo_env th "local_world\<lparr>w_store := d\<rparr>" demo_codec] this
  have "\<exists>s1. sys_step demo_env demo_codec spending_service [[1]] s1"
    by (auto simp: spending_service_def sp)
  then show ?thesis using run_step [OF run_start] by force
qed

theorem consumed_once_witness:
  "\<exists>ls s1. sys_run demo_env demo_codec spending_service ls s1 \<and> ls = [[[1]]] \<and> distinct (concat ls)"
proof -
  obtain s1 where r: "sys_run demo_env demo_codec spending_service [[[1]]] s1" using spending_run by blast
  have "store_wf (w_store (svc_world spending_service))" using spending_wf by (simp add: spending_service_def)
  from consumed_once [OF r this] r show ?thesis by blast
qed

end
