(* ===== verification/SbacAgreement.thy ===== *)
theory SbacAgreement
  imports SbacSystem
begin

text \<open>
  Objects are consumed only after the agreement the protocol asks for: an invariant of all machines
  of a service over all interleavings.
\<close>

section \<open>Agreement before consumption\<close>

text \<open>What the small machines of a transaction have decided so far.\<close>

definition agreed :: "States \<Rightarrow> ConsensusOp \<Rightarrow> bool" where
  "agreed st p = (consensus_state st p = Ok StateConsensusAccepted)"

definition voted :: "States \<Rightarrow> SBACOp \<Rightarrow> bool" where
  "voted st p = (sbac_state st p = Ok StateSBACAccepted)"

definition is_local :: "env \<Rightarrow> States \<Rightarrow> bool" where
  "is_local e st = (case dt_Tx (st_detail st) of None \<Rightarrow> False | Some tx \<Rightarrow> list_all (in_shard e) (all_ids tx))"

text \<open>The decisions that justify consuming the inputs, and creating the outputs.\<close>

definition may_consume :: "env \<Rightarrow> States \<Rightarrow> bool" where
  "may_consume e st \<longleftrightarrow> agreed st ConsensusOp_Consensus1 \<and>
     (is_local e st \<or> voted st SBACOp_Phase1 \<and> agreed st ConsensusOp_Consensus2 \<and> voted st SBACOp_Phase2)"

definition may_create :: "env \<Rightarrow> States \<Rightarrow> bool" where
  "may_create e st \<longleftrightarrow> may_consume e st \<or> voted st SBACOp_Commit \<and> agreed st ConsensusOp_ConsensusCommit"

fun justified_state :: "env \<Rightarrow> States \<Rightarrow> State \<Rightarrow> bool" where
  "justified_state e st StateObjectLocked = agreed st ConsensusOp_Consensus1"
| "justified_state e st StateAcceptPhase1Broadcasted = agreed st ConsensusOp_Consensus1"
| "justified_state e st StateWaitingForPhase1 = agreed st ConsensusOp_Consensus1"
| "justified_state e st StateConsensus2Triggered = (agreed st ConsensusOp_Consensus1 \<and> voted st SBACOp_Phase1)"
| "justified_state e st StateWaitingForConsensus2 = (agreed st ConsensusOp_Consensus1 \<and> voted st SBACOp_Phase1)"
| "justified_state e st StateAcceptPhase2Broadcasted =
     (agreed st ConsensusOp_Consensus1 \<and> voted st SBACOp_Phase1 \<and> agreed st ConsensusOp_Consensus2)"
| "justified_state e st StateWaitingForPhase2 =
     (agreed st ConsensusOp_Consensus1 \<and> voted st SBACOp_Phase1 \<and> agreed st ConsensusOp_Consensus2)"
| "justified_state e st StateObjectsDeactivated = may_consume e st"
| "justified_state e st StateObjectsCreated = may_create e st"
| "justified_state e st StateCommitObjectsBroadcasted = may_create e st"
| "justified_state e st StateSucceeded = may_create e st"
| "justified_state e st StateConsensusCommitTriggered = voted st SBACOp_Commit"
| "justified_state e st StateWaitingForConsensusCommit = voted st SBACOp_Commit"
| "justified_state e st _ = True"

lemma action_results:
  "onWaitingForPhase1 e st w = Ok nx \<Longrightarrow> nx \<in> {StateAborted, StateWaitingForPhase1} \<or> nx = StateConsensus2Triggered \<and> voted st SBACOp_Phase1"
  "onWaitingForPhase2 e st w = Ok nx \<Longrightarrow> nx \<in> {StateAborted, StateWaitingForPhase2} \<or> nx = StateObjectsDeactivated \<and> voted st SBACOp_Phase2"
  "onWaitingForCommit e st w = Ok nx \<Longrightarrow> nx \<in> {StateAborted, StateWaitingForCommit} \<or> nx = StateConsensusCommitTriggered \<and> voted st SBACOp_Commit"
  subgoal by (cases "sbac_state st SBACOp_Phase1") (auto simp: onWaitingForPhase1_def voted_def split: StateSBAC.split_asm)
  subgoal by (cases "sbac_state st SBACOp_Phase2") (auto simp: onWaitingForPhase2_def voted_def split: StateSBAC.split_asm)
  subgoal by (cases "sbac_state st SBACOp_Commit") (auto simp: onWaitingForCommit_def voted_def split: StateSBAC.split_asm)
  done

lemma consensus_action_results:
  "onWaitingForConsensus1 e st w = Ok nx \<Longrightarrow>
     nx \<in> {StateWaitingForConsensus1, StateRejectPhase1Broadcasted} \<or> nx = StateObjectLocked \<and> agreed st ConsensusOp_Consensus1"
  "onWaitingForConsensus2 e st w = Ok nx \<Longrightarrow>
     nx \<in> {StateWaitingForConsensus2, StateRejectPhase2Broadcasted} \<or> nx = StateAcceptPhase2Broadcasted \<and> agreed st ConsensusOp_Consensus2"
  "onWaitingForConsensusCommit e st w = Ok nx \<Longrightarrow>
     nx \<in> {StateWaitingForConsensusCommit, StateAborted} \<or> nx = StateObjectsCreated \<and> agreed st ConsensusOp_ConsensusCommit"
proof -
  have acc: "x \<noteq> StateConsensusWaiting \<Longrightarrow> x \<noteq> StateConsensusRejected \<Longrightarrow> x = StateConsensusAccepted" for x
    by (cases x) simp_all
  show "onWaitingForConsensus1 e st w = Ok nx \<Longrightarrow>
     nx \<in> {StateWaitingForConsensus1, StateRejectPhase1Broadcasted} \<or> nx = StateObjectLocked \<and> agreed st ConsensusOp_Consensus1"
    by (cases "consensus_state st ConsensusOp_Consensus1")
      (auto simp: onWaitingForConsensus1_def agreed_def outcome_simps split: if_splits dest: acc)
  show "onWaitingForConsensus2 e st w = Ok nx \<Longrightarrow>
     nx \<in> {StateWaitingForConsensus2, StateRejectPhase2Broadcasted} \<or> nx = StateAcceptPhase2Broadcasted \<and> agreed st ConsensusOp_Consensus2"
    by (cases "consensus_state st ConsensusOp_Consensus2")
      (auto simp: onWaitingForConsensus2_def agreed_def split: if_splits dest: acc)
  show "onWaitingForConsensusCommit e st w = Ok nx \<Longrightarrow>
     nx \<in> {StateWaitingForConsensusCommit, StateAborted} \<or> nx = StateObjectsCreated \<and> agreed st ConsensusOp_ConsensusCommit"
    by (cases "consensus_state st ConsensusOp_ConsensusCommit")
      (auto simp: onWaitingForConsensusCommit_def agreed_def split: if_splits dest: acc)
qed

lemma action_justified:
  assumes "map_of (actions e) c = Some act" and "act st w = Ok nx" and "justified_state e st c"
  shows "justified_state e st nx"
  using assms
  by (cases c) (auto simp: actions_def may_consume_def may_create_def dest!: action_results consensus_action_results)

lemma transition_results:
  "toObjectLocked e st w = Ok (w1, nx, err) \<Longrightarrow> nx \<in> {StateAborted, StateAcceptPhase1Broadcasted} \<or> nx = StateObjectsDeactivated \<and> is_local e st"
  "toObjectDeactivated e st w = Ok (w1, nx, err) \<Longrightarrow> nx \<in> {StateAborted, StateObjectsCreated}"
  "toObjectsCreated e st w = Ok (w1, nx, err) \<Longrightarrow> nx \<in> {StateAborted, StateSucceeded, StateCommitObjectsBroadcasted}"
  "toAborted e st w = Ok (w1, nx, err) \<Longrightarrow> nx = StateAborted" "toSucceeded e st w = Ok (w1, nx, err) \<Longrightarrow> nx = StateSucceeded"
  "toRejectPhase1Broadcasted e st w = Ok (w1, nx, err) \<Longrightarrow> nx = StateAborted"
  "toRejectPhase2Broadcasted e st w = Ok (w1, nx, err) \<Longrightarrow> nx = StateAborted"
  "toAcceptPhase1Broadcasted e st w = Ok (w1, nx, err) \<Longrightarrow> nx \<in> {StateAborted, StateWaitingForPhase1}"
  "toAcceptPhase2Broadcasted e st w = Ok (w1, nx, err) \<Longrightarrow> nx \<in> {StateAborted, StateWaitingForPhase2}"
  "toCommitObjectsBroadcasted e st w = Ok (w1, nx, err) \<Longrightarrow> nx \<in> {StateAborted, StateSucceeded}"
  "toConsensus2Triggered e st w = Ok (w1, nx, err) \<Longrightarrow> nx \<in> {StateAborted, StateWaitingForConsensus2}"
  "toConsensusCommitTriggered e st w = Ok (w1, nx, err) \<Longrightarrow> nx \<in> {StateAborted, StateWaitingForConsensusCommit}"
  by (auto simp: trans_defs trigger_consensus_def outcome_simps inputObjectsForShard_eq is_local_def Let_def case_prod_beta
      split: if_splits option.splits)

lemma transition_justified:
  assumes "map_of (transitions e) (a, b) = Some f" and "f st w = Ok (w1, nx, err)" and "justified_state e st b"
  shows "justified_state e st nx"
proof -
  have f: "toward e b st w = Ok (w1, nx, err)" using transitions_toward [OF assms(1)] assms(2) by simp
  have fw: "toWaitingForPhase1 e st w = Ok (w1, nx, err) \<Longrightarrow> nx = StateWaitingForPhase1"
    "toWaitingForPhase2 e st w = Ok (w1, nx, err) \<Longrightarrow> nx = StateWaitingForPhase2"
    "toWaitingForConsensus2 e st w = Ok (w1, nx, err) \<Longrightarrow> nx = StateWaitingForConsensus2"
    "toWaitingForConsensusCommit e st w = Ok (w1, nx, err) \<Longrightarrow> nx = StateWaitingForConsensusCommit"
    by (simp_all add: trans_defs)
  from f assms(1,3) not_target show ?thesis
    by (cases b) (auto simp: may_consume_def may_create_def dest!: transition_results fw)
qed

text \<open>An accepted phase has the votes of all nodes of all other shards involved.\<close>

definition unanimous :: "env \<Rightarrow> Transaction \<Rightarrow> decisions \<Rightarrow> bool" where
  "unanimous e tx ds \<longleftrightarrow> (\<forall>v \<in> shardForVersionID e ` set (all_ids tx) - {shardID e}. shard_accepts e ds v)"

definition votes_ok :: "env \<Rightarrow> States \<Rightarrow> bool" where
  "votes_ok e st \<longleftrightarrow> (\<forall>p c tx. map_of (st_sbac st) p = Some c \<longrightarrow> b_state c = StateSBACAccepted \<longrightarrow>
     dt_Tx (st_detail st) = Some tx \<longrightarrow> unanimous e tx (b_decisions c))"

lemma accepted_unanimous:
  assumes "env_ok e" and "small_shards e" and "dt_Tx dt = Some tx" and "onSBACEvent e dt ds = Ok StateSBACAccepted"
  shows "unanimous e tx ds"
proof -
  have "shards_loop e ds (shardsInvolvedWithoutSelf e tx) False = Some False"
    using assms(3,4) by (auto simp: onSBACEvent_def deref_tx_def split: option.splits bool.splits)
  then show ?thesis
    by (auto simp: shards_loop_eq [OF assms(2)] unanimous_def other_shards(2) [OF assms(1)] split: if_splits)
qed

lemma event_keeps:
  assumes "sm_processEvent e ev st = Ok (st1, err)"
  shows "st_detail st1 = st_detail st" "agreed st p \<Longrightarrow> agreed st1 p" "voted st q \<Longrightarrow> voted st1 q"
proof -
  have "st_detail st1 = st_detail st \<and> (agreed st p \<longrightarrow> agreed st1 p) \<and> (voted st q \<longrightarrow> voted st1 q)"
  proof (cases ev)
    case (SBACEvent k m)
    show ?thesis
    proof (cases "st1 = st")
      case False
      with assms SBACEvent obtain b b1 x where b: "map_of (st_sbac st) (sm_Op m) = Some b"
        "bsm_processEvent e (st_detail st) k m b = Ok (b1, x)" "st1 = st\<lparr>st_sbac := mput (sm_Op m) b1 (st_sbac st)\<rparr>"
        by (auto simp: sm_processEvent_def outcome_simps split: if_splits EventKind.splits option.splits)
      have "b_state b \<noteq> StateSBACWaiting \<Longrightarrow> b1 = b" using bsm_final [OF b(2)] by blast
      then show ?thesis using b(1,3)
        by (auto simp: agreed_def voted_def consensus_state_def sbac_state_def gomap_simps split: option.splits)
    qed simp
  next
    case (ConsensusEvent k d)
    show ?thesis
    proof (cases "st1 = st")
      case False
      with assms ConsensusEvent obtain b b1 x where b: "map_of (st_consensus st) (ct_Op d) = Some b"
        "csm_processEvent e k d b = Ok (b1, x)" "st1 = st\<lparr>st_consensus := mput (ct_Op d) b1 (st_consensus st)\<rparr>"
        by (auto simp: sm_processEvent_def outcome_simps split: if_splits EventKind.splits option.splits)
      have "c_state b \<noteq> StateConsensusWaiting \<Longrightarrow> b1 = b" using csm_final [OF b(2)] by blast
      then show ?thesis using b(1,3)
        by (auto simp: agreed_def voted_def consensus_state_def sbac_state_def gomap_simps split: option.splits)
    qed simp
  qed
  then show "st_detail st1 = st_detail st" "agreed st p \<Longrightarrow> agreed st1 p" "voted st q \<Longrightarrow> voted st1 q" by simp_all
qed

lemma event_votes:
  assumes "env_ok e" and "small_shards e" and "sm_processEvent e ev st = Ok (st1, err)" and "votes_ok e st"
  shows "votes_ok e st1"
proof (cases "\<exists>k m b b1 x. ev = SBACEvent k m \<and> map_of (st_sbac st) (sm_Op m) = Some b \<and>
    bsm_processEvent e (st_detail st) k m b = Ok (b1, x) \<and> st1 = st\<lparr>st_sbac := mput (sm_Op m) b1 (st_sbac st)\<rparr>")
  case True
  then obtain k m b b1 x where b: "map_of (st_sbac st) (sm_Op m) = Some b"
    "bsm_processEvent e (st_detail st) k m b = Ok (b1, x)" "st1 = st\<lparr>st_sbac := mput (sm_Op m) b1 (st_sbac st)\<rparr>" by blast
  have "unanimous e tx (b_decisions b1)" if "b_state b1 = StateSBACAccepted" "dt_Tx (st_detail st) = Some tx" for tx
  proof (cases "b1 = b")
    case True
    with that b(1) assms(4) show ?thesis by (auto simp: votes_ok_def)
  next
    case False
    with b(2) have "onSBACEvent e (st_detail st) (b_decisions b1) = Ok (b_state b1)"
      by (auto simp: bsm_processEvent_def GetDecisions_def SetDecision_def outcome_simps Let_def split: if_splits)
    with that show ?thesis using accepted_unanimous [OF assms(1,2)] by simp
  qed
  with assms(4) show ?thesis unfolding b(3) votes_ok_def by (auto simp: gomap_simps)
next
  case False
  with assms(3) have "st_sbac st1 = st_sbac st"
    by (cases ev) (auto simp: sm_processEvent_def outcome_simps split: if_splits EventKind.splits option.splits)
  moreover have "st_detail st1 = st_detail st" by (rule event_keeps(1) [OF assms(3)])
  ultimately show ?thesis using assms(4) by (simp add: votes_ok_def)
qed

lemma justified_mono:
  assumes "sm_processEvent e ev st = Ok (st1, err)" and "justified_state e st c"
  shows "justified_state e st1 c"
proof -
  have "is_local e st1 = is_local e st" using event_keeps(1) [OF assms(1)] by (simp add: is_local_def)
  then have "may_consume e st \<Longrightarrow> may_consume e st1" "may_create e st \<Longrightarrow> may_create e st1"
    using event_keeps(2,3) [OF assms(1)] by (auto simp: may_consume_def may_create_def)
  then show ?thesis using assms(2) event_keeps(2,3) [OF assms(1)] by (cases c) auto
qed

definition thread_ok :: "env \<Rightarrow> thread \<Rightarrow> bool" where
  "thread_ok e th \<longleftrightarrow> votes_ok e (m_states (fst th)) \<and> justified_state e (m_states (fst th)) (m_state (fst th)) \<and>
     (\<forall>b. snd th = Applying b \<longrightarrow> justified_state e (m_states (fst th)) b)"

lemma thread_ok_step:
  assumes "env_ok e" and "small_shards e" and "thread_step e th w = Some (Ok (th1, w1))" and "thread_ok e th"
  shows "thread_ok e th1"
proof (cases "snd th")
  case Idle
  then obtain ev evs st err where ev: "sm_processEvent e ev (m_states (fst th)) = Ok (st, err)"
    "fst th1 = (fst th)\<lparr>m_states := st, m_events := evs\<rparr>" "snd th1 \<in> {Idle, Moving}"
    using assms(3) by (auto simp: thread_step_def take_event_def outcome_simps Let_def split: list.splits if_splits)
  show ?thesis
    using assms(4) ev(2,3) event_votes [OF assms(1,2) ev(1)] justified_mono [OF ev(1)] by (auto simp: thread_ok_def)
next
  case Moving
  then have m: "move_once e (fst th) w = Ok (th1, w1)" using assms(3) by (simp add: thread_step_def)
  show ?thesis
  proof (cases "map_of (actions e) (m_state (fst th))")
    case None
    with m assms(4) show ?thesis by (auto simp: move_once_def thread_ok_def)
  next
    case (Some act)
    with m obtain nx where nx: "act (m_states (fst th)) w = Ok nx" by (auto simp: move_once_def outcome_simps)
    have "justified_state e (m_states (fst th)) nx"
      using action_justified [OF Some nx] assms(4) by (simp add: thread_ok_def)
    with m Some nx assms(4) show ?thesis by (auto simp: move_once_def thread_ok_def split: if_splits)
  qed
next
  case (Applying b)
  then have m: "apply_once e b (fst th) w = Ok (th1, w1)" using assms(3) by (simp add: thread_step_def)
  have b: "justified_state e (m_states (fst th)) b" using assms(4) Applying by (simp add: thread_ok_def)
  show ?thesis
  proof (cases "map_of (transitions e) (m_state (fst th), b)")
    case None
    with m assms(4) show ?thesis by (auto simp: apply_once_def thread_ok_def)
  next
    case (Some f)
    with m obtain w2 nx err where f: "f (m_states (fst th)) w = Ok (w2, nx, err)" by (auto simp: apply_once_def outcome_simps)
    from transition_justified [OF Some f b] b m Some f assms(4) show ?thesis
      by (auto simp: apply_once_def thread_ok_def split: if_splits)
  qed
qed

lemma new_thread_ok: "i \<in> {StateWaitingForConsensus1, StateWaitingForCommit} \<Longrightarrow> thread_ok e (NewStateMachine dt i, Idle)"
  by (auto simp: thread_ok_def votes_ok_def NewStateMachine_def NewSBACStateMachine_def)

definition service_ok :: "env \<Rightarrow> service \<Rightarrow> bool" where
  "service_ok e s \<longleftrightarrow> (\<forall>th \<in> set (svc_machines s). thread_ok e th) \<and> (\<forall>i \<in> snd ` set (svc_txstates s). i < length (svc_machines s))"

lemma mput_values: "snd ` set (mput k v m) \<subseteq> insert v (snd ` set m)"
  by (induction m) auto

lemma service_ok_Add:
  assumes "service_ok e s" and "i \<in> {StateWaitingForConsensus1, StateWaitingForCommit}"
  shows "service_ok e (sched_Add dt i s)"
proof -
  have "n < Suc (length (svc_machines s))" if n: "n \<in> snd ` set (mput (dt_ID dt) (length (svc_machines s)) (svc_txstates s))" for n
  proof -
    have "n = length (svc_machines s) \<or> n \<in> snd ` set (svc_txstates s)" using subsetD [OF mput_values n] by simp
    with assms(1) show ?thesis unfolding service_ok_def by (auto simp only: less_Suc_eq)
  qed
  with new_thread_ok [OF assms(2), of e dt] assms(1) show ?thesis by (auto simp: service_ok_def sched_Add_def)
qed

lemma service_ok_GetOrCreate:
  "service_ok e s \<Longrightarrow> i \<in> {StateWaitingForConsensus1, StateWaitingForCommit} \<Longrightarrow> service_ok e (sched_GetOrCreate dt i s)"
  by (simp add: sched_GetOrCreate_def service_ok_Add split: option.splits)

lemma service_ok_pe: "service_ok e s \<Longrightarrow> service_ok e (pe_OnEvent ev s)" "service_ok e (s\<lparr>svc_pe := evs\<rparr>) = service_ok e s"
  "service_ok e (s\<lparr>svc_world := w\<rparr>) = service_ok e s"
  by (simp_all add: service_ok_def pe_OnEvent_def)

lemma service_ok_OnEvent:
  assumes "service_ok e s" and "sched_Get k s = Some i"
  shows "service_ok e (machine_OnEvent i ev s)"
proof -
  have "i < length (svc_machines s)"
    using assms by (force simp: service_ok_def sched_Get_def dest: map_of_SomeD)
  then have "thread_ok e (svc_machines s ! i)" using assms(1) by (simp add: service_ok_def)
  then have "thread_ok e (OnEvent ev (fst (svc_machines s ! i)), snd (svc_machines s ! i))"
    by (simp add: thread_ok_def OnEvent_def)
  with assms(1) show ?thesis
    by (auto simp: service_ok_def machine_OnEvent_def dest!: set_update_subset_insert [THEN subsetD])
qed

lemma service_ok_deliver: "service_ok e s \<Longrightarrow> service_ok e (deliver_tx e c b s)"
  by (simp add: deliver_tx_def checkEvent_def service_ok_pe service_ok_GetOrCreate split: option.splits)

lemma service_ok_handleDeliver:
  assumes "handleDeliver e c blocks s = Ok s1" and "service_ok e s"
  shows "service_ok e s1"
proof (rule ofold_invariant [where P = "service_ok e", OF assms(1) [unfolded handleDeliver_def] assms(2)])
  fix block u v
  assume "service_ok e u" "(case block of None \<Rightarrow> Panic LogFatal | Some txs \<Rightarrow> Ok (fold (deliver_tx e c) txs u)) = Ok v"
  moreover have "service_ok e u' \<Longrightarrow> service_ok e (fold (deliver_tx e c) txs u')" for txs u'
    by (induction txs arbitrary: u') (simp_all add: service_ok_deliver)
  ultimately show "service_ok e v" by (auto split: option.splits)
qed

lemma service_ok_queue: "pe_Run s = Some (Ok s1) \<Longrightarrow> service_ok e s \<Longrightarrow> service_ok e s1"
  by (auto simp: pe_Run_def consumeEvents_def outcome_simps service_ok_pe service_ok_OnEvent sched_Get_def
      split: list.splits outcome.splits option.splits if_splits)

lemma create_object_machines:
  "create_object e ob s = Ok (Inr (vid, s1)) \<Longrightarrow> svc_machines s1 = svc_machines s \<and> svc_txstates s1 = svc_txstates s"
  by (auto simp: create_object_def split: outcome.splits)

lemma create_loop_machines:
  "create_loop e obs out s = Ok (s1, out1, err) \<Longrightarrow> svc_machines s1 = svc_machines s \<and> svc_txstates s1 = svc_txstates s"
proof (induction e obs out s rule: create_loop.induct)
  case (2 e ob obs out s)
  then obtain r where r: "create_object e ob s = Ok r" by (auto simp: outcome_simps)
  show ?case
  proof (cases r)
    case (Inl x)
    with r "2.prems" show ?thesis by simp
  next
    case (Inr vs)
    obtain vid s2 where vs: "vs = (vid, s2)" by (cases vs)
    with r Inr "2.prems" have "create_loop e obs (out @ [vid]) s2 = Ok (s1, out1, err)" by simp
    from "2.IH" [OF r Inr vs [symmetric] this] create_object_machines [of e ob s vid s2] r Inr vs show ?thesis by simp
  qed
qed simp

lemma service_ok_same:
  "svc_machines s1 = svc_machines s \<Longrightarrow> svc_txstates s1 = svc_txstates s \<Longrightarrow> service_ok e s1 = service_ok e s"
  by (simp add: service_ok_def)

lemma service_ok_handle:
  assumes "svc_Handle e c m s = Ok (s1, r)" and "service_ok e s"
  shows "service_ok e s1"
proof -
  have add: "AddTransaction e tx evs s = Ok (s1, r') \<Longrightarrow> service_ok e s1" for tx evs r'
    using assms(2) by (auto simp: AddTransaction_def outcome_simps Let_def case_prod_beta service_ok_pe(3) service_ok_Add split: if_splits)
  have add': "service_ok e s1" if h: "handleAddTransaction e c p i s = Ok (s1, r)" for p i
  proof (cases "unmarshalAdd c p")
    case None
    with h assms(2) show ?thesis by (simp add: handleAddTransaction_def)
  next
    case (Some te)
    obtain tx evs where te: "te = (tx, evs)" by (cases te)
    with h Some obtain s2 r' where a: "AddTransaction e tx evs s = Ok (s2, r')"
      by (cases "AddTransaction e tx evs s") (auto simp: handleAddTransaction_def)
    with h Some te have "s1 = s2" by (cases r') (simp_all add: handleAddTransaction_def case_prod_beta)
    with add a show ?thesis by simp
  qed
  have query: "handleQueryObject c p i s = Ok (s1, r) \<Longrightarrow> s1 = s" for p i
    by (auto simp: handleQueryObject_def split: option.splits if_splits outcome.splits)
  have states: "handleStates c i s = Ok (s1, r) \<Longrightarrow> s1 = s" for i
    by (auto simp: handleStates_def outcome_simps case_prod_beta)
  have create: "service_ok e s1" if h: "handleCreateObject e c p i s = Ok (s1, r)" for p i
  proof (cases "\<exists>ob. unmarshalCreate c p = Some ob \<and> ob \<noteq> []")
    case True
    then obtain ob where "unmarshalCreate c p = Some ob" "ob \<noteq> []" by blast
    with h obtain v where v: "create_object e ob s = Ok v"
      "(s1, r) = (case v of Inl x \<Rightarrow> (s, Inr (createPayload c i [] (Some x) False))
         | Inr (vid, s1) \<Rightarrow> (s1, Inr (createPayload c i vid None False)))"
      by (auto simp: handleCreateObject_def omap_eq_Ok)
    then show ?thesis
      using assms(2) by (cases v) (auto dest!: create_object_machines intro: service_ok_same [THEN iffD2])
  next
    case False
    with h have "s1 = s" by (auto simp: handleCreateObject_def split: option.splits)
    then show ?thesis using assms(2) by simp
  qed
  have creates: "handleCreateObjects e c p i s = Ok (s1, r) \<Longrightarrow> service_ok e s1" for p i
    using assms(2)
    by (auto simp: handleCreateObjects_def outcome_simps split: option.splits if_splits
        dest!: create_loop_machines intro: service_ok_same [THEN iffD2])
  have sbac: "service_ok e (fst (handleSBAC e c p i s))" for p i
    using assms(2) by (simp add: handleSBAC_def Let_def case_prod_beta service_ok_pe(1) service_ok_GetOrCreate split: option.splits)
  show ?thesis
    using assms add' query states create creates sbac [of "msg_Payload m" "msg_ID m"]
    unfolding svc_Handle_def by (fastforce split: if_splits)
qed

lemma service_ok_step:
  assumes "env_ok e" and "small_shards e" and "sys_step e c s l s1" and "service_ok e s"
  shows "service_ok e s1"
  using assms(3,4)
proof (induction rule: sys_step.induct)
  case (sys_thread i s th w)
  then have "thread_ok e (svc_machines s ! i)" by (simp add: service_ok_def)
  from thread_ok_step [OF assms(1,2) sys_thread(2) this] sys_thread(3) show ?case
    by (auto simp: service_ok_def dest!: set_update_subset_insert [THEN subsetD])
qed (auto intro: service_ok_handleDeliver service_ok_handle service_ok_queue)

lemma service_ok_run:
  assumes "env_ok e" and "small_shards e" and "sys_run e c s ls s1" and "service_ok e s"
  shows "service_ok e s1"
  using assms(3,4) by (induction rule: sys_run.induct) (auto intro: service_ok_step [OF assms(1,2)])

lemma voted_decisions:
  assumes "voted st p" and "votes_ok e st" and "dt_Tx (st_detail st) = Some tx"
  shows "\<exists>c. map_of (st_sbac st) p = Some c \<and> unanimous e tx (b_decisions c)"
  using assms by (auto simp: voted_def sbac_state_def votes_ok_def split: option.splits)

lemma new_service_ok: "service_ok e (New_service store kv)"
  by (simp add: service_ok_def New_service_def)

text \<open>\<^bold>\<open>C2\<close>: objects are consumed only after agreement. In every run of a new service, a step that
  consumes objects is a turn of a machine of some transaction and consumes exactly its inputs in
  this shard; the first consensus on the transaction was accepted with valid evidence, and if the
  transaction involves other shards, the second consensus was accepted too and, in both voting
  phases, every node of every other shard involved is recorded with an accepting vote.\<close>

theorem consumption_needs_agreement:
  assumes "env_ok e" and "small_shards e"
    and "sys_run e c (New_service store kv) ls s" and "sys_step e c s l s1" and "l \<noteq> []"
  shows "\<exists>th \<in> set (svc_machines s). \<exists>tx. let st = m_states (fst th) in
    dt_Tx (st_detail st) = Some tx \<and> l = local_inputs e tx \<and>
    consensus_state st ConsensusOp_Consensus1 = Ok StateConsensusAccepted \<and>
    (shardsInvolvedWithoutSelf e tx = [] \<or>
     consensus_state st ConsensusOp_Consensus2 = Ok StateConsensusAccepted \<and>
     (\<exists>c1 c2. map_of (st_sbac st) SBACOp_Phase1 = Some c1 \<and> map_of (st_sbac st) SBACOp_Phase2 = Some c2 \<and>
        unanimous e tx (b_decisions c1) \<and> unanimous e tx (b_decisions c2)))"
proof -
  have ok: "service_ok e s" using service_ok_run [OF assms(1-3) new_service_ok] .
  from assms(4,5) obtain i th1 w where i: "i < length (svc_machines s)"
    "thread_step e (svc_machines s ! i) (svc_world s) = Some (Ok (th1, w))" "l = spent e (svc_machines s ! i) (svc_world s)"
    by (cases rule: sys_step.cases) auto
  let ?th = "svc_machines s ! i"
  let ?st = "m_states (fst ?th)"
  have th: "thread_ok e ?th" using ok i(1) by (simp add: service_ok_def)
  obtain tx d where tx: "dt_Tx (st_detail ?st) = Some tx" "snd ?th = Applying StateObjectsDeactivated"
    "spent e ?th (svc_world s) = local_inputs e tx"
    using assms(5) i(3) spent_cases by metis
  from th tx(2) have may: "may_consume e ?st" and votes: "votes_ok e ?st" by (simp_all add: thread_ok_def)
  have "shardsInvolvedWithoutSelf e tx = [] \<or> agreed ?st ConsensusOp_Consensus2 \<and>
     (\<exists>c1 c2. map_of (st_sbac ?st) SBACOp_Phase1 = Some c1 \<and> map_of (st_sbac ?st) SBACOp_Phase2 = Some c2 \<and>
        unanimous e tx (b_decisions c1) \<and> unanimous e tx (b_decisions c2))"
  proof (cases "is_local e ?st")
    case True
    then show ?thesis using all_local_iff [OF assms(1), of tx] by (simp add: is_local_def tx(1))
  next
    case False
    with may have "agreed ?st ConsensusOp_Consensus2" "voted ?st SBACOp_Phase1" "voted ?st SBACOp_Phase2" by (simp_all add: may_consume_def)
    with voted_decisions [OF _ votes tx(1)] show ?thesis by metis
  qed
  moreover have "agreed ?st ConsensusOp_Consensus1" using may by (simp add: may_consume_def)
  ultimately show ?thesis
    using i(1,3) tx(1,3) by (intro bexI [of _ ?th] exI [of _ tx]) (simp_all add: agreed_def Let_def)
qed

subsection \<open>A concrete run\<close>

datatype turn = DoDeliver "(bytes list option) list" | DoQueue | DoThread nat

fun take_turn :: "env \<Rightarrow> codec \<Rightarrow> turn \<Rightarrow> service \<Rightarrow> (bytes list \<times> service) option" where
  "take_turn e c (DoDeliver blocks) s = map_option (\<lambda>s1. ([], s1)) (ok_val (handleDeliver e c blocks s))"
| "take_turn e c DoQueue s = (case pe_Run s of None \<Rightarrow> None | Some r \<Rightarrow> map_option (\<lambda>s1. ([], s1)) (ok_val r))"
| "take_turn e c (DoThread i) s =
     (if i < length (svc_machines s) then
        case thread_step e (svc_machines s ! i) (svc_world s) of
          None \<Rightarrow> None
        | Some r \<Rightarrow> map_option (\<lambda>(th, w). (spent e (svc_machines s ! i) (svc_world s),
            s\<lparr>svc_machines := (svc_machines s)[i := th], svc_world := w\<rparr>)) (ok_val r)
      else None)"

fun drive :: "env \<Rightarrow> codec \<Rightarrow> turn list \<Rightarrow> bytes list list \<times> service \<Rightarrow> (bytes list list \<times> service) option" where
  "drive e c [] x = Some x"
| "drive e c (t # ts) x =
     (case take_turn e c t (snd x) of None \<Rightarrow> None | Some (l, s1) \<Rightarrow> drive e c ts (fst x @ [l], s1))"

lemma take_turn_step: "take_turn e c t s = Some (l, s1) \<Longrightarrow> sys_step e c s l s1"
  by (cases t) (auto simp: outcome_simps split: option.splits if_splits intro: sys_deliver sys_queue sys_thread)

lemma drive_run: "drive e c ts x = Some (ls, s1) \<Longrightarrow> sys_run e c s (fst x) (snd x) \<Longrightarrow> sys_run e c s ls s1"
proof (induction ts arbitrary: x)
  case (Cons t ts)
  from Cons.prems(1) obtain l s2 where t: "take_turn e c t (snd x) = Some (l, s2)" "drive e c ts (fst x @ [l], s2) = Some (ls, s1)"
    by (auto split: option.splits)
  from Cons.IH [OF t(2)] run_step [OF Cons.prems(2) take_turn_step [OF t(1)]] show ?case by simp
qed simp

definition run_codec :: codec where
  "run_codec = demo_codec\<lparr>unmarshalConsensus := (\<lambda>b. Some local_consensus)\<rparr>"

lemma demo_run:
  "map_option fst (drive demo_env run_codec [DoDeliver [Some [[0]]], DoQueue, DoThread 0, DoThread 0, DoThread 0, DoThread 0]
     ([], New_service (w_store local_world) [])) = Some [[], [], [], [], [], [[1]]]"
  by code_simp

theorem consumption_needs_agreement_witness:
  "\<exists>s s1 th tx. sys_run demo_env run_codec (New_service (w_store local_world) []) [[], [], [], [], []] s \<and>
     sys_step demo_env run_codec s [[1]] s1 \<and> th \<in> set (svc_machines s) \<and> dt_Tx (st_detail (m_states (fst th))) = Some tx \<and>
     [[1]] = local_inputs demo_env tx \<and> consensus_state (m_states (fst th)) ConsensusOp_Consensus1 = Ok StateConsensusAccepted"
proof -
  let ?s0 = "New_service (w_store local_world) []"
  obtain ls s1 where d: "drive demo_env run_codec [DoDeliver [Some [[0]]], DoQueue, DoThread 0, DoThread 0, DoThread 0, DoThread 0]
      ([], ?s0) = Some (ls, s1)" "ls = [[], [], [], [], []] @ [[[1]]]"
    using demo_run by auto
  have "sys_run demo_env run_codec ?s0 (fst ([], ?s0)) (snd ([], ?s0))" by (simp add: run_start)
  from drive_run [OF d(1) this] have "sys_run demo_env run_codec ?s0 ([[], [], [], [], []] @ [[[1]]]) s1" by (simp only: d(2))
  then obtain s where s: "sys_run demo_env run_codec ?s0 [[], [], [], [], []] s" "sys_step demo_env run_codec s [[1]] s1"
    by (cases rule: sys_run.cases) auto
  from consumption_needs_agreement [OF demo_env_ok s] obtain th tx where
    "th \<in> set (svc_machines s)" "dt_Tx (st_detail (m_states (fst th))) = Some tx" "[[1]] = local_inputs demo_env tx"
    "consensus_state (m_states (fst th)) ConsensusOp_Consensus1 = Ok StateConsensusAccepted"
    by (auto simp: Let_def)
  with s show ?thesis by blast
qed

end
