(* ===== verification/Topology.thy ===== *)
theory Topology
  imports Prelude
begin

text \<open>
  \<open>network/network.go\<close>: which node and which object belongs to which shard, and the table of node
  addresses. Dialling, mDNS, the registry calls and the parsing of certificates are I/O and are
  not modelled. \<open>highwayhash.Sum64\<close> is a parameter, keys are an arbitrary type.
\<close>

record 'key topology =
  contacts_data :: "(u64, gostring) gomap"
  node_keys :: "(u64, 'key) gomap"
  rawID :: bytes
  shardCount :: u64
  shardSize :: u64

section \<open>Addresses\<close>

definition contacts_get :: "u64 \<Rightarrow> (u64, gostring) gomap \<Rightarrow> gostring" where
  "contacts_get nodeID data = (case map_of data nodeID of None \<Rightarrow> [] | Some addr \<Rightarrow> addr)"

definition contacts_set :: "u64 \<Rightarrow> gostring \<Rightarrow> (u64, gostring) gomap \<Rightarrow> (u64, gostring) gomap" where
  "contacts_set nodeID address data = mput nodeID address data"

definition BootstrapStatic :: "(u64, gostring) gomap \<Rightarrow> 'key topology \<Rightarrow> 'key topology" where
  "BootstrapStatic addresses t =
     t\<lparr>contacts_data := fold (\<lambda>(id, addr). contacts_set id addr) addresses (contacts_data t)\<rparr>"

definition Lookup :: "'key topology \<Rightarrow> u64 \<Rightarrow> gostring" where
  "Lookup t nodeID = contacts_get nodeID (contacts_data t)"

section \<open>Shards\<close>

text \<open>The loop adds \<open>step\<close> with wrap-around; \<open>None\<close> stands for not returning.\<close>

partial_function (option) nodes_loop :: "u64 \<Rightarrow> u64 \<Rightarrow> u64 \<Rightarrow> u64 list option" where
  "nodes_loop i tot step =
     (if i \<le> tot then Option.bind (nodes_loop (i + step) tot step) (\<lambda>ns. Some (i # ns)) else Some [])"

definition NodesInShard :: "'key topology \<Rightarrow> u64 \<Rightarrow> (u64 list) may_panic option" where
  "NodesInShard t shardID =
     (if shardID = 0 \<or> shardID > shardCount t then Some (Panic LogFatal)
      else map_option Ok (nodes_loop shardID (shardCount t * shardSize t) (shardCount t)))"

text \<open>The random index is an argument.\<close>

definition RandNodeInShard :: "'key topology \<Rightarrow> (nat \<Rightarrow> nat) \<Rightarrow> u64 \<Rightarrow> u64 may_panic option" where
  "RandNodeInShard t rand shardID =
     (if shardID = 0 \<or> shardID > shardCount t then Some (Panic LogFatal)
      else map_option (\<lambda>r. obind r (\<lambda>nodes.
             let n = rand (length nodes) in
             if n < length nodes then Ok (nodes ! n) else Panic IndexOutOfRange)) (NodesInShard t shardID))"

definition SeedPublicKeys :: "'key topology \<Rightarrow> (u64, 'key) gomap" where
  "SeedPublicKeys t = fold (\<lambda>(nodeID, key). mput nodeID key) (node_keys t) []"

definition ShardForVersionID :: "(bytes \<Rightarrow> bytes \<Rightarrow> u64) \<Rightarrow> 'key topology \<Rightarrow> bytes \<Rightarrow> u64 may_panic" where
  "ShardForVersionID sum64 t key =
     (let hash = sum64 key (rawID t) in
      if shardCount t = 0 then Panic DivideByZero else Ok (hash mod shardCount t + 1))"

definition ShardForNode :: "'key topology \<Rightarrow> u64 \<Rightarrow> u64 may_panic" where
  "ShardForNode t nodeID =
     (if shardCount t = 0 then Panic DivideByZero else Ok ((nodeID - 1) mod shardCount t + 1))"

definition TotalNodes_top :: "'key topology \<Rightarrow> u64" where
  "TotalNodes_top t = shardCount t * shardSize t"

section \<open>The node loop\<close>

text \<open>Configurations for which no counter wraps around.\<close>

definition top_ok :: "'key topology \<Rightarrow> bool" where
  "top_ok t \<longleftrightarrow> 0 < unat (shardCount t) \<and> unat (shardCount t) * unat (shardSize t) + unat (shardCount t) < 2 ^ 64"

definition shard_nodes :: "nat \<Rightarrow> nat \<Rightarrow> nat \<Rightarrow> nat list" where
  "shard_nodes c n s = map (\<lambda>k. s + k * c) [0..<n]"

lemma nodes_loop_eq:
  assumes "unat step = c" "unat tot = c * n" "c * n + c < 2 ^ 64" "0 < s" "s \<le> c"
    and "unat i = s + k * c" "k \<le> n"
  shows "nodes_loop i tot step = Some (map of_nat (map (\<lambda>j. s + j * c) [k..<n]))"
  using assms(6,7)
proof (induction "n - k" arbitrary: i k)
  case 0
  then have "k = n" by simp
  with 0 assms have "\<not> i \<le> tot" by (simp add: word_le_nat_alt mult.commute)
  with \<open>k = n\<close> show ?case by (subst nodes_loop.simps) simp
next
  case (Suc m)
  then have k: "k < n" by simp
  then have "(k + 1) * c \<le> n * c" by (intro mult_right_mono) simp_all
  then have le: "s + k * c \<le> c * n" using assms(5) by (simp add: algebra_simps)
  then have "i \<le> tot" using Suc.prems(1) assms(2) by (simp add: word_le_nat_alt)
  moreover have "unat (i + step) = s + (k + 1) * c"
    using Suc.prems(1) assms(1,3) le by (simp add: unat_add_lem [THEN iffD1])
  then have "nodes_loop (i + step) tot step = Some (map of_nat (map (\<lambda>j. s + j * c) [k + 1..<n]))"
    using Suc(2) k by (intro Suc(1)) simp_all
  moreover have "i = of_nat (s + k * c)"
    using Suc.prems(1) by (rule of_nat_eq_if_unat)
  ultimately show ?case
    using k by (subst nodes_loop.simps) (simp add: upt_conv_Cons)
qed

lemma NodesInShard_eq:
  assumes "top_ok t" "0 < unat s" "s \<le> shardCount t"
  shows "NodesInShard t s = Some (Ok (map of_nat (shard_nodes (unat (shardCount t)) (unat (shardSize t)) (unat s))))"
proof -
  have "unat (shardCount t * shardSize t) = unat (shardCount t) * unat (shardSize t)"
    using assms(1) by (intro unat_mult_lem [THEN iffD1]) (simp add: top_ok_def)
  then have "nodes_loop s (shardCount t * shardSize t) (shardCount t) =
      Some (map of_nat (map (\<lambda>j. unat s + j * unat (shardCount t)) [0..<unat (shardSize t)]))"
    using assms by (intro nodes_loop_eq) (simp_all add: top_ok_def word_le_nat_alt)
  moreover have "s \<noteq> 0" using assms(2) by auto
  ultimately show ?thesis
    using assms(3) by (simp add: NodesInShard_def shard_nodes_def not_less)
qed

lemma shard_nodes_props:
  assumes "0 < c" "0 < s" "s \<le> c"
  shows "length (shard_nodes c n s) = n" "distinct (shard_nodes c n s)"
    "x \<in> set (shard_nodes c n s) \<longleftrightarrow> 0 < x \<and> x \<le> c * n \<and> (x - 1) mod c + 1 = s"
proof -
  show "length (shard_nodes c n s) = n" by (simp add: shard_nodes_def)
  show "distinct (shard_nodes c n s)"
    using assms(1) by (auto simp: shard_nodes_def distinct_map inj_on_def)
  show "x \<in> set (shard_nodes c n s) \<longleftrightarrow> 0 < x \<and> x \<le> c * n \<and> (x - 1) mod c + 1 = s"
  proof
    assume "x \<in> set (shard_nodes c n s)"
    then obtain k where k: "k < n" "x = s + k * c" by (auto simp: shard_nodes_def)
    have "(k + 1) * c \<le> n * c" using k(1) by (intro mult_right_mono) simp_all
    then have "x \<le> c * n" using k(2) assms(3) by (simp add: algebra_simps)
    moreover have "(x - 1) mod c = s - 1"
    proof -
      have "x - 1 = (s - 1) + k * c" using k(2) assms(2) by simp
      then have "(x - 1) mod c = (s - 1) mod c" by (simp only: mod_mult_self1)
      then show ?thesis using assms by simp
    qed
    ultimately show "0 < x \<and> x \<le> c * n \<and> (x - 1) mod c + 1 = s" using k(2) assms(2) by simp
  next
    assume x: "0 < x \<and> x \<le> c * n \<and> (x - 1) mod c + 1 = s"
    define k where "k = (x - 1) div c"
    have eq: "x = s + k * c"
    proof -
      have "(x - 1) mod c + k * c = x - 1" unfolding k_def by (rule mod_div_mult_eq)
      moreover have "s = (x - 1) mod c + 1" "0 < x" using x by simp_all
      ultimately show ?thesis by linarith
    qed
    have "x - 1 < n * c" using x by (simp add: mult.commute) linarith
    then have "k < n" unfolding k_def by (rule less_mult_imp_div_less)
    with eq show "x \<in> set (shard_nodes c n s)" by (auto simp: shard_nodes_def)
  qed
qed

section \<open>The contract of a topology\<close>

text \<open>What the other services use of a topology: the nodes of a shard and the shard of a node and
  of an object.\<close>

locale net_topology =
  fixes good :: "'t \<Rightarrow> bool"
    and shards :: "'t \<Rightarrow> u64"
    and size_of :: "'t \<Rightarrow> nat"
    and nodes_in :: "'t \<Rightarrow> u64 \<Rightarrow> u64 list"
    and shard_of_node :: "'t \<Rightarrow> u64 \<Rightarrow> u64"
    and shard_of_object :: "'t \<Rightarrow> bytes \<Rightarrow> u64"
  assumes node_shard: "good t \<Longrightarrow> 0 < unat s \<Longrightarrow> s \<le> shards t \<Longrightarrow> x \<in> set (nodes_in t s) \<Longrightarrow> shard_of_node t x = s"
    and nodes_distinct: "good t \<Longrightarrow> 0 < unat s \<Longrightarrow> s \<le> shards t \<Longrightarrow> distinct (nodes_in t s)"
    and nodes_length: "good t \<Longrightarrow> 0 < unat s \<Longrightarrow> s \<le> shards t \<Longrightarrow> length (nodes_in t s) = size_of t"
    and object_shard: "good t \<Longrightarrow> 0 < unat (shard_of_object t k) \<and> shard_of_object t k \<le> shards t"
begin

lemma shards_disjoint:
  assumes "good t" "0 < unat s" "s \<le> shards t" "0 < unat r" "r \<le> shards t" "s \<noteq> r"
  shows "set (nodes_in t s) \<inter> set (nodes_in t r) = {}"
  using assms node_shard by blast

lemma object_nodes: "good t \<Longrightarrow> card (set (nodes_in t (shard_of_object t k))) = size_of t"
  using object_shard [of t k] nodes_distinct [of t "shard_of_object t k"] nodes_length [of t "shard_of_object t k"]
  by (simp add: distinct_card)

end

definition nodes_list :: "'key topology \<Rightarrow> u64 \<Rightarrow> u64 list" where
  "nodes_list t s = (case NodesInShard t s of Some (Ok ns) \<Rightarrow> ns | _ \<Rightarrow> [])"

definition node_shard_of :: "'key topology \<Rightarrow> u64 \<Rightarrow> u64" where
  "node_shard_of t x = (case ShardForNode t x of Ok s \<Rightarrow> s | _ \<Rightarrow> 0)"

definition object_shard_of :: "(bytes \<Rightarrow> bytes \<Rightarrow> u64) \<Rightarrow> 'key topology \<Rightarrow> bytes \<Rightarrow> u64" where
  "object_shard_of sum64 t k = (case ShardForVersionID sum64 t k of Ok s \<Rightarrow> s | _ \<Rightarrow> 0)"

lemma mod_plus_one:
  fixes x c :: u64
  assumes "0 < unat c"
  shows "unat (x mod c + 1) = unat x mod unat c + 1" "x mod c + 1 \<le> c" "0 < unat (x mod c + 1)"
proof -
  have "unat x mod unat c < unat c" using assms by simp
  moreover have "unat c < 2 ^ 64" using unat_lt_64 [of c] by simp
  ultimately show u: "unat (x mod c + 1) = unat x mod unat c + 1"
    by (subst unat_add_lem [THEN iffD1]) (simp_all add: unat_mod_distrib)
  show "x mod c + 1 \<le> c" "0 < unat (x mod c + 1)"
    using u \<open>unat x mod unat c < unat c\<close> by (simp_all only: word_le_nat_alt)
qed

lemma of_nat_image_iff:
  assumes "\<And>y. y \<in> S \<Longrightarrow> y < 2 ^ 64"
  shows "(x :: u64) \<in> of_nat ` S \<longleftrightarrow> unat x \<in> S"
proof
  assume "x \<in> of_nat ` S"
  then obtain y where "y \<in> S" "x = of_nat y" by blast
  moreover from this(1) have "unat (of_nat y :: u64) = y" by (intro unat_of_nat_small) (use assms in simp)
  ultimately show "unat x \<in> S" by simp
next
  assume "unat x \<in> S"
  moreover have "x = of_nat (unat x)" by simp
  ultimately show "x \<in> of_nat ` S" by (rule rev_image_eqI)
qed

lemma in_shard_iff:
  assumes "top_ok t" "0 < unat s" "s \<le> shardCount t"
  shows "x \<in> set (nodes_list t s) \<longleftrightarrow>
    0 < unat x \<and> unat x \<le> unat (shardCount t) * unat (shardSize t) \<and> ShardForNode t x = Ok s"
proof -
  let ?c = "unat (shardCount t)" and ?n = "unat (shardSize t)"
  have c: "0 < ?c" "unat s \<le> ?c" using assms by (simp_all add: top_ok_def word_le_nat_alt)
  have small: "y < 2 ^ 64" if "y \<in> set (shard_nodes ?c ?n (unat s))" for y
    using that shard_nodes_props(3) [OF c(1) assms(2) c(2)] assms(1) by (auto simp: top_ok_def)
  have "x \<in> set (nodes_list t s) \<longleftrightarrow> unat x \<in> set (shard_nodes ?c ?n (unat s))"
    unfolding nodes_list_def NodesInShard_eq [OF assms] option.case outcome.case set_map
    using small by (rule of_nat_image_iff)
  also have "\<dots> \<longleftrightarrow> 0 < unat x \<and> unat x \<le> ?c * ?n \<and> (unat x - 1) mod ?c + 1 = unat s"
    by (rule shard_nodes_props(3) [OF c(1) assms(2) c(2)])
  also have "\<dots> \<longleftrightarrow> 0 < unat x \<and> unat x \<le> ?c * ?n \<and> ShardForNode t x = Ok s"
  proof (intro conj_cong refl)
    assume "0 < unat x"
    then have "unat (x - 1) = unat x - 1" by (metis unat_minus_one unat_gt_0)
    then have "unat ((x - 1) mod shardCount t + 1) = (unat x - 1) mod ?c + 1" by (simp add: mod_plus_one [OF c(1)])
    moreover have "shardCount t \<noteq> 0" using c(1) by auto
    ultimately show "(unat x - 1) mod ?c + 1 = unat s \<longleftrightarrow> ShardForNode t x = Ok s"
      by (simp add: ShardForNode_def word_unat_eq_iff)
  qed
  finally show ?thesis .
qed


lemma object_shard_range:
  "top_ok t \<Longrightarrow> 0 < unat (object_shard_of sum64 t k) \<and> object_shard_of sum64 t k \<le> shardCount t"
  using mod_plus_one [of "shardCount t" "sum64 k (rawID t)"]
  by (auto simp: top_ok_def object_shard_of_def ShardForVersionID_def Let_def)

interpretation topo: net_topology top_ok shardCount "\<lambda>t. unat (shardSize t)" nodes_list node_shard_of "object_shard_of sum64"
  for sum64
proof unfold_locales
  fix t :: "'a topology" and s x :: u64 and k :: bytes
  assume t: "top_ok t"
  show "0 < unat (object_shard_of sum64 t k) \<and> object_shard_of sum64 t k \<le> shardCount t"
    using t by (rule object_shard_range)
  assume s: "0 < unat s" "s \<le> shardCount t"
  have c: "0 < unat (shardCount t)" "unat s \<le> unat (shardCount t)"
    using t s by (simp_all add: top_ok_def word_le_nat_alt)
  note p = shard_nodes_props [OF c(1) s(1) c(2)]
  have small: "y < 2 ^ 64" if "y \<in> set (shard_nodes (unat (shardCount t)) (unat (shardSize t)) (unat s))" for y
    using that p(3) t by (auto simp: top_ok_def)
  have "inj_on (of_nat :: nat \<Rightarrow> u64) {..<2 ^ 64}"
    using unat_of_nat_small [where ?'a = 64] by (intro inj_on_inverseI [where g = unat]) simp
  then have inj: "inj_on (of_nat :: nat \<Rightarrow> u64) (set (shard_nodes (unat (shardCount t)) (unat (shardSize t)) (unat s)))"
    by (rule inj_on_subset) (use small in auto)
  show "distinct (nodes_list t s)"
    using p(2) inj by (simp add: nodes_list_def NodesInShard_eq [OF t s] distinct_map)
  show "length (nodes_list t s) = unat (shardSize t)"
    using p(1) by (simp add: nodes_list_def NodesInShard_eq [OF t s])
  assume "x \<in> set (nodes_list t s)"
  then show "node_shard_of t x = s"
    by (simp add: in_shard_iff [OF t s] node_shard_of_def)
qed

section \<open>Properties\<close>

text \<open>\<^bold>\<open>C28\<close>: listing the nodes of a shard returns, and the shards partition the network: for a valid
  shard the loop ends with \<open>shardSize\<close> different nodes, namely the node identifiers from 1 to the
  total number of nodes whose \<open>ShardForNode\<close> is that shard.\<close>

theorem shards_partition_nodes:
  assumes "top_ok t" and "0 < unat s" and "s \<le> shardCount t"
  shows "\<exists>ns. NodesInShard t s = Some (Ok ns) \<and> distinct ns \<and> length ns = unat (shardSize t) \<and>
     (\<forall>x. x \<in> set ns \<longleftrightarrow> 0 < unat x \<and> unat x \<le> unat (shardCount t) * unat (shardSize t) \<and> ShardForNode t x = Ok s)"
proof -
  obtain ns where ns: "NodesInShard t s = Some (Ok ns)" using NodesInShard_eq [OF assms] by blast
  then have "nodes_list t s = ns" by (simp add: nodes_list_def)
  with topo.nodes_distinct [OF assms] topo.nodes_length [OF assms] in_shard_iff [OF assms] ns show ?thesis by auto
qed

definition demo_top :: "unit topology" where
  "demo_top = \<lparr>contacts_data = [], node_keys = [], rawID = [1], shardCount = 2, shardSize = 3\<rparr>"

lemma demo_top_ok: "top_ok demo_top"
  by (simp add: top_ok_def demo_top_def)

theorem shards_partition_nodes_witness:
  "\<exists>ns. NodesInShard demo_top 2 = Some (Ok ns) \<and> length ns = 3 \<and> 4 \<in> set ns \<and> 5 \<notin> set ns"
proof -
  have "0 < unat (2 :: u64)" "(2 :: u64) \<le> shardCount demo_top" "ShardForNode demo_top 4 = Ok 2" "ShardForNode demo_top 5 = Ok 1"
    by (simp_all add: demo_top_def ShardForNode_def)
  with shards_partition_nodes [OF demo_top_ok, of 2] show ?thesis by (auto simp: demo_top_def)
qed

text \<open>Every object has a shard, and the nodes of that shard exist: the shard computed for a
  version identifier is between 1 and the number of shards, so listing its nodes never hits the
  fatal log.\<close>

theorem object_shard_has_nodes:
  assumes "top_ok t"
  shows "\<exists>s ns. ShardForVersionID sum64 t k = Ok s \<and> 0 < unat s \<and> s \<le> shardCount t \<and>
     NodesInShard t s = Some (Ok ns) \<and> length ns = unat (shardSize t)"
proof -
  let ?s = "object_shard_of sum64 t k"
  have r: "0 < unat ?s" "?s \<le> shardCount t" using object_shard_range [OF assms] by blast+
  have "ShardForVersionID sum64 t k = Ok ?s"
    using assms by (auto simp: top_ok_def object_shard_of_def ShardForVersionID_def Let_def)
  moreover obtain ns where "NodesInShard t ?s = Some (Ok ns)" "length ns = unat (shardSize t)"
    using NodesInShard_eq [OF assms r] by (simp add: shard_nodes_def)
  ultimately show ?thesis using r by blast
qed

theorem object_shard_has_nodes_witness:
  "\<exists>s ns. ShardForVersionID (\<lambda>k _. of_nat (length k)) demo_top [7, 7, 7] = Ok s \<and> NodesInShard demo_top s = Some (Ok ns) \<and> length ns = 3"
  using object_shard_has_nodes [OF demo_top_ok, of "\<lambda>k _. of_nat (length k)" "[7, 7, 7]"]
  by (auto simp: demo_top_def)

end
