(* ===== verification/BcCodec.thy ===== *)
theory BcCodec
  imports Lexinum Blockmania Badger
begin

text \<open>
  Keys and values of the broadcast store (\<open>broadcast/store.go\<close>): the keys under which blocks are
  filed, which sort by node, round and hash, and the encoding of a block graph. The readers work on
  the bytes that are left, which is what the source does with an index into the value.
\<close>

section \<open>Keys\<close>

abbreviation (input) blockPrefix :: byte where "blockPrefix \<equiv> 1"
abbreviation (input) blockGraphPrefix :: byte where "blockGraphPrefix \<equiv> 2"
abbreviation (input) includedPrefix :: byte where "includedPrefix \<equiv> 3"
abbreviation (input) interpretedPrefix :: byte where "interpretedPrefix \<equiv> 4"
abbreviation (input) lastBlockRefPrefix :: byte where "lastBlockRefPrefix \<equiv> 5"
abbreviation (input) lastHashPrefix :: byte where "lastHashPrefix \<equiv> 6"
abbreviation (input) lastInterpretedPrefix :: byte where "lastInterpretedPrefix \<equiv> 7"
abbreviation (input) lastRoundPrefix :: byte where "lastRoundPrefix \<equiv> 8"
abbreviation (input) notIncludedPrefix :: byte where "notIncludedPrefix \<equiv> 9"
abbreviation (input) ownBlockPrefix :: byte where "ownBlockPrefix \<equiv> 10"
abbreviation (input) receivedMapPrefix :: byte where "receivedMapPrefix \<equiv> 11"
abbreviation (input) roundAcknowledgedPrefix :: byte where "roundAcknowledgedPrefix \<equiv> 12"
abbreviation (input) sentMapPrefix :: byte where "sentMapPrefix \<equiv> 13"

definition blockGraphKey :: "BlockID \<Rightarrow> bytes" where
  "blockGraphKey i = [blockGraphPrefix] @ Encode (Node i) @ [0] @ Encode (Round i) @ [0] @ Hash i"

definition blockKey :: "BlockID \<Rightarrow> bytes" where
  "blockKey i = [blockPrefix] @ Encode (Node i) @ [0] @ Encode (Round i) @ [0] @ Hash i"

definition includedKey :: "BlockID \<Rightarrow> bytes" where
  "includedKey i = [includedPrefix] @ Encode (Node i) @ [0] @ Encode (Round i) @ [0] @ Hash i"

definition notIncludedKey :: "BlockID \<Rightarrow> bytes" where
  "notIncludedKey i = [notIncludedPrefix] @ Encode (Node i) @ [0] @ Encode (Round i) @ [0] @ Hash i"

definition interpretedKey :: "u64 \<Rightarrow> bytes" where
  "interpretedKey round = [interpretedPrefix] @ Encode round"

definition ownBlockKey :: "u64 \<Rightarrow> bytes" where
  "ownBlockKey round = [ownBlockPrefix] @ Encode round"

definition encodeBlockID :: "BlockID \<Rightarrow> bytes" where
  "encodeBlockID i = Encode (Node i) @ [0] @ Encode (Round i) @ [0] @ Hash i"

text \<open>The loop of \<open>decodeBlockID\<close>: the first zero byte ends the node, the second one the round.\<close>

fun id_loop :: "bytes \<Rightarrow> nat \<Rightarrow> bytes \<Rightarrow> u64 \<Rightarrow> nat \<Rightarrow> nat \<Rightarrow> (lexinum_error, BlockID) outcome" where
  "id_loop d i [] node rstart stage = Ok \<lparr>Hash = [], Node = node, Round = 0\<rparr>"
| "id_loop d i (ch # chs) node rstart stage =
     (if ch = 0 then
        if stage = 0 then
          obind (Decode (take i d)) (\<lambda>n. id_loop d (Suc i) chs n (i + 1) 1)
        else
          obind (Decode (take (i - rstart) (drop rstart d))) (\<lambda>r. Ok \<lparr>Hash = drop (i + 1) d, Node = node, Round = r\<rparr>)
      else id_loop d (Suc i) chs node rstart stage)"

definition decodeBlockID :: "bytes \<Rightarrow> (lexinum_error, BlockID) outcome" where
  "decodeBlockID d = id_loop d 0 d 0 0 0"

text \<open>The loop of \<open>decodeBlockRound\<close> finds the bounds of the round in a key; \<open>i\<close> counts from the
  second byte.\<close>

fun round_loop :: "nat \<Rightarrow> bytes \<Rightarrow> nat \<Rightarrow> nat \<times> nat" where
  "round_loop i [] rstart = (rstart, 0)"
| "round_loop i (ch # chs) rstart =
     (if ch = 0 then (if rstart = 0 then round_loop (Suc i) chs (i + 2) else (rstart, i + 1))
      else round_loop (Suc i) chs rstart)"

definition decodeBlockRound :: "bytes \<Rightarrow> (lexinum_error, u64) outcome" where
  "decodeBlockRound d =
     (if d = [] then Panic IndexOutOfRange
      else let (rstart, rend) = round_loop 0 (drop 1 d) 0 in obind (slice d rstart rend) Decode)"

section \<open>Block graphs\<close>

definition put_id :: "BlockID \<Rightarrow> bytes" where
  "put_id i = PutUint16 (of_nat (length (encodeBlockID i))) @ encodeBlockID i"

definition put_opt_id :: "BlockID \<Rightarrow> bytes" where
  "put_opt_id i = (if Valid i then put_id i else [0, 0])"

definition put_dep :: "Dep \<Rightarrow> bytes" where
  "put_dep dep = put_id (dep_Block dep) @ put_opt_id (dep_Prev dep) @
     PutUint32 (of_nat (length (dep_Deps dep))) @ concat (map put_id (dep_Deps dep))"

definition encodeBlockGraph :: "BlockGraph \<Rightarrow> bytes" where
  "encodeBlockGraph block = put_opt_id (bg_Prev block) @
     PutUint32 (of_nat (length (bg_Deps block))) @ concat (map put_dep (bg_Deps block))"

type_synonym 'a reader = "bytes \<Rightarrow> (lexinum_error, 'a \<times> bytes) outcome"

definition get_u16 :: "nat reader" where
  "get_u16 d = omap (\<lambda>v. (unat v, drop 2 d)) (Uint16 d)"

definition get_u32 :: "nat reader" where
  "get_u32 d = omap (\<lambda>v. (unat v, drop 4 d)) (Uint32 d)"

definition get_id :: "BlockID reader" where
  "get_id d = obind (get_u16 d) (\<lambda>(ksize, d1).
     obind (slice d1 0 ksize) (\<lambda>raw. omap (\<lambda>i. (i, drop ksize d1)) (decodeBlockID raw)))"

definition get_opt_id :: "BlockID reader" where
  "get_opt_id d = obind (get_u16 d) (\<lambda>(ksize, d1).
     if ksize > 0 then obind (slice d1 0 ksize) (\<lambda>raw. omap (\<lambda>i. (i, drop ksize d1)) (decodeBlockID raw))
     else Ok (zero_BlockID, d1))"

fun get_many :: "nat \<Rightarrow> 'a reader \<Rightarrow> 'a list reader" where
  "get_many 0 rd d = Ok ([], d)"
| "get_many (Suc n) rd d = obind (rd d) (\<lambda>(x, d1). omap (\<lambda>(xs, d2). (x # xs, d2)) (get_many n rd d1))"

definition get_dep :: "Dep reader" where
  "get_dep d =
     obind (get_id d) (\<lambda>(i, d1).
     obind (get_opt_id d1) (\<lambda>(prev, d2).
     obind (get_u32 d2) (\<lambda>(lsize, d3).
     omap (\<lambda>(links, d4). (\<lparr>dep_Block = i, dep_Deps = links, dep_Prev = prev\<rparr>, d4)) (get_many lsize get_id d3))))"

definition decode_graph :: "BlockID \<Rightarrow> bytes \<Rightarrow> (lexinum_error, BlockGraph) outcome" where
  "decode_graph i val =
     obind (get_opt_id val) (\<lambda>(prev, d1).
     obind (get_u32 d1) (\<lambda>(sz, d2).
     omap (\<lambda>(deps, d3). \<lparr>bg_Block = i, bg_Deps = deps, bg_Prev = prev\<rparr>) (get_many sz get_dep d2)))"

section \<open>Laws of the keys\<close>

named_theorems key_simps \<open>layout of the keys\<close>

lemma key_layout [key_simps]:
  "blockGraphKey i = blockGraphPrefix # encodeBlockID i" "blockKey i = blockPrefix # encodeBlockID i"
  "includedKey i = includedPrefix # encodeBlockID i" "notIncludedKey i = notIncludedPrefix # encodeBlockID i"
  by (simp_all add: blockGraphKey_def blockKey_def includedKey_def notIncludedKey_def encodeBlockID_def)

lemma encodeBlockID_inj: "encodeBlockID i = encodeBlockID j \<longleftrightarrow> i = j"
  by (cases i; cases j) (auto simp: encodeBlockID_def lex.enc_field_eq)

lemma encodeBlockID_less:
  "encodeBlockID i < encodeBlockID j \<longleftrightarrow>
     Node i < Node j \<or> Node i = Node j \<and> (Round i < Round j \<or> Round i = Round j \<and> Hash i < Hash j)"
  by (simp add: encodeBlockID_def lex.enc_field_less)

lemma id_loop_skip:
  "0 \<notin> set chs \<Longrightarrow> id_loop d i (chs @ rest) node rstart stage = id_loop d (i + length chs) rest node rstart stage"
  by (induction chs arbitrary: i) auto

lemma decodeBlockID_encode: "decodeBlockID (encodeBlockID i) = Ok i"
proof -
  let ?n = "Encode (Node i)" and ?r = "Encode (Round i)" and ?d = "encodeBlockID i"
  have d: "?d = ?n @ 0 # ?r @ 0 # Hash i" by (simp add: encodeBlockID_def)
  have "decodeBlockID ?d = id_loop ?d (length ?n) (0 # ?r @ 0 # Hash i) 0 0 0"
    unfolding decodeBlockID_def by (subst (2) d) (simp only: id_loop_skip [OF lex.enc_nonzero], simp)
  also have "\<dots> = id_loop ?d (Suc (length ?n)) (?r @ 0 # Hash i) (Node i) (length ?n + 1) 1"
    by (simp add: d lex.dec_enc)
  also have "\<dots> = id_loop ?d (Suc (length ?n) + length ?r) (0 # Hash i) (Node i) (length ?n + 1) 1"
    by (rule id_loop_skip [OF lex.enc_nonzero])
  also have "\<dots> = Ok i"
    by (simp add: d lex.dec_enc)
  finally show ?thesis .
qed

lemma round_loop_skip: "0 \<notin> set chs \<Longrightarrow> round_loop i (chs @ rest) rstart = round_loop (i + length chs) rest rstart"
  by (induction chs arbitrary: i) auto

lemma decodeBlockRound_key: "decodeBlockRound (p # encodeBlockID i) = Ok (Round i)"
proof -
  let ?n = "Encode (Node i)" and ?r = "Encode (Round i)" and ?d = "encodeBlockID i"
  have d: "?d = ?n @ 0 # ?r @ 0 # Hash i" by (simp add: encodeBlockID_def)
  have "round_loop 0 ?d 0 = round_loop (length ?n) (0 # ?r @ 0 # Hash i) 0"
    unfolding d by (simp only: round_loop_skip [OF lex.enc_nonzero], simp)
  also have "\<dots> = round_loop (Suc (length ?n)) (?r @ 0 # Hash i) (length ?n + 2)" by simp
  also have "\<dots> = round_loop (Suc (length ?n) + length ?r) (0 # Hash i) (length ?n + 2)"
    by (rule round_loop_skip [OF lex.enc_nonzero])
  also have "\<dots> = (length ?n + 2, length ?n + length ?r + 2)" by simp
  finally have "round_loop 0 ?d 0 = (length ?n + 2, length ?n + length ?r + 2)" .
  then show ?thesis by (simp add: decodeBlockRound_def slice_def d lex.dec_enc)
qed

section \<open>Laws of the graph encoding\<close>

definition id_fits :: "BlockID \<Rightarrow> bool" where
  "id_fits i \<longleftrightarrow> length (encodeBlockID i) < 2 ^ 16"

definition opt_id_fits :: "BlockID \<Rightarrow> bool" where
  "opt_id_fits i \<longleftrightarrow> (Valid i \<and> id_fits i) \<or> i = zero_BlockID"

definition dep_fits :: "Dep \<Rightarrow> bool" where
  "dep_fits dep \<longleftrightarrow> id_fits (dep_Block dep) \<and> opt_id_fits (dep_Prev dep) \<and>
     length (dep_Deps dep) < 2 ^ 32 \<and> list_all id_fits (dep_Deps dep)"

definition graph_fits :: "BlockGraph \<Rightarrow> bool" where
  "graph_fits g \<longleftrightarrow> opt_id_fits (bg_Prev g) \<and> length (bg_Deps g) < 2 ^ 32 \<and> list_all dep_fits (bg_Deps g)"

lemma get_u16_put: "n < 2 ^ 16 \<Longrightarrow> get_u16 (PutUint16 (of_nat n) @ d) = Ok (n, d)"
  by (simp add: get_u16_def le_simps unat_of_nat_small)

lemma get_u32_put: "n < 2 ^ 32 \<Longrightarrow> get_u32 (PutUint32 (of_nat n) @ d) = Ok (n, d)"
  by (simp add: get_u32_def le_simps unat_of_nat_small)

lemma get_id_put: "id_fits i \<Longrightarrow> get_id (put_id i @ d) = Ok (i, d)"
  by (simp add: get_id_def put_id_def id_fits_def get_u16_put slice_def decodeBlockID_encode)

lemma encodeBlockID_nonempty: "encodeBlockID i \<noteq> []"
  by (simp add: encodeBlockID_def)

lemma get_opt_id_put:
  assumes "opt_id_fits i"
  shows "get_opt_id (put_opt_id i @ d) = Ok (i, d)"
proof (cases "Valid i")
  case True
  then have "id_fits i" using assms by (auto simp: opt_id_fits_def Valid_def)
  with True show ?thesis
    by (simp add: get_opt_id_def put_opt_id_def put_id_def id_fits_def get_u16_put slice_def decodeBlockID_encode encodeBlockID_nonempty)
next
  case False
  then have "i = zero_BlockID" using assms by (auto simp: opt_id_fits_def)
  moreover have "[0, 0] = PutUint16 (of_nat 0)" by (simp add: PutUint16_def putLE_def upt_rec)
  ultimately show ?thesis using get_u16_put [of 0 d] by (simp add: get_opt_id_def put_opt_id_def Valid_def)
qed

lemma get_many_put:
  assumes "\<And>x d. x \<in> set xs \<Longrightarrow> rd (put x @ d) = Ok (x, d)"
  shows "get_many (length xs) rd (concat (map put xs) @ d) = Ok (xs, d)"
  using assms by (induction xs) simp_all

lemma get_dep_put:
  assumes "dep_fits dep"
  shows "get_dep (put_dep dep @ d) = Ok (dep, d)"
proof -
  have "get_many (length (dep_Deps dep)) get_id (concat (map put_id (dep_Deps dep)) @ d) = Ok (dep_Deps dep, d)"
    using assms by (intro get_many_put get_id_put) (auto simp: dep_fits_def list_all_iff)
  with assms show ?thesis
    by (simp add: get_dep_def put_dep_def dep_fits_def get_id_put get_opt_id_put get_u32_put)
qed

lemma decode_encode_graph:
  assumes "graph_fits g"
  shows "decode_graph (bg_Block g) (encodeBlockGraph g) = Ok g"
proof -
  have "get_many (length (bg_Deps g)) get_dep (concat (map put_dep (bg_Deps g)) @ []) = Ok (bg_Deps g, [])"
    using assms by (intro get_many_put get_dep_put) (auto simp: graph_fits_def list_all_iff)
  with assms show ?thesis
    by (simp add: decode_graph_def encodeBlockGraph_def graph_fits_def get_opt_id_put get_u32_put)
qed

section \<open>Property\<close>

text \<open>\<^bold>\<open>C37\<close>: a block graph survives the database. Decoding the key of a graph gives its block, and
  decoding its value gives the graph, with all dependencies and links, whatever bytes the hashes
  contain, as long as the identifiers fit into 16 bits of length and the lists into 32 bits.\<close>

theorem block_graph_roundtrip:
  assumes "graph_fits g"
  shows "decodeBlockID (drop 1 (blockGraphKey (bg_Block g))) = Ok (bg_Block g) \<and>
    decode_graph (bg_Block g) (encodeBlockGraph g) = Ok g \<and> decodeBlockRound (blockGraphKey (bg_Block g)) = Ok (Round (bg_Block g))"
  using decode_encode_graph [OF assms] by (simp add: key_simps decodeBlockID_encode decodeBlockRound_key)

definition demo_graph :: BlockGraph where
  "demo_graph = \<lparr>bg_Block = \<lparr>Hash = [0, 1], Node = 1, Round = 2\<rparr>,
     bg_Deps = [\<lparr>dep_Block = \<lparr>Hash = [7], Node = 2, Round = 1\<rparr>, dep_Deps = [\<lparr>Hash = [0], Node = 3, Round = 1\<rparr>], dep_Prev = zero_BlockID\<rparr>],
     bg_Prev = \<lparr>Hash = [5, 0], Node = 1, Round = 1\<rparr>\<rparr>"

lemma demo_graph_fits: "graph_fits demo_graph"
  by (simp add: graph_fits_def demo_graph_def opt_id_fits_def dep_fits_def id_fits_def Valid_def encodeBlockID_def Encode_def maxSmall_def)

theorem block_graph_roundtrip_witness:
  "decode_graph (bg_Block demo_graph) (encodeBlockGraph demo_graph) = Ok demo_graph"
  using block_graph_roundtrip [OF demo_graph_fits] by simp

end
