(* ===== verification/BcTx.thy ===== *)
theory BcTx
  imports Blockmania "HOL-Library.Multiset" "HOL-Library.Sublist"
begin

text \<open>
  Transactions inside a block: the message types of the broadcast service, the buffer into which
  \<open>AddTransaction\<close> (\<open>broadcast/broadcast.go\<close>) writes the transactions of the next block, and the
  iterator and the ordering of \<open>broadcast/ext.go\<close> that read them back. Go integers that count
  elements or index the buffer are natural numbers here; they are bounded by the buffer.
\<close>

section \<open>Messages\<close>

record SignedData =
  sd_Data :: bytes
  sd_Signature :: bytes

record BlockReference =
  br_Hash :: bytes
  br_Node :: u64
  br_Round :: u64

record Transactions =
  txs_Count :: u64
  txs_Data :: bytes

record Block =
  bl_Node :: u64
  bl_Previous :: "SignedData option"
  bl_References :: "SignedData list"
  bl_Round :: u64
  bl_Transactions :: "Transactions option"

definition SignedData_Size :: "SignedData \<Rightarrow> nat" where
  "SignedData_Size s = length (sd_Data s) + length (sd_Signature s) + 100"

definition BlockReference_Size :: "BlockReference \<Rightarrow> nat" where
  "BlockReference_Size b = length (br_Hash b) + 100"

definition Digest :: "(bytes \<Rightarrow> bytes) \<Rightarrow> SignedData \<Rightarrow> bytes" where
  "Digest sha s = sha (sd_Data s)"

section \<open>The iterator\<close>

record TxIterator =
  it_cur :: u64
  it_data :: bytes
  it_idx :: nat
  it_total :: u64
  TxData :: bytes
  TxFee :: u64

definition Iter :: "Block \<Rightarrow> TxIterator may_panic" where
  "Iter b = (case bl_Transactions b of
     None \<Rightarrow> Panic NilDereference
   | Some t \<Rightarrow> Ok \<lparr>it_cur = 0, it_data = txs_Data t, it_idx = 0, it_total = txs_Count t, TxData = [], TxFee = 0\<rparr>)"

definition it_Valid :: "TxIterator \<Rightarrow> bool" where
  "it_Valid t = (it_cur t < it_total t)"

definition it_Next :: "TxIterator \<Rightarrow> TxIterator may_panic" where
  "it_Next t =
     obind (slice (it_data t) (it_idx t) (it_idx t + 8)) (\<lambda>f.
     obind (Uint64 f) (\<lambda>fee.
     obind (slice (it_data t) (it_idx t + 8) (it_idx t + 8 + 4)) (\<lambda>n.
     obind (Uint32 n) (\<lambda>sz.
     obind (slice (it_data t) (it_idx t + 12) (it_idx t + 12 + unat sz)) (\<lambda>tx.
     Ok (t\<lparr>TxFee := fee, TxData := tx, it_idx := it_idx t + 12 + unat sz, it_cur := it_cur t + 1\<rparr>))))))"

lemma it_Next_cur: "it_Next t = Ok t' \<Longrightarrow> it_cur t' = it_cur t + 1 \<and> it_total t' = it_total t"
  by (auto simp: it_Next_def outcome_simps)

text \<open>The loop \<open>for it.Valid() { it.Next(); ... }\<close> of the clients, collecting what it sees.\<close>

function iterate :: "TxIterator \<Rightarrow> (u64 \<times> bytes) list may_panic" where
  "iterate t =
     (if it_Valid t then obind (it_Next t) (\<lambda>t'. omap (\<lambda>r. (TxFee t', TxData t') # r) (iterate t')) else Ok [])"
  by pat_completeness auto
termination
proof (relation "measure (\<lambda>t. unat (it_total t) - unat (it_cur t))")
  fix t t' assume v: "it_Valid t" and n: "it_Next t = Ok t'"
  then have "unat (it_cur t + 1) = unat (it_cur t) + 1"
    by (intro unat_Suc_less) (simp add: it_Valid_def)
  with v it_Next_cur [OF n] show "(t', t) \<in> measure (\<lambda>t. unat (it_total t) - unat (it_cur t))"
    by (simp add: it_Valid_def word_less_nat_alt)
qed simp

declare iterate.simps [simp del]

section \<open>The order of transactions\<close>

record TransactionData =
  td_Data :: bytes
  td_Fee :: u64

definition tx_before :: "(bytes \<Rightarrow> bytes) \<Rightarrow> TransactionData \<Rightarrow> TransactionData \<Rightarrow> bool" where
  "tx_before sha a b =
     (if td_Fee a = td_Fee b then sha (td_Data a) > sha (td_Data b) else td_Fee a > td_Fee b)"

text \<open>\<open>sort.Slice\<close> with a comparison, as insertion into the sorted prefix.\<close>

fun insert_by :: "('a \<Rightarrow> 'a \<Rightarrow> bool) \<Rightarrow> 'a \<Rightarrow> 'a list \<Rightarrow> 'a list" where
  "insert_by lt x [] = [x]"
| "insert_by lt x (y # ys) = (if lt x y then x # y # ys else y # insert_by lt x ys)"

definition Sort :: "(bytes \<Rightarrow> bytes) \<Rightarrow> TransactionData list \<Rightarrow> TransactionData list" where
  "Sort sha ts = fold (insert_by (tx_before sha)) ts []"

section \<open>The buffer of the next block\<close>

record txbuf =
  txCount :: nat
  txData :: bytes
  txIdx :: nat

datatype add_result = TooLarge | Wait | Added txbuf

definition write_at :: "bytes \<Rightarrow> nat \<Rightarrow> bytes \<Rightarrow> bytes" where
  "write_at buf i d = take i buf @ take (length buf - i) d @ drop (i + length d) buf"

text \<open>One turn of the loop of \<open>AddTransaction\<close>; \<open>Wait\<close> is the wait for the signal of the next round.\<close>

definition bc_AddTransaction :: "nat \<Rightarrow> int \<Rightarrow> bytes \<Rightarrow> u64 \<Rightarrow> txbuf \<Rightarrow> add_result may_panic" where
  "bc_AddTransaction txSizeLimit txCountLimit txdata fee s =
     (let sz = length txdata; i = txIdx s in
      if sz \<ge> 2 ^ 32 \<or> sz > txSizeLimit then Ok TooLarge
      else if int (txCount s) = txCountLimit then Ok Wait
      else if i + sz + 100 > txSizeLimit then Ok Wait
      else obind (slice (txData s) i (i + 8)) (\<lambda>_.
        obind (slice (txData s) (i + 8) (i + 12)) (\<lambda>_.
        obind (slice (txData s) (i + 12) (length (txData s))) (\<lambda>_.
          Ok (Added (s\<lparr>txData := write_at (write_at (write_at (txData s) i (PutUint64 fee)) (i + 8) (PutUint32 (of_nat sz))) (i + 12) txdata,
                       txCount := txCount s + 1, txIdx := i + 12 + sz\<rparr>))))))"

text \<open>What \<open>genBlocks\<close> takes out of the buffer, and the buffer afterwards.\<close>

definition cut :: "txbuf \<Rightarrow> (Transactions \<times> txbuf) may_panic" where
  "cut s = obind (slice (txData s) 0 (txIdx s)) (\<lambda>d.
     Ok (\<lparr>txs_Count = of_nat (txCount s), txs_Data = d\<rparr>, s\<lparr>txCount := 0, txIdx := 0\<rparr>))"

definition new_txbuf :: "nat \<Rightarrow> txbuf" where
  "new_txbuf txSizeLimit = \<lparr>txCount = 0, txData = replicate txSizeLimit 0, txIdx = 0\<rparr>"

text \<open>Several transactions offered one after the other; those that have to wait are left out.\<close>

fun add_all :: "nat \<Rightarrow> int \<Rightarrow> (u64 \<times> bytes) list \<Rightarrow> txbuf \<Rightarrow> ((u64 \<times> bytes) list \<times> txbuf) may_panic" where
  "add_all sl cl [] s = Ok ([], s)"
| "add_all sl cl ((fee, tx) # txs) s = obind (bc_AddTransaction sl cl tx fee s) (\<lambda>r.
     case r of Added s' \<Rightarrow> omap (\<lambda>(l, s''). ((fee, tx) # l, s'')) (add_all sl cl txs s')
     | _ \<Rightarrow> add_all sl cl txs s)"

section \<open>Laws\<close>

definition frame :: "u64 \<times> bytes \<Rightarrow> bytes" where
  "frame t = PutUint64 (fst t) @ PutUint32 (of_nat (length (snd t))) @ snd t"

lemma it_Next_frame:
  assumes "length tx < 2 ^ 32"
  shows "it_Next \<lparr>it_cur = c, it_data = pre @ frame (fee, tx) @ post, it_idx = length pre, it_total = n, TxData = x, TxFee = y\<rparr> =
    Ok \<lparr>it_cur = c + 1, it_data = pre @ frame (fee, tx) @ post, it_idx = length pre + length (frame (fee, tx)), it_total = n, TxData = tx, TxFee = fee\<rparr>"
proof -
  have "unat (of_nat (length tx) :: u32) = length tx"
    using assms by (intro unat_of_nat_small) simp
  then show ?thesis
    by (simp add: it_Next_def slice_def frame_def le_simps)
qed

lemma iterate_frames:
  assumes "list_all (\<lambda>t. length (snd t) < 2 ^ 32) txs" "unat n = unat c + length txs"
  shows "iterate \<lparr>it_cur = c, it_data = pre @ concat (map frame txs), it_idx = length pre, it_total = n, TxData = x, TxFee = y\<rparr> = Ok txs"
  using assms
proof (induction txs arbitrary: c pre x y)
  case Nil
  then show ?case by (simp add: iterate.simps it_Valid_def word_less_nat_alt)
next
  case (Cons t txs)
  obtain fee tx where t: "t = (fee, tx)" by (cases t)
  have v: "c < n" using Cons.prems(2) by (simp add: word_less_nat_alt)
  then have c: "unat (c + 1) = unat c + 1"
    by (rule unat_Suc_less)
  have "iterate \<lparr>it_cur = c + 1, it_data = (pre @ frame t) @ concat (map frame txs), it_idx = length (pre @ frame t), it_total = n, TxData = tx, TxFee = fee\<rparr> = Ok txs"
    using Cons.prems c by (intro Cons.IH) auto
  with it_Next_frame [of tx c pre fee "concat (map frame txs)" n x y] Cons.prems(1) v t show ?case
    by (subst iterate.simps) (simp add: it_Valid_def)
qed

lemma write_at_fits:
  "i + length d \<le> length buf \<Longrightarrow> write_at buf i d = take i buf @ d @ drop (i + length d) buf"
  by (simp add: write_at_def)

definition txbuf_inv :: "nat \<Rightarrow> (u64 \<times> bytes) list \<Rightarrow> txbuf \<Rightarrow> bool" where
  "txbuf_inv sl txs s \<longleftrightarrow> length (txData s) = sl \<and> txIdx s \<le> sl \<and> txCount s = length txs \<and>
     take (txIdx s) (txData s) = concat (map frame txs) \<and> list_all (\<lambda>t. length (snd t) < 2 ^ 32) txs"

lemma new_txbuf_inv: "txbuf_inv sl [] (new_txbuf sl)"
  by (simp add: txbuf_inv_def new_txbuf_def)

lemma AddTransaction_keeps:
  assumes "txbuf_inv sl txs s"
  obtains "bc_AddTransaction sl cl tx fee s = Ok TooLarge" | "bc_AddTransaction sl cl tx fee s = Ok Wait"
  | s' where "bc_AddTransaction sl cl tx fee s = Ok (Added s')" "txbuf_inv sl (txs @ [(fee, tx)]) s'"
proof (cases "length tx \<ge> 2 ^ 32 \<or> length tx > sl \<or> int (txCount s) = cl \<or> txIdx s + length tx + 100 > sl")
  case True
  then have "bc_AddTransaction sl cl tx fee s = Ok TooLarge \<or> bc_AddTransaction sl cl tx fee s = Ok Wait"
    by (auto simp: bc_AddTransaction_def Let_def)
  with that show ?thesis by blast
next
  case False
  let ?i = "txIdx s" and ?b = "txData s"
  define s' where "s' = s\<lparr>txData := take ?i ?b @ frame (fee, tx) @ drop (?i + 12 + length tx) ?b,
    txCount := txCount s + 1, txIdx := ?i + 12 + length tx\<rparr>"
  have len: "length ?b = sl" and i: "?i \<le> sl" using assms by (auto simp: txbuf_inv_def)
  have "bc_AddTransaction sl cl tx fee s = Ok (Added s')"
    using False len by (simp add: bc_AddTransaction_def Let_def slice_def write_at_fits frame_def s'_def ac_simps)
  moreover have "length (concat (map frame txs)) = ?i"
    using assms by (metis txbuf_inv_def length_take min.absorb2)
  then have "txbuf_inv sl (txs @ [(fee, tx)]) s'"
    using assms False by (simp add: txbuf_inv_def s'_def frame_def)
  ultimately show ?thesis using that by blast
qed

lemma add_all_keeps:
  "txbuf_inv sl done s \<Longrightarrow> \<exists>l s'. add_all sl cl txs s = Ok (l, s') \<and> txbuf_inv sl (done @ l) s' \<and> subseq l txs"
proof (induction txs arbitrary: "done" s)
  case (Cons t txs)
  obtain fee tx where t: "t = (fee, tx)" by (cases t)
  from Cons.prems show ?case
  proof (cases rule: AddTransaction_keeps [where cl = cl and tx = tx and fee = fee])
    case (3 s')
    from Cons.IH [OF 3(2)] 3(1) show ?thesis by (auto simp: t)
  qed (use Cons.IH [OF Cons.prems] t in auto)
qed simp

lemma length_frames: "length l \<le> length (concat (map frame l))"
  by (induction l) (auto simp: frame_def)

lemma cut_inv:
  assumes inv: "txbuf_inv sl l s" and "sl < 2 ^ 63"
  shows "\<exists>t s'. cut s = Ok (t, s') \<and> txbuf_inv sl [] s' \<and> obind (Iter (b\<lparr>bl_Transactions := Some t\<rparr>)) iterate = Ok l"
proof -
  have d: "take (txIdx s) (txData s) = concat (map frame l)" and i: "txIdx s \<le> length (txData s)" "length (txData s) = sl"
    using inv by (auto simp: txbuf_inv_def)
  then have "length l \<le> sl" using length_frames [of l] by (metis length_take min.bounded_iff order.trans)
  then have "unat (of_nat (length l) :: u64) = length l" using assms(2) by (intro unat_of_nat_small) simp
  with inv iterate_frames [of l "of_nat (length l)" 0 "[]" "[]" 0] d i show ?thesis
    by (simp add: cut_def slice_def Iter_def txbuf_inv_def)
qed

section \<open>Laws of the order\<close>

lemma mset_insert_by [simp]: "mset (insert_by lt x ys) = add_mset x (mset ys)"
  by (induction ys) auto

lemma set_insert_by [simp]: "set (insert_by lt x ys) = insert x (set ys)"
  by (induction ys) auto

lemma mset_fold_insert [simp]: "mset (fold (insert_by lt) xs ys) = mset xs + mset ys"
  by (induction xs arbitrary: ys) auto

text \<open>A comparison for \<open>sort.Slice\<close>: irreflexive, transitive, and so is being incomparable.\<close>

locale weak_order =
  fixes lt :: "'a \<Rightarrow> 'a \<Rightarrow> bool"
  assumes lt_asym: "lt a b \<Longrightarrow> \<not> lt b a"
    and lt_neg_trans: "\<not> lt b a \<Longrightarrow> \<not> lt c b \<Longrightarrow> \<not> lt c a"
begin

lemma insert_sorted: "sorted_wrt (\<lambda>a b. \<not> lt b a) ys \<Longrightarrow> sorted_wrt (\<lambda>a b. \<not> lt b a) (insert_by lt x ys)"
proof (induction ys)
  case (Cons y ys)
  have "\<not> lt z x" if "lt x y" "z \<in> set ys" for z
    using that Cons.prems lt_asym [OF that(1)] lt_neg_trans [of y x z] by auto
  with Cons show ?case by (auto dest: lt_asym)
qed simp

lemma fold_sorted: "sorted_wrt (\<lambda>a b. \<not> lt b a) ys \<Longrightarrow> sorted_wrt (\<lambda>a b. \<not> lt b a) (fold (insert_by lt) xs ys)"
  by (induction xs arbitrary: ys) (auto intro: insert_sorted)

text \<open>When incomparable elements are equal, the sorted order is the only one: it does not depend on
  the algorithm.\<close>

lemma sorted_unique:
  assumes "sorted_wrt (\<lambda>a b. \<not> lt b a) xs" "sorted_wrt (\<lambda>a b. \<not> lt b a) ys" "mset xs = mset ys"
    and "\<And>a b. a \<in> set xs \<Longrightarrow> b \<in> set xs \<Longrightarrow> \<not> lt a b \<Longrightarrow> \<not> lt b a \<Longrightarrow> a = b"
  shows "xs = ys"
  using assms
proof (induction xs arbitrary: ys)
  case (Cons x xs)
  then obtain y zs where ys: "ys = y # zs" by (cases ys) auto
  have set: "set (x # xs) = set ys" using Cons.prems(3) by (metis set_mset_mset)
  have "x = y"
  proof (rule ccontr)
    assume "x \<noteq> y"
    with set ys have "x \<in> set zs" "y \<in> set xs" by auto
    with Cons.prems(1,2) ys have "\<not> lt y x" "\<not> lt x y" by auto
    with Cons.prems(4) \<open>y \<in> set xs\<close> \<open>x \<noteq> y\<close> show False by auto
  qed
  moreover from this have "xs = zs" using Cons.prems ys by (intro Cons.IH) auto
  ultimately show ?case using ys by simp
qed simp

end

interpretation tx_order: weak_order "tx_before sha" for sha
  by unfold_locales (auto simp: tx_before_def split: if_splits)

section \<open>Properties\<close>

text \<open>\<^bold>\<open>C34\<close>: transactions come out of a block as they went in. Offer any transactions to an empty
  buffer; nothing panics, and the block that is cut from the buffer gives, through the iterator,
  exactly the accepted transactions with their fees, in order, each with all its bytes.\<close>

theorem transactions_roundtrip:
  assumes "sl < 2 ^ 63"
  shows "\<exists>l s t s'. add_all sl cl txs (new_txbuf sl) = Ok (l, s) \<and> cut s = Ok (t, s') \<and> subseq l txs \<and>
     obind (Iter (b\<lparr>bl_Transactions := Some t\<rparr>)) iterate = Ok l \<and> txbuf_inv sl [] s'"
proof -
  from add_all_keeps [OF new_txbuf_inv, of sl cl txs] obtain l s where
    a: "add_all sl cl txs (new_txbuf sl) = Ok (l, s)" and inv: "txbuf_inv sl l s" and sub: "subseq l txs"
    by auto
  from cut_inv [OF inv assms] obtain t s' where "cut s = Ok (t, s')" "txbuf_inv sl [] s'"
    "obind (Iter (b\<lparr>bl_Transactions := Some t\<rparr>)) iterate = Ok l" by blast
  with a sub show ?thesis by blast
qed

theorem transactions_roundtrip_witness:
  "\<exists>l s t s'. add_all 300 5 [(7, [1, 2]), (9, replicate 300 0), (8, [])] (new_txbuf 300) = Ok (l, s) \<and> cut s = Ok (t, s') \<and>
     obind (Iter (\<lparr>bl_Node = 1, bl_Previous = None, bl_References = [], bl_Round = 1, bl_Transactions = Some t\<rparr>)) iterate = Ok l"
  using transactions_roundtrip [of 300 5 "[(7, [1, 2]), (9, replicate 300 0), (8, [])]"
    "\<lparr>bl_Node = 1, bl_Previous = None, bl_References = [], bl_Round = 1, bl_Transactions = None\<rparr>"]
  by simp blast

text \<open>\<^bold>\<open>C35\<close>: \<open>AddTransaction\<close> gets through in the next empty block exactly when the transaction leaves
  100 bytes of the size limit free. A transaction within the last 100 bytes of the limit is not
  refused as too large but waits in every state of the buffer, so the call never returns.\<close>

theorem add_progress:
  assumes "txbuf_inv sl [] s" "cl \<noteq> 0" "length tx < 2 ^ 32"
  shows "((\<exists>s'. bc_AddTransaction sl cl tx fee s = Ok (Added s')) \<longleftrightarrow> length tx + 100 \<le> sl) \<and>
    (length tx \<le> sl \<and> sl < length tx + 100 \<longrightarrow> (\<forall>s2 cl2. bc_AddTransaction sl cl2 tx fee s2 = Ok Wait))"
proof -
  from assms have "txCount s = 0" "length (txData s) = sl" "txIdx s = 0 \<or> sl = 0"
    by (auto simp: txbuf_inv_def)
  with assms(2,3) show ?thesis
    by (auto simp: bc_AddTransaction_def Let_def slice_def)
qed

theorem add_progress_witness:
  "(\<exists>s'. bc_AddTransaction 300 5 [1] 7 (new_txbuf 300) = Ok (Added s')) \<and>
    (\<forall>s2. bc_AddTransaction 300 5 (replicate 250 0) 7 s2 = Ok Wait)"
  using add_progress [of 300 "new_txbuf 300" 5 "[1]" 7] add_progress [of 300 "new_txbuf 300" 5 "replicate 250 0" 7] new_txbuf_inv
  by simp

text \<open>\<^bold>\<open>C36\<close>: the order of the transactions of a block is canonical: it is a permutation with
  descending fees, and nodes that start from the same transactions in any order end up with the
  same list, as long as no two different transactions of equal fee have the same hash.\<close>

theorem sort_canonical:
  assumes "mset xs = mset ys"
    and "\<forall>a \<in> set xs. \<forall>b \<in> set xs. td_Fee a = td_Fee b \<and> sha (td_Data a) = sha (td_Data b) \<longrightarrow> a = b"
  shows "Sort sha xs = Sort sha ys \<and> mset (Sort sha xs) = mset xs \<and> sorted_wrt (\<lambda>a b. td_Fee a \<ge> td_Fee b) (Sort sha xs)"
proof -
  have s: "sorted_wrt (\<lambda>a b. \<not> tx_before sha b a) (Sort sha zs)" for zs
    by (simp add: Sort_def tx_order.fold_sorted)
  have m: "mset (Sort sha zs) = mset zs" for zs by (simp add: Sort_def)
  have "Sort sha xs = Sort sha ys"
  proof (rule tx_order.sorted_unique [OF s s])
    show "mset (Sort sha xs) = mset (Sort sha ys)" using assms(1) m by simp
    have "set (Sort sha xs) = set xs" using m [of xs] by (metis set_mset_mset)
    then show "a = b" if "a \<in> set (Sort sha xs)" "b \<in> set (Sort sha xs)" "\<not> tx_before sha a b" "\<not> tx_before sha b a" for a b
      using that assms(2) by (auto simp: tx_before_def split: if_splits)
  qed
  moreover have "sorted_wrt (\<lambda>a b. td_Fee a \<ge> td_Fee b) (Sort sha xs)"
    by (rule sorted_wrt_mono_rel [OF _ s]) (auto simp: tx_before_def split: if_splits)
  ultimately show ?thesis using m [of xs] by blast
qed

lemma mset_rotate: "mset [a, b, c] = mset [b, c, a]"
  by simp

theorem sort_canonical_witness:
  "Sort (\<lambda>d. d) [\<lparr>td_Data = [1], td_Fee = 5\<rparr>, \<lparr>td_Data = [2], td_Fee = 5\<rparr>, \<lparr>td_Data = [3], td_Fee = 9\<rparr>] =
   Sort (\<lambda>d. d) [\<lparr>td_Data = [2], td_Fee = 5\<rparr>, \<lparr>td_Data = [3], td_Fee = 9\<rparr>, \<lparr>td_Data = [1], td_Fee = 5\<rparr>]"
  by (rule conjunct1 [OF sort_canonical [OF mset_rotate]]) simp

end
