(* ===== verification/BcStore.thy ===== *)
theory BcStore
  imports BcCodec BcTx
begin

text \<open>
  \<open>broadcast/store.go\<close>: what a node persists about blocks. An operation is a function of the store,
  a database that may be closed. An update runs in one transaction of the database, so that an
  error leaves the store as it was; every call of the source holds the lock of the store for its
  whole duration. The protobuf encoders and the hash are fields of a record of parameters.
\<close>

section \<open>Parameters and state\<close>

record bcodec =
  mSigned :: "SignedData \<Rightarrow> bytes option"
  uSigned :: "bytes \<Rightarrow> SignedData option"
  mBlock :: "Block \<Rightarrow> bytes option"
  uBlock :: "bytes \<Rightarrow> Block option"
  mRef :: "BlockReference \<Rightarrow> bytes option"
  uRef :: "bytes \<Rightarrow> BlockReference option"
  csha :: "bytes \<Rightarrow> bytes"

record blockData =
  bd_deps :: "BlockID list"
  bd_id :: BlockID
  bd_prev :: BlockID
  bd_ref :: SignedData

record receivedInfo =
  latest :: u64
  sequence :: u64

datatype bs_err = ErrDBClosed | BsBadger badger_err | BsMarshal | BsUnmarshal | BsLexinum lexinum_error

record bstore =
  bs_closed :: bool
  bs_db :: db

type_synonym 'a bs_op = "(bs_err, 'a) outcome"

definition view :: "bstore \<Rightarrow> (db \<Rightarrow> 'a bs_op) \<Rightarrow> 'a bs_op" where
  "view s f = (if bs_closed s then Err ErrDBClosed else f (bs_db s))"

definition update :: "bstore \<Rightarrow> (db \<Rightarrow> (badger_err, db) outcome) \<Rightarrow> bstore bs_op" where
  "update s f = omap (\<lambda>d. s\<lparr>bs_db := d\<rparr>) (oerr BsBadger (f (bs_db s)))"

definition db_get :: "db \<Rightarrow> bytes \<Rightarrow> bytes bs_op" where
  "db_get d k = oerr BsBadger (txn_Get d k)"

definition get_signed :: "bcodec \<Rightarrow> db \<Rightarrow> bytes \<Rightarrow> SignedData bs_op" where
  "get_signed c d k = obind (db_get d k) (\<lambda>v. case uSigned c v of None \<Rightarrow> Err BsUnmarshal | Some x \<Rightarrow> Ok x)"

fun omaps :: "('a \<Rightarrow> ('e, 'b) outcome) \<Rightarrow> 'a list \<Rightarrow> ('e, 'b list) outcome" where
  "omaps f [] = Ok []"
| "omaps f (x # xs) = obind (f x) (\<lambda>y. omap (Cons y) (omaps f xs))"

definition fatal :: "'a option \<Rightarrow> ('e, 'a) outcome" where
  "fatal x = (case x of None \<Rightarrow> Panic LogFatal | Some y \<Rightarrow> Ok y)"

section \<open>Reading blocks\<close>

definition ref_id :: "BlockReference \<Rightarrow> BlockID" where
  "ref_id r = \<lparr>Hash = br_Hash r, Node = br_Node r, Round = br_Round r\<rparr>"

definition getBlockData :: "bcodec \<Rightarrow> SignedData \<Rightarrow> ('e, blockData) outcome" where
  "getBlockData c sd =
     obind (fatal (uBlock c (sd_Data sd))) (\<lambda>block.
     let hash = csha c (sd_Data sd);
         ref = \<lparr>br_Hash = hash, br_Node = bl_Node block, br_Round = bl_Round block\<rparr> in
     obind (fatal (mRef c ref)) (\<lambda>enc.
     obind (if bl_Round block \<noteq> 1 then
              case bl_Previous block of
                None \<Rightarrow> Panic NilDereference
              | Some p \<Rightarrow> omap ref_id (fatal (uRef c (sd_Data p)))
            else Ok zero_BlockID) (\<lambda>prev.
     obind (omaps (\<lambda>sref. omap ref_id (fatal (uRef c (sd_Data sref)))) (bl_References block)) (\<lambda>deps.
     Ok \<lparr>bd_deps = deps, bd_id = ref_id ref, bd_prev = prev,
         bd_ref = \<lparr>sd_Data = enc, sd_Signature = sd_Signature sd\<rparr>\<rparr>))))"

definition getBlock :: "bcodec \<Rightarrow> BlockID \<Rightarrow> bstore \<Rightarrow> SignedData bs_op" where
  "getBlock c i s = view s (\<lambda>d. get_signed c d (blockKey i))"

definition store_getBlockData :: "bcodec \<Rightarrow> BlockID \<Rightarrow> bstore \<Rightarrow> blockData bs_op" where
  "store_getBlockData c i s = view s (\<lambda>_. obind (getBlock c i s) (getBlockData c))"

definition getBlocks :: "bcodec \<Rightarrow> BlockID list \<Rightarrow> bstore \<Rightarrow> SignedData list bs_op" where
  "getBlocks c ids s = view s (\<lambda>d. omaps (\<lambda>i. get_signed c d (blockKey i)) ids)"

definition getOwnBlock :: "bcodec \<Rightarrow> u64 \<Rightarrow> bstore \<Rightarrow> SignedData bs_op" where
  "getOwnBlock c round s = view s (\<lambda>d. get_signed c d (ownBlockKey round))"

fun graphs_loop :: "bytes \<Rightarrow> int \<Rightarrow> (bytes \<times> bytes) list \<Rightarrow> BlockGraph list \<Rightarrow> BlockGraph list bs_op" where
  "graphs_loop pfx limit [] acc = Ok acc"
| "graphs_loop pfx limit ((k, v) # es) acc =
     (if has_prefix pfx k then
        obind (oerr BsLexinum (decodeBlockID (drop 1 k))) (\<lambda>i.
        obind (oerr BsLexinum (decode_graph i v)) (\<lambda>g.
          if int (length (acc @ [g])) = limit then Ok (acc @ [g])
          else graphs_loop pfx limit es (acc @ [g])))
      else Ok acc)"

definition getBlockGraphs :: "u64 \<Rightarrow> u64 \<Rightarrow> int \<Rightarrow> bstore \<Rightarrow> BlockGraph list bs_op" where
  "getBlockGraphs nodeID from_round limit s = view s (\<lambda>d.
     let pfx = [blockGraphPrefix] @ Encode nodeID @ [0] in
     graphs_loop pfx limit (iter_from (pfx @ Encode from_round) d) [])"

text \<open>\<open>getMissing\<close>: the rounds between the last one seen and the next block, until \<open>added\<close> hits the
  limit (\<open>True\<close>: the early return); then the next block.\<close>

function missing_gap :: "u64 \<Rightarrow> u64 \<Rightarrow> int \<Rightarrow> u64 \<Rightarrow> u64 list \<Rightarrow> int \<Rightarrow> bool \<times> u64 \<times> u64 list \<times> int" where
  "missing_gap i nxt limit lat rounds added =
     (if i < nxt then
        if added = limit then (True, i, rounds @ [i], added)
        else missing_gap (i + 1) nxt limit i (rounds @ [i]) (added + 1)
      else (False, lat, rounds, added))"
  by pat_completeness auto
termination
  by (relation "measure (\<lambda>(i, nxt, _). unat nxt - unat i)") (auto simp: unat_Suc_less word_less_nat_alt)

declare missing_gap.simps [simp del]

fun missing_loop :: "bytes \<Rightarrow> int \<Rightarrow> (bytes \<times> bytes) list \<Rightarrow> u64 \<Rightarrow> u64 list \<Rightarrow> int \<Rightarrow> (u64 list \<times> u64) bs_op" where
  "missing_loop pfx limit [] lat rounds added = Ok (rounds, lat)"
| "missing_loop pfx limit ((k, v) # es) lat rounds added =
     (if has_prefix pfx k then
        obind (oerr BsLexinum (decodeBlockRound k)) (\<lambda>nxt.
          let (stop, lat1, rounds1, added1) = missing_gap (lat + 1) nxt limit lat rounds added in
          if stop then Ok (rounds1, lat1) else missing_loop pfx limit es nxt rounds1 added1)
      else Ok (rounds, lat))"

definition getMissing :: "u64 \<Rightarrow> u64 \<Rightarrow> int \<Rightarrow> bstore \<Rightarrow> (u64 list \<times> u64) bs_op" where
  "getMissing nodeID since limit s = view s (\<lambda>d.
     let pfx = [blockPrefix] @ Encode nodeID @ [0] in
     missing_loop pfx limit (iter_from (pfx @ Encode (since + 1)) d) since [] 0)"

definition getNotIncluded :: "bcodec \<Rightarrow> bstore \<Rightarrow> blockData list bs_op" where
  "getNotIncluded c s = view s (\<lambda>d.
     let es = takeWhile (\<lambda>e. has_prefix [notIncludedPrefix] (fst e)) (iter_from [notIncludedPrefix] d) in
     obind (omaps (\<lambda>e. get_signed c d (blockPrefix # drop 1 (fst e))) es) (\<lambda>blocks.
       omaps (getBlockData c) blocks))"

definition store_isIncluded :: "BlockID \<Rightarrow> bstore \<Rightarrow> bool bs_op" where
  "store_isIncluded i s = view s (\<lambda>d.
     case txn_Get d (includedKey i) of
       Ok val \<Rightarrow> if val = [] then Panic IndexOutOfRange else Ok (hd val = 1)
     | Err ErrKeyNotFound \<Rightarrow> Ok False
     | Err e \<Rightarrow> Err (BsBadger e)
     | Panic r \<Rightarrow> Panic r)"

text \<open>\<open>getRoundBlocks\<close> takes the node from byte 21 of a key and the hash from byte 41.\<close>

definition round_entry :: "bcodec \<Rightarrow> u64 \<Rightarrow> bytes \<times> bytes \<Rightarrow> (BlockID, Block) gomap \<Rightarrow> (BlockID, Block) gomap bs_op" where
  "round_entry c round e data =
     obind (slice (fst e) 21 (length (fst e))) (\<lambda>nk.
     obind (oerr BsLexinum (Decode nk)) (\<lambda>nodeID.
     obind (slice (fst e) 41 (length (fst e))) (\<lambda>hash.
       case uSigned c (snd e) of
         None \<Rightarrow> Err BsUnmarshal
       | Some sd \<Rightarrow>
           (case uBlock c (sd_Data sd) of
              None \<Rightarrow> Err BsUnmarshal
            | Some block \<Rightarrow> Ok (mput \<lparr>Hash = hash, Node = nodeID, Round = round\<rparr> block data)))))"

definition getRoundBlocks :: "bcodec \<Rightarrow> u64 \<Rightarrow> bstore \<Rightarrow> (BlockID, Block) gomap bs_op" where
  "getRoundBlocks c round s = view s (\<lambda>d.
     let pfx = [blockPrefix] @ Encode round in
     ofold (round_entry c round) (takeWhile (\<lambda>e. has_prefix pfx (fst e)) (iter_from pfx d)) [])"

section \<open>Reading progress\<close>

definition get_u64 :: "bytes \<Rightarrow> ('e, u64 \<times> bytes) outcome" where
  "get_u64 d = obind (slice d 0 8) (\<lambda>v. omap (\<lambda>w. (w, drop 8 d)) (Uint64 v))"

definition getDeliverAcknowledged :: "bstore \<Rightarrow> u64 bs_op" where
  "getDeliverAcknowledged s = view s (\<lambda>d. obind (db_get d [roundAcknowledgedPrefix]) Uint64)"

text \<open>A length read as a Go \<open>int\<close>: a negative one ends the loop at once.\<close>

definition int_len :: "u64 \<Rightarrow> nat" where
  "int_len w = nat (sint w)"

fun read_keys :: "nat \<Rightarrow> bcodec \<Rightarrow> db \<Rightarrow> bytes \<Rightarrow> SignedData list bs_op" where
  "read_keys 0 c d val = Ok []"
| "read_keys (Suc n) c d val =
     obind (slice val 0 2) (\<lambda>kb. obind (Uint16 kb) (\<lambda>ksize.
     obind (slice val 2 (2 + unat ksize)) (\<lambda>key.
     obind (get_signed c d key) (\<lambda>block.
       omap (Cons block) (read_keys n c d (drop (2 + unat ksize) val))))))"

definition getInterpreted :: "bcodec \<Rightarrow> u64 \<Rightarrow> bstore \<Rightarrow> SignedData list bs_op" where
  "getInterpreted c round s = view s (\<lambda>d.
     obind (db_get d (interpretedKey round)) (\<lambda>val.
     obind (get_u64 val) (\<lambda>(n, rest). read_keys (int_len n) c d rest)))"

definition getLastInterpreted :: "bstore \<Rightarrow> (u64 \<times> u64) bs_op" where
  "getLastInterpreted s = view s (\<lambda>d.
     obind (db_get d [lastInterpretedPrefix]) (\<lambda>val.
     obind (get_u64 val) (\<lambda>(round, rest). omap (\<lambda>(consumed, _). (round, consumed)) (get_u64 rest))))"

definition getLastRoundData :: "bcodec \<Rightarrow> bstore \<Rightarrow> (u64 \<times> bytes \<times> SignedData) bs_op" where
  "getLastRoundData c s = view s (\<lambda>d.
     obind (db_get d [lastHashPrefix]) (\<lambda>hash.
     obind (db_get d [lastRoundPrefix]) (\<lambda>rv.
     obind (Uint64 rv) (\<lambda>round.
     obind (get_signed c d [lastBlockRefPrefix]) (\<lambda>blockRef. Ok (round, hash, blockRef))))))"

fun read_received :: "nat \<Rightarrow> bytes \<Rightarrow> (u64, receivedInfo) gomap \<Rightarrow> ('e, (u64, receivedInfo) gomap) outcome" where
  "read_received 0 val data = Ok data"
| "read_received (Suc n) val data =
     obind (get_u64 val) (\<lambda>(k, v1). obind (get_u64 v1) (\<lambda>(l, v2). obind (get_u64 v2) (\<lambda>(q, v3).
       read_received n v3 (mput k \<lparr>latest = l, sequence = q\<rparr> data))))"

definition getReceivedMap :: "bstore \<Rightarrow> (u64, receivedInfo) gomap bs_op" where
  "getReceivedMap s = view s (\<lambda>d. obind (db_get d [receivedMapPrefix]) (\<lambda>val.
     obind (get_u64 val) (\<lambda>(n, rest). read_received (int_len n) rest [])))"

fun read_sent :: "nat \<Rightarrow> bytes \<Rightarrow> (u64, u64) gomap \<Rightarrow> ('e, (u64, u64) gomap) outcome" where
  "read_sent 0 val data = Ok data"
| "read_sent (Suc n) val data =
     obind (get_u64 val) (\<lambda>(k, v1). obind (get_u64 v1) (\<lambda>(v, v2). read_sent n v2 (mput k v data)))"

definition getSentMap :: "bstore \<Rightarrow> (u64, u64) gomap bs_op" where
  "getSentMap s = view s (\<lambda>d. obind (db_get d [sentMapPrefix]) (\<lambda>val.
     obind (get_u64 val) (\<lambda>(n, rest). read_sent (int_len n) rest [])))"

section \<open>Writing\<close>

definition marshal :: "bcodec \<Rightarrow> SignedData \<Rightarrow> bytes bs_op" where
  "marshal c x = (case mSigned c x of None \<Rightarrow> Err BsMarshal | Some b \<Rightarrow> Ok b)"

definition store_setBlock :: "bcodec \<Rightarrow> BlockID \<Rightarrow> SignedData \<Rightarrow> bstore \<Rightarrow> bstore bs_op" where
  "store_setBlock c i block s = view s (\<lambda>_.
     obind (marshal c block) (\<lambda>val.
     update s (\<lambda>d.
       case txn_Get d (includedKey i) of
         Ok _ \<Rightarrow> Ok d
       | Panic r \<Rightarrow> Panic r
       | Err e \<Rightarrow>
           if e \<noteq> ErrKeyNotFound then Err e
           else obind (txn_Set (includedKey i) [0] d) (\<lambda>d1.
                obind (txn_Set (notIncludedKey i) [] d1) (\<lambda>d2. txn_Set (blockKey i) val d2)))))"

definition setDeliverAcknowledged :: "u64 \<Rightarrow> bstore \<Rightarrow> bstore bs_op" where
  "setDeliverAcknowledged round s = view s (\<lambda>_. update s (txn_Set [roundAcknowledgedPrefix] (PutUint64 round)))"

definition enc_interpreted :: "BlockID list \<Rightarrow> bytes" where
  "enc_interpreted ids = PutUint64 (of_nat (length ids)) @
     concat (map (\<lambda>i. PutUint16 (of_nat (length (blockKey i))) @ blockKey i) ids)"

definition setInterpreted :: "Interpreted \<Rightarrow> bstore \<Rightarrow> bstore bs_op" where
  "setInterpreted data s = view s (\<lambda>_. update s (\<lambda>d.
     obind (txn_Set (interpretedKey (in_Round data)) (enc_interpreted (in_Blocks data)) d)
       (txn_Set [lastInterpretedPrefix] (PutUint64 (in_Round data) @ PutUint64 (in_Consumed data)))))"

definition store_setOwnBlock :: "bcodec \<Rightarrow> SignedData \<Rightarrow> SignedData \<Rightarrow> BlockGraph \<Rightarrow> bstore \<Rightarrow> bstore bs_op" where
  "store_setOwnBlock c block blockRef graph s = view s (\<lambda>_.
     obind (marshal c block) (\<lambda>val.
     obind (marshal c blockRef) (\<lambda>blockRefVal.
     let delkeys = map (\<lambda>ref. notIncludedKey (dep_Block ref)) (bg_Deps graph);
         refkeys = map (\<lambda>ref. includedKey (dep_Block ref)) (bg_Deps graph) in
     update s (\<lambda>d.
       obind (txn_Set (blockKey (bg_Block graph)) val d) (\<lambda>d1.
       obind (txn_Set [lastBlockRefPrefix] blockRefVal d1) (\<lambda>d2.
       obind (txn_Set (blockGraphKey (bg_Block graph)) (encodeBlockGraph graph) d2) (\<lambda>d3.
       obind (txn_Set [lastHashPrefix] (Hash (bg_Block graph)) d3) (\<lambda>d4.
       obind (txn_Set [lastRoundPrefix] (PutUint64 (Round (bg_Block graph))) d4) (\<lambda>d5.
       obind (ofold (\<lambda>refkey. txn_Set refkey [1]) refkeys d5) (\<lambda>d6.
       obind (ofold txn_Delete delkeys d6) (\<lambda>d7.
       txn_Set (ownBlockKey (Round (bg_Block graph))) val d7)))))))))))"

definition setReceivedMap :: "(u64, receivedInfo) gomap \<Rightarrow> bstore \<Rightarrow> bstore bs_op" where
  "setReceivedMap data s = view s (\<lambda>_. update s (txn_Set [receivedMapPrefix]
     (PutUint64 (of_nat (length data)) @
      concat (map (\<lambda>(k, v). PutUint64 k @ PutUint64 (latest v) @ PutUint64 (sequence v)) data))))"

definition setSentMap :: "(u64, u64) gomap \<Rightarrow> bstore \<Rightarrow> bstore bs_op" where
  "setSentMap data s = view s (\<lambda>_. update s (txn_Set [sentMapPrefix]
     (PutUint64 (of_nat (length data)) @ concat (map (\<lambda>(k, v). PutUint64 k @ PutUint64 v) data))))"

end
