(* ===== verification/BcRefine.thy ===== *)
theory BcRefine
  imports BcStore
begin

text \<open>
  What the broadcast store promises: an abstract store of functions from blocks and rounds to
  values, and the refinement of every update of \<open>broadcast/store.go\<close> to it. The readers then are
  lookups in the abstract store.
\<close>

section \<open>The abstract store\<close>

record astore =
  a_blocks :: "BlockID \<Rightarrow> SignedData option"
  a_incl :: "BlockID \<Rightarrow> bool option"
  a_own :: "u64 \<Rightarrow> SignedData option"
  a_graphs :: "BlockID \<Rightarrow> BlockGraph option"
  a_last :: "(u64 \<times> bytes \<times> SignedData) option"
  a_interp :: "u64 \<Rightarrow> BlockID list option"
  a_lastInterp :: "(u64 \<times> u64) option"
  a_ack :: "u64 option"
  a_recv :: "(u64 \<Rightarrow> receivedInfo option) option"
  a_sent :: "(u64 \<Rightarrow> u64 option) option"

definition a_empty :: astore where
  "a_empty = \<lparr>a_blocks = (\<lambda>_. None), a_incl = (\<lambda>_. None), a_own = (\<lambda>_. None), a_graphs = (\<lambda>_. None),
     a_last = None, a_interp = (\<lambda>_. None), a_lastInterp = None, a_ack = None, a_recv = None, a_sent = None\<rparr>"

datatype store_op =
    SetBlock BlockID SignedData
  | SetOwnBlock SignedData SignedData BlockGraph
  | SetInterpreted Interpreted
  | SetAcknowledged u64
  | SetReceivedMap "(u64, receivedInfo) gomap"
  | SetSentMap "(u64, u64) gomap"

fun run_op :: "bcodec \<Rightarrow> store_op \<Rightarrow> bstore \<Rightarrow> bstore bs_op" where
  "run_op c (SetBlock i b) = store_setBlock c i b"
| "run_op c (SetOwnBlock b r g) = store_setOwnBlock c b r g"
| "run_op c (SetInterpreted x) = setInterpreted x"
| "run_op c (SetAcknowledged r) = setDeliverAcknowledged r"
| "run_op c (SetReceivedMap m) = setReceivedMap m"
| "run_op c (SetSentMap m) = setSentMap m"

fun abs_op :: "store_op \<Rightarrow> astore \<Rightarrow> astore" where
  "abs_op (SetBlock i b) a =
     (if a_incl a i = None then a\<lparr>a_blocks := (a_blocks a)(i \<mapsto> b), a_incl := (a_incl a)(i \<mapsto> False)\<rparr> else a)"
| "abs_op (SetOwnBlock b r g) a =
     a\<lparr>a_blocks := (a_blocks a)(bg_Block g \<mapsto> b), a_own := (a_own a)(Round (bg_Block g) \<mapsto> b),
       a_graphs := (a_graphs a)(bg_Block g \<mapsto> g), a_last := Some (Round (bg_Block g), Hash (bg_Block g), r),
       a_incl := (\<lambda>i. if i \<in> dep_Block ` set (bg_Deps g) then Some True else a_incl a i)\<rparr>"
| "abs_op (SetInterpreted x) a =
     a\<lparr>a_interp := (a_interp a)(in_Round x \<mapsto> in_Blocks x), a_lastInterp := Some (in_Round x, in_Consumed x)\<rparr>"
| "abs_op (SetAcknowledged r) a = a\<lparr>a_ack := Some r\<rparr>"
| "abs_op (SetReceivedMap m) a = a\<lparr>a_recv := Some (map_of m)\<rparr>"
| "abs_op (SetSentMap m) a = a\<lparr>a_sent := Some (map_of m)\<rparr>"

text \<open>The sizes the encodings assume: lengths fit into their fields, a Go map has distinct keys.\<close>

fun op_fits :: "store_op \<Rightarrow> bool" where
  "op_fits (SetOwnBlock b r g) = graph_fits g"
| "op_fits (SetInterpreted x) = (length (in_Blocks x) < 2 ^ 63 \<and> list_all (\<lambda>i. length (blockKey i) < 2 ^ 16) (in_Blocks x))"
| "op_fits (SetReceivedMap m) = (mwf m \<and> length m < 2 ^ 63)"
| "op_fits (SetSentMap m) = (mwf m \<and> length m < 2 ^ 63)"
| "op_fits _ = True"

text \<open>Decoding what was encoded gives it back.\<close>

definition codec_ok :: "bcodec \<Rightarrow> bool" where
  "codec_ok c \<longleftrightarrow> (\<forall>x b. mSigned c x = Some b \<longrightarrow> uSigned c b = Some x)"

section \<open>The representation\<close>

text \<open>The parts of the representation are predicates of the lookup function of the database.\<close>

type_synonym lookup = "bytes \<Rightarrow> bytes option"

definition signed_at :: "bcodec \<Rightarrow> bytes option \<Rightarrow> SignedData option \<Rightarrow> bool" where
  "signed_at c v x = (case x of None \<Rightarrow> v = None | Some y \<Rightarrow> \<exists>b. v = Some b \<and> uSigned c b = Some y)"

definition enc_received :: "(u64, receivedInfo) gomap \<Rightarrow> bytes" where
  "enc_received data = PutUint64 (of_nat (length data)) @
      concat (map (\<lambda>(k, v). PutUint64 k @ PutUint64 (latest v) @ PutUint64 (sequence v)) data)"

definition enc_sent :: "(u64, u64) gomap \<Rightarrow> bytes" where
  "enc_sent data = PutUint64 (of_nat (length data)) @ concat (map (\<lambda>(k, v). PutUint64 k @ PutUint64 v) data)"

definition last_at :: "bcodec \<Rightarrow> bytes option \<Rightarrow> bytes option \<Rightarrow> bytes option \<Rightarrow> (u64 \<times> bytes \<times> SignedData) option \<Rightarrow> bool" where
  "last_at c hv rv bv x = (case x of
     None \<Rightarrow> hv = None
   | Some (r, h, y) \<Rightarrow> hv = Some h \<and> rv = Some (PutUint64 r) \<and> signed_at c bv (Some y))"

definition map_at :: "((u64, 'v) gomap \<Rightarrow> bytes) \<Rightarrow> bytes option \<Rightarrow> (u64 \<Rightarrow> 'v option) option \<Rightarrow> bool" where
  "map_at enc v x = (case x of
     None \<Rightarrow> v = None
   | Some f \<Rightarrow> \<exists>l. f = map_of l \<and> mwf l \<and> length l < 2 ^ 63 \<and> v = Some (enc l))"

definition repr_blocks :: "bcodec \<Rightarrow> lookup \<Rightarrow> astore \<Rightarrow> bool" where
  "repr_blocks c m a \<longleftrightarrow> (\<forall>i. signed_at c (m (blockKey i)) (a_blocks a i)) \<and>
     (\<forall>k. blockPrefix # k \<in> dom m \<longrightarrow> (\<exists>i. k = encodeBlockID i)) \<and>
     (\<forall>r. signed_at c (m (ownBlockKey r)) (a_own a r))"

definition repr_incl :: "lookup \<Rightarrow> astore \<Rightarrow> bool" where
  "repr_incl m a \<longleftrightarrow> (\<forall>i. m (includedKey i) = map_option (\<lambda>b. [if b then 1 else 0]) (a_incl a i)) \<and>
     (\<forall>i. m (notIncludedKey i) = (if a_incl a i = Some False then Some [] else None)) \<and>
     (\<forall>k. notIncludedPrefix # k \<in> dom m \<longrightarrow> (\<exists>i. k = encodeBlockID i)) \<and>
     (\<forall>i. a_incl a i = Some False \<longrightarrow> a_blocks a i \<noteq> None)"

definition repr_graphs :: "bcodec \<Rightarrow> lookup \<Rightarrow> astore \<Rightarrow> bool" where
  "repr_graphs c m a \<longleftrightarrow> (\<forall>i. m (blockGraphKey i) = map_option encodeBlockGraph (a_graphs a i)) \<and>
     (\<forall>i g. a_graphs a i = Some g \<longrightarrow> bg_Block g = i \<and> graph_fits g) \<and>
     (\<forall>k. blockGraphPrefix # k \<in> dom m \<longrightarrow> (\<exists>i. k = encodeBlockID i)) \<and>
     last_at c (m [lastHashPrefix]) (m [lastRoundPrefix]) (m [lastBlockRefPrefix]) (a_last a)"

definition repr_progress :: "lookup \<Rightarrow> astore \<Rightarrow> bool" where
  "repr_progress m a \<longleftrightarrow> (\<forall>r. m (interpretedKey r) = map_option enc_interpreted (a_interp a r)) \<and>
     (\<forall>r ids. a_interp a r = Some ids \<longrightarrow> length ids < 2 ^ 63 \<and> list_all (\<lambda>i. length (blockKey i) < 2 ^ 16) ids) \<and>
     m [lastInterpretedPrefix] = map_option (\<lambda>(r, n). PutUint64 r @ PutUint64 n) (a_lastInterp a) \<and>
     m [roundAcknowledgedPrefix] = map_option PutUint64 (a_ack a)"

definition repr_maps :: "lookup \<Rightarrow> astore \<Rightarrow> bool" where
  "repr_maps m a \<longleftrightarrow> map_at enc_received (m [receivedMapPrefix]) (a_recv a) \<and> map_at enc_sent (m [sentMapPrefix]) (a_sent a)"

definition repr :: "bcodec \<Rightarrow> bstore \<Rightarrow> astore \<Rightarrow> bool" where
  "repr c s a \<longleftrightarrow> \<not> bs_closed s \<and> mwf (bs_db s) \<and> (let m = map_of (bs_db s) in
     repr_blocks c m a \<and> repr_incl m a \<and> repr_graphs c m a \<and> repr_progress m a \<and> repr_maps m a)"

text \<open>The part that blocks, inclusion and the last own block need; it does not depend on sizes.\<close>

definition core :: "bcodec \<Rightarrow> bstore \<Rightarrow> astore \<Rightarrow> bool" where
  "core c s a \<longleftrightarrow> \<not> bs_closed s \<and> mwf (bs_db s) \<and> (let m = map_of (bs_db s) in
     repr_blocks c m a \<and> repr_incl m a \<and> last_at c (m [lastHashPrefix]) (m [lastRoundPrefix]) (m [lastBlockRefPrefix]) (a_last a))"

lemma repr_core: "repr c s a \<Longrightarrow> core c s a"
  by (simp add: repr_def core_def repr_graphs_def Let_def)

lemma signed_at_None: "signed_at c v x \<Longrightarrow> v = None \<longleftrightarrow> x = None"
  by (auto simp: signed_at_def split: option.splits)

lemma reprD:
  assumes "repr c s a" and "m = map_of (bs_db s)"
  shows "repr_blocks c m a" "repr_incl m a" "repr_graphs c m a" "repr_progress m a" "repr_maps m a"
  using assms by (simp_all add: repr_def Let_def)

lemma signed_at_Some: "uSigned c b = Some y \<Longrightarrow> signed_at c (Some b) (Some y)"
  by (simp add: signed_at_def)

section \<open>Updates in closed form\<close>

lemma tag_keys [key_simps]:
  "ownBlockKey r = ownBlockPrefix # Encode r" "interpretedKey r = interpretedPrefix # Encode r"
  by (simp_all add: ownBlockKey_def interpretedKey_def)

lemma ofold_Set:
  assumes "list_all (\<lambda>k. k \<noteq> []) ks"
  obtains d' where "ofold (\<lambda>k. txn_Set k v) ks d = Ok d'" "mwf d \<Longrightarrow> mwf d'"
    "map_of d' = (\<lambda>k. if k \<in> set ks then Some v else map_of d k)"
proof -
  have "ofold (\<lambda>k. txn_Set k v) ks d = Ok (fold (\<lambda>k. mput k v) ks d)"
    using assms by (induction ks arbitrary: d) (simp_all add: txn_Set_def)
  moreover have "mwf d \<Longrightarrow> mwf (fold (\<lambda>k. mput k v) ks d)"
    by (induction ks arbitrary: d) auto
  moreover have "map_of (fold (\<lambda>k. mput k v) ks d) = (\<lambda>k. if k \<in> set ks then Some v else map_of d k)"
    by (induction ks arbitrary: d) (auto simp: gomap_simps fun_eq_iff)
  ultimately show thesis by (rule that)
qed

lemma ofold_Delete:
  assumes "list_all (\<lambda>k. k \<noteq> []) ks"
  obtains d' where "ofold txn_Delete ks d = Ok d'" "mwf d \<Longrightarrow> mwf d'"
    "map_of d' = (\<lambda>k. if k \<in> set ks then None else map_of d k)"
proof -
  have "ofold txn_Delete ks d = Ok (fold mdel ks d)"
    using assms by (induction ks arbitrary: d) (simp_all add: txn_Delete_def)
  moreover have "mwf d \<Longrightarrow> mwf (fold mdel ks d)"
    by (induction ks arbitrary: d) auto
  moreover have "map_of (fold mdel ks d) = (\<lambda>k. if k \<in> set ks then None else map_of d k)"
    by (induction ks arbitrary: d) (auto simp: gomap_simps fun_eq_iff)
  ultimately show thesis by (rule that)
qed

lemma setOwnBlock_cases:
  assumes "store_setOwnBlock c b r g s = Ok s'"
  obtains val rv where "mSigned c b = Some val" "mSigned c r = Some rv" "bs_closed s' = bs_closed s"
    "mwf (bs_db s) \<Longrightarrow> mwf (bs_db s')"
    "map_of (bs_db s') = (\<lambda>k. if k \<in> (\<lambda>d. notIncludedKey (dep_Block d)) ` set (bg_Deps g) then None
       else if k \<in> (\<lambda>d. includedKey (dep_Block d)) ` set (bg_Deps g) then Some [1]
       else ((map_of (bs_db s))(blockKey (bg_Block g) \<mapsto> val, [lastBlockRefPrefix] \<mapsto> rv,
         blockGraphKey (bg_Block g) \<mapsto> encodeBlockGraph g, [lastHashPrefix] \<mapsto> Hash (bg_Block g),
         [lastRoundPrefix] \<mapsto> PutUint64 (Round (bg_Block g)), ownBlockKey (Round (bg_Block g)) \<mapsto> val)) k)"
proof -
  from assms obtain val rv where m: "mSigned c b = Some val" "mSigned c r = Some rv"
    by (auto simp: store_setOwnBlock_def view_def marshal_def outcome_simps split: if_splits option.splits)
  let ?d = "mput [lastRoundPrefix] (PutUint64 (Round (bg_Block g))) (mput [lastHashPrefix] (Hash (bg_Block g))
    (mput (blockGraphKey (bg_Block g)) (encodeBlockGraph g) (mput [lastBlockRefPrefix] rv (mput (blockKey (bg_Block g)) val (bs_db s)))))"
  let ?inc = "map (\<lambda>d. includedKey (dep_Block d)) (bg_Deps g)" and ?not = "map (\<lambda>d. notIncludedKey (dep_Block d)) (bg_Deps g)"
  obtain d6 where d6: "ofold (\<lambda>k. txn_Set k [1]) ?inc ?d = Ok d6" "mwf ?d \<Longrightarrow> mwf d6"
    "map_of d6 = (\<lambda>k. if k \<in> set ?inc then Some [1] else map_of ?d k)"
    by (rule ofold_Set [of ?inc "[1]" ?d]) (simp_all add: list_all_iff key_simps)
  obtain d7 where d7: "ofold txn_Delete ?not d6 = Ok d7" "mwf d6 \<Longrightarrow> mwf d7"
    "map_of d7 = (\<lambda>k. if k \<in> set ?not then None else map_of d6 k)"
    by (rule ofold_Delete [of ?not d6]) (simp_all add: list_all_iff key_simps)
  have c: "\<not> bs_closed s" using assms by (auto simp: store_setOwnBlock_def view_def split: if_splits)
  have s': "s' = s\<lparr>bs_db := mput (ownBlockKey (Round (bg_Block g))) val d7\<rparr>"
    using assms m d6(1) d7(1) c by (simp add: store_setOwnBlock_def view_def marshal_def update_def key_simps db_simps)
  have o: "ownBlockKey r \<notin> set ?not" "ownBlockKey r \<notin> set ?inc" for r by (auto simp: key_simps)
  have m': "map_of (bs_db s') = (\<lambda>k. if k \<in> set ?not then None else if k \<in> set ?inc then Some [1]
       else ((map_of (bs_db s))(blockKey (bg_Block g) \<mapsto> val, [lastBlockRefPrefix] \<mapsto> rv,
         blockGraphKey (bg_Block g) \<mapsto> encodeBlockGraph g, [lastHashPrefix] \<mapsto> Hash (bg_Block g),
         [lastRoundPrefix] \<mapsto> PutUint64 (Round (bg_Block g)), ownBlockKey (Round (bg_Block g)) \<mapsto> val)) k)"
    using o by (simp add: s' d6(3) d7(3) gomap_simps fun_eq_iff del: set_map)
  show ?thesis
    by (rule that [OF m _ _ m' [unfolded set_map]]) (use d6(2) d7(2) s' in simp_all)
qed

lemma setBlock_cases:
  assumes "store_setBlock c i b s = Ok s'"
  obtains (known) v where "map_of (bs_db s) (includedKey i) = Some v" "s' = s"
  | (added) val where "map_of (bs_db s) (includedKey i) = None" "mSigned c b = Some val"
    "s' = s\<lparr>bs_db := mput (blockKey i) val (mput (notIncludedKey i) [] (mput (includedKey i) [0] (bs_db s)))\<rparr>"
  using assms that
  by (cases "map_of (bs_db s) (includedKey i)")
    (auto simp: store_setBlock_def view_def update_def marshal_def key_simps db_simps split: if_splits option.splits)

lemma other_updates:
  "setInterpreted x s = Ok s' \<Longrightarrow>
     s' = s\<lparr>bs_db := mput [lastInterpretedPrefix] (PutUint64 (in_Round x) @ PutUint64 (in_Consumed x))
       (mput (interpretedKey (in_Round x)) (enc_interpreted (in_Blocks x)) (bs_db s))\<rparr>"
  "setDeliverAcknowledged r s = Ok s' \<Longrightarrow> s' = s\<lparr>bs_db := mput [roundAcknowledgedPrefix] (PutUint64 r) (bs_db s)\<rparr>"
  "setReceivedMap rm s = Ok s' \<Longrightarrow> s' = s\<lparr>bs_db := mput [receivedMapPrefix] (enc_received rm) (bs_db s)\<rparr>"
  "setSentMap sm s = Ok s' \<Longrightarrow> s' = s\<lparr>bs_db := mput [sentMapPrefix] (enc_sent sm) (bs_db s)\<rparr>"
  by (auto simp: setInterpreted_def setDeliverAcknowledged_def setReceivedMap_def setSentMap_def enc_received_def
      enc_sent_def view_def update_def key_simps db_simps split: if_splits)

section \<open>Refinement\<close>

lemmas update_simps = gomap_simps key_simps encodeBlockID_inj lex.enc_inj

lemma setBlock_core:
  assumes "store_setBlock c i b s = Ok s'" "codec_ok c" "core c s a"
  shows "core c s' (abs_op (SetBlock i b) a)"
  using assms(1)
proof (cases rule: setBlock_cases)
  case (known v)
  with assms(3) show ?thesis by (auto simp: core_def repr_incl_def Let_def)
next
  case (added val)
  have u: "uSigned c val = Some b" using added(2) assms(2) by (simp add: codec_ok_def)
  have n: "a_incl a i = None" using added(1) assms(3) by (simp add: repr_incl_def core_def Let_def)
  let ?m = "(map_of (bs_db s))(includedKey i \<mapsto> [0], notIncludedKey i \<mapsto> [], blockKey i \<mapsto> val)" and ?a = "abs_op (SetBlock i b) a"
  have "repr_blocks c ?m ?a" "repr_incl ?m ?a"
    using assms(3) n u by (auto simp: core_def repr_blocks_def repr_incl_def update_simps signed_at_Some Let_def)
  then show ?thesis using assms(3) added(3) n by (simp add: core_def gomap_simps key_simps Let_def)
qed

lemma setOwnBlock_core:
  assumes "store_setOwnBlock c b r g s = Ok s'" "codec_ok c" "core c s a"
  shows "core c s' (abs_op (SetOwnBlock b r g) a)"
  using assms(1)
proof (cases rule: setOwnBlock_cases)
  case (1 val rv)
  define m where "m = map_of (bs_db s)"
  define m' where "m' = map_of (bs_db s')"
  note m'_eq = 1(5) [folded m_def m'_def]
  have u: "uSigned c val = Some b" "uSigned c rv = Some r" using 1(1,2) assms(2) by (simp_all add: codec_ok_def)
  have at: "m' (blockPrefix # k) = (if k = encodeBlockID (bg_Block g) then Some val else m (blockPrefix # k))"
    "m' (includedPrefix # encodeBlockID i) = (if i \<in> dep_Block ` set (bg_Deps g) then Some [1] else m (includedPrefix # encodeBlockID i))"
    "m' (notIncludedPrefix # k) = (if k \<in> (\<lambda>d. encodeBlockID (dep_Block d)) ` set (bg_Deps g) then None else m (notIncludedPrefix # k))"
    "m' (ownBlockPrefix # Encode n) = (if n = Round (bg_Block g) then Some val else m (ownBlockPrefix # Encode n))"
    "m' [lastBlockRefPrefix] = Some rv" "m' [lastHashPrefix] = Some (Hash (bg_Block g))"
    "m' [lastRoundPrefix] = Some (PutUint64 (Round (bg_Block g)))" for k i n
    by (simp_all add: m'_eq update_simps image_iff)
  have r: "repr_blocks c m a" "repr_incl m a" using assms(3) by (simp_all add: core_def m_def Let_def)
  have "repr_blocks c m' (abs_op (SetOwnBlock b r g) a)"
    using r(1) u by (simp add: repr_blocks_def at key_simps encodeBlockID_inj lex.enc_inj signed_at_Some domIff)
  moreover have "repr_incl m' (abs_op (SetOwnBlock b r g) a)"
    using r(2) by (auto simp: repr_incl_def at key_simps encodeBlockID_inj domIff image_iff)
  ultimately show ?thesis
    using assms(3) 1(3,4) u(2) by (simp add: core_def m'_def [symmetric] at last_at_def signed_at_Some)
qed

lemma core_put:
  assumes "core c s a" "t \<notin> {blockPrefix, includedPrefix, notIncludedPrefix, ownBlockPrefix, lastHashPrefix, lastRoundPrefix, lastBlockRefPrefix}"
  shows "core c (s\<lparr>bs_db := mput (t # k) v (bs_db s)\<rparr>) a"
  using assms by (simp add: core_def repr_blocks_def repr_incl_def map_of_mput domIff key_simps Let_def)

lemma other_core:
  assumes "core c s a"
  shows "setInterpreted x s = Ok s' \<Longrightarrow> core c s' a" "setDeliverAcknowledged q s = Ok s' \<Longrightarrow> core c s' a"
    "setReceivedMap rm s = Ok s' \<Longrightarrow> core c s' a" "setSentMap sm s = Ok s' \<Longrightarrow> core c s' a"
  using core_put [OF assms] core_put [OF core_put [OF assms]]
  by (auto dest!: other_updates simp: key_simps)

lemma setBlock_sim:
  assumes "store_setBlock c i b s = Ok s'" "codec_ok c" "repr c s a"
  shows "repr c s' (abs_op (SetBlock i b) a)"
  using assms(1)
proof (cases rule: setBlock_cases)
  case (known v)
  with assms(3) show ?thesis by (auto simp: repr_def repr_incl_def Let_def)
next
  case (added val)
  define m where "m = map_of (bs_db s)"
  have u: "uSigned c val = Some b" using added(2) assms(2) by (simp add: codec_ok_def)
  note r = reprD [OF assms(3) m_def]
  have n: "a_incl a i = None" using added(1) r(2) by (simp add: repr_incl_def m_def)
  let ?m = "m(includedKey i \<mapsto> [0], notIncludedKey i \<mapsto> [], blockKey i \<mapsto> val)" and ?a = "abs_op (SetBlock i b) a"
  have "repr_blocks c ?m ?a"
    using r(1) n u by (simp add: repr_blocks_def update_simps signed_at_Some)
  moreover have "repr_incl ?m ?a"
    using r(2) n by (auto simp: repr_incl_def update_simps)
  moreover have "repr_graphs c ?m ?a" "repr_progress ?m ?a" "repr_maps ?m ?a"
    using r(3-5) n by (simp_all add: repr_graphs_def repr_progress_def repr_maps_def update_simps)
  ultimately show ?thesis
    using assms(3) added(3) by (simp add: repr_def m_def gomap_simps)
qed

lemma setOwnBlock_sim:
  assumes "store_setOwnBlock c b r g s = Ok s'" "graph_fits g" "codec_ok c" "repr c s a"
  shows "repr c s' (abs_op (SetOwnBlock b r g) a)"
  using assms(1)
proof (cases rule: setOwnBlock_cases)
  case (1 val rv)
  define m where "m = map_of (bs_db s)"
  define m' where "m' = map_of (bs_db s')"
  note rs = reprD [OF assms(4) m_def] and m'_eq = 1(5) [folded m_def m'_def]
  let ?a = "abs_op (SetOwnBlock b r g) a"
  have u: "uSigned c val = Some b" "uSigned c rv = Some r" using 1(1,2) assms(3) by (simp_all add: codec_ok_def)
  have at: "m' (blockPrefix # k) = (if k = encodeBlockID (bg_Block g) then Some val else m (blockPrefix # k))"
    "m' (blockGraphPrefix # k) = (if k = encodeBlockID (bg_Block g) then Some (encodeBlockGraph g) else m (blockGraphPrefix # k))"
    "m' (includedPrefix # encodeBlockID i) = (if i \<in> dep_Block ` set (bg_Deps g) then Some [1] else m (includedPrefix # encodeBlockID i))"
    "m' (notIncludedPrefix # k) = (if k \<in> (\<lambda>d. encodeBlockID (dep_Block d)) ` set (bg_Deps g) then None else m (notIncludedPrefix # k))"
    "m' (ownBlockPrefix # Encode n) = (if n = Round (bg_Block g) then Some val else m (ownBlockPrefix # Encode n))"
    "m' [lastBlockRefPrefix] = Some rv" "m' [lastHashPrefix] = Some (Hash (bg_Block g))"
    "m' [lastRoundPrefix] = Some (PutUint64 (Round (bg_Block g)))" "m' (interpretedPrefix # k) = m (interpretedPrefix # k)"
    "m' [lastInterpretedPrefix] = m [lastInterpretedPrefix]" "m' [receivedMapPrefix] = m [receivedMapPrefix]"
    "m' [roundAcknowledgedPrefix] = m [roundAcknowledgedPrefix]" "m' [sentMapPrefix] = m [sentMapPrefix]" for k i n
    by (simp_all add: m'_eq update_simps image_iff)
  have "repr_blocks c m' ?a"
    using rs(1) u by (simp add: repr_blocks_def at key_simps encodeBlockID_inj lex.enc_inj signed_at_Some domIff)
  moreover have "repr_incl m' ?a"
    using rs(2) by (auto simp: repr_incl_def at key_simps encodeBlockID_inj domIff image_iff)
  moreover have "repr_graphs c m' ?a"
    using rs(3) u assms(2) by (simp add: repr_graphs_def at key_simps encodeBlockID_inj last_at_def signed_at_Some domIff)
  moreover have "repr_progress m' ?a" "repr_maps m' ?a"
    using rs(4,5) by (simp_all add: at repr_progress_def repr_maps_def key_simps)
  ultimately show ?thesis
    using assms(4) 1(3,4) by (simp add: repr_def m'_def)
qed

lemma setInterpreted_sim:
  assumes "setInterpreted x s = Ok s'" "op_fits (SetInterpreted x)" "repr c s a"
  shows "repr c s' (abs_op (SetInterpreted x) a)"
proof -
  define m where "m = map_of (bs_db s)"
  note r = reprD [OF assms(3) m_def] and s' = other_updates(1) [OF assms(1)]
  let ?m = "m(interpretedKey (in_Round x) \<mapsto> enc_interpreted (in_Blocks x),
    [lastInterpretedPrefix] \<mapsto> PutUint64 (in_Round x) @ PutUint64 (in_Consumed x))" and ?a = "abs_op (SetInterpreted x) a"
  have "repr_blocks c ?m ?a" "repr_incl ?m ?a" "repr_graphs c ?m ?a" "repr_progress ?m ?a" "repr_maps ?m ?a"
    using r assms(2) by (simp_all add: repr_blocks_def repr_incl_def repr_graphs_def repr_progress_def repr_maps_def update_simps)
  with assms(3) show ?thesis by (simp add: s' repr_def m_def gomap_simps)
qed

lemma setDeliverAcknowledged_sim:
  assumes "setDeliverAcknowledged r s = Ok s'" "repr c s a"
  shows "repr c s' (abs_op (SetAcknowledged r) a)"
proof -
  define m where "m = map_of (bs_db s)"
  note rs = reprD [OF assms(2) m_def] and s' = other_updates(2) [OF assms(1)]
  let ?m = "m([roundAcknowledgedPrefix] \<mapsto> PutUint64 r)" and ?a = "abs_op (SetAcknowledged r) a"
  have "repr_blocks c ?m ?a" "repr_incl ?m ?a" "repr_graphs c ?m ?a" "repr_progress ?m ?a" "repr_maps ?m ?a"
    using rs by (simp_all add: repr_blocks_def repr_incl_def repr_graphs_def repr_progress_def repr_maps_def update_simps)
  with assms(2) show ?thesis by (simp add: s' repr_def m_def gomap_simps)
qed

lemma setReceivedMap_sim:
  assumes "setReceivedMap l s = Ok s'" "op_fits (SetReceivedMap l)" "repr c s a"
  shows "repr c s' (abs_op (SetReceivedMap l) a)"
proof -
  define m where "m = map_of (bs_db s)"
  note r = reprD [OF assms(3) m_def] and s' = other_updates(3) [OF assms(1)]
  let ?m = "m([receivedMapPrefix] \<mapsto> enc_received l)" and ?a = "abs_op (SetReceivedMap l) a"
  have "map_at enc_received (Some (enc_received l)) (Some (map_of l))" using assms(2) by (auto simp: map_at_def)
  then have "repr_blocks c ?m ?a" "repr_incl ?m ?a" "repr_graphs c ?m ?a" "repr_progress ?m ?a" "repr_maps ?m ?a"
    using r by (simp_all add: repr_blocks_def repr_incl_def repr_graphs_def repr_progress_def repr_maps_def update_simps)
  with assms(3) show ?thesis by (simp add: s' repr_def m_def gomap_simps)
qed

lemma setSentMap_sim:
  assumes "setSentMap l s = Ok s'" "op_fits (SetSentMap l)" "repr c s a"
  shows "repr c s' (abs_op (SetSentMap l) a)"
proof -
  define m where "m = map_of (bs_db s)"
  note r = reprD [OF assms(3) m_def] and s' = other_updates(4) [OF assms(1)]
  let ?m = "m([sentMapPrefix] \<mapsto> enc_sent l)" and ?a = "abs_op (SetSentMap l) a"
  have "map_at enc_sent (Some (enc_sent l)) (Some (map_of l))" using assms(2) by (auto simp: map_at_def)
  then have "repr_blocks c ?m ?a" "repr_incl ?m ?a" "repr_graphs c ?m ?a" "repr_progress ?m ?a" "repr_maps ?m ?a"
    using r by (simp_all add: repr_blocks_def repr_incl_def repr_graphs_def repr_progress_def repr_maps_def update_simps)
  with assms(3) show ?thesis by (simp add: s' repr_def m_def gomap_simps)
qed

lemma run_op_sim:
  assumes "run_op c x s = Ok s'" "op_fits x" "codec_ok c" "repr c s a"
  shows "repr c s' (abs_op x a)"
  using assms by (cases x) (auto simp del: abs_op.simps intro: setBlock_sim setOwnBlock_sim setInterpreted_sim setDeliverAcknowledged_sim setReceivedMap_sim setSentMap_sim)

text \<open>Forward simulation of a sequence of operations by abstract ones.\<close>

locale op_simulation =
  fixes R :: "'s \<Rightarrow> 'a \<Rightarrow> bool" and step :: "'o \<Rightarrow> 's \<Rightarrow> ('e, 's) outcome" and astep :: "'o \<Rightarrow> 'a \<Rightarrow> 'a"
    and ok :: "'o \<Rightarrow> bool"
  assumes step_sim: "R s a \<Longrightarrow> ok x \<Longrightarrow> step x s = Ok s' \<Longrightarrow> R s' (astep x a)"
begin

lemma run_sim: "ofold step xs s = Ok s' \<Longrightarrow> list_all ok xs \<Longrightarrow> R s a \<Longrightarrow> R s' (fold astep xs a)"
  by (induction xs arbitrary: s a) (auto simp: outcome_simps dest: step_sim)

end

interpretation bstore_sim: op_simulation "\<lambda>s a. codec_ok c \<and> repr c s a" "run_op c" abs_op op_fits for c
  by unfold_locales (auto intro: run_op_sim)

definition new_bstore :: bstore where
  "new_bstore = \<lparr>bs_closed = False, bs_db = []\<rparr>"

lemma new_repr: "repr c new_bstore a_empty"
  by (simp add: repr_def new_bstore_def a_empty_def repr_blocks_def repr_incl_def repr_graphs_def repr_progress_def
      repr_maps_def signed_at_def last_at_def map_at_def)

lemma run_repr:
  assumes "codec_ok c" "list_all op_fits ops" "ofold (run_op c) ops new_bstore = Ok s"
  shows "repr c s (fold abs_op ops a_empty)"
  using bstore_sim.run_sim [OF assms(3,2)] new_repr assms(1) by blast

text \<open>Updates of an open store succeed when the messages can be encoded.\<close>

fun op_marshals :: "bcodec \<Rightarrow> store_op \<Rightarrow> bool" where
  "op_marshals c (SetBlock i b) = (mSigned c b \<noteq> None)"
| "op_marshals c (SetOwnBlock b r g) = (mSigned c b \<noteq> None \<and> mSigned c r \<noteq> None)"
| "op_marshals c _ = True"

lemma setOwnBlock_ok:
  assumes "\<not> bs_closed s" "mSigned c b = Some val" "mSigned c r = Some rv"
  shows "\<exists>s'. store_setOwnBlock c b r g s = Ok s' \<and> \<not> bs_closed s'"
proof -
  let ?d = "mput [lastRoundPrefix] (PutUint64 (Round (bg_Block g))) (mput [lastHashPrefix] (Hash (bg_Block g))
    (mput (blockGraphKey (bg_Block g)) (encodeBlockGraph g) (mput [lastBlockRefPrefix] rv (mput (blockKey (bg_Block g)) val (bs_db s)))))"
  let ?inc = "map (\<lambda>d. includedKey (dep_Block d)) (bg_Deps g)" and ?not = "map (\<lambda>d. notIncludedKey (dep_Block d)) (bg_Deps g)"
  obtain d6 where d6: "ofold (\<lambda>k. txn_Set k [1]) ?inc ?d = Ok d6"
    by (rule ofold_Set [of ?inc "[1]" ?d]) (simp_all add: list_all_iff key_simps)
  obtain d7 where d7: "ofold txn_Delete ?not d6 = Ok d7"
    by (rule ofold_Delete [of ?not d6]) (simp_all add: list_all_iff key_simps)
  show ?thesis
    using assms d6 d7 by (simp add: store_setOwnBlock_def view_def marshal_def update_def key_simps db_simps)
qed

lemma run_op_ok: "op_marshals c x \<Longrightarrow> \<not> bs_closed s \<Longrightarrow> \<exists>s'. run_op c x s = Ok s' \<and> \<not> bs_closed s'"
proof (cases x)
  case (SetBlock i b)
  assume "op_marshals c x" "\<not> bs_closed s"
  with SetBlock show ?thesis
    by (cases "map_of (bs_db s) (includedKey i)")
      (auto simp: store_setBlock_def view_def update_def marshal_def key_simps db_simps)
qed (auto simp: setInterpreted_def setDeliverAcknowledged_def setReceivedMap_def setSentMap_def view_def update_def key_simps db_simps
    intro: setOwnBlock_ok)

lemma run_ops_ok: "list_all (op_marshals c) ops \<Longrightarrow> \<not> bs_closed s \<Longrightarrow> \<exists>s'. ofold (run_op c) ops s = Ok s'"
proof (induction ops arbitrary: s)
  case (Cons x ops)
  from Cons.prems obtain s1 where "run_op c x s = Ok s1" "\<not> bs_closed s1" using run_op_ok [of c x s] by auto
  with Cons show ?case by simp
qed simp

text \<open>An encoding that satisfies the law, for messages of up to 255 bytes.\<close>

definition demo_codec :: bcodec where
  "demo_codec = \<lparr>mSigned = (\<lambda>x. if length (sd_Data x) < 256 then Some (of_nat (length (sd_Data x)) # sd_Data x @ sd_Signature x) else None),
     uSigned = (\<lambda>b. case b of [] \<Rightarrow> None | n # r \<Rightarrow> Some \<lparr>sd_Data = take (unat n) r, sd_Signature = drop (unat n) r\<rparr>),
     mBlock = (\<lambda>b. Some []), uBlock = (\<lambda>d. if length d < 2 then None else
       Some \<lparr>bl_Node = ucast (d ! 0), bl_Previous = None, bl_References = [], bl_Round = ucast (d ! 1), bl_Transactions = None\<rparr>),
     mRef = (\<lambda>r. Some (br_Hash r)), uRef = (\<lambda>d. None), csha = (\<lambda>d. d)\<rparr>"

lemma demo_codec_ok: "codec_ok demo_codec"
  by (auto simp: codec_ok_def demo_codec_def unat_of_nat_small split: if_splits)

section \<open>Readers\<close>

definition found :: "'a option \<Rightarrow> 'a bs_op" where
  "found x = (case x of None \<Rightarrow> Err (BsBadger ErrKeyNotFound) | Some y \<Rightarrow> Ok y)"

lemma get_signed_at:
  assumes "signed_at c (map_of d (t # k)) x"
  shows "get_signed c d (t # k) = found x"
  using assms by (cases x) (auto simp: signed_at_def get_signed_def db_get_def db_simps found_def)

lemma getBlock_abs:
  assumes "core c s a"
  shows "getBlock c i s = found (a_blocks a i)" "getOwnBlock c r s = found (a_own a r)"
proof -
  have o: "\<not> bs_closed s" using assms by (simp add: core_def)
  from assms have "repr_blocks c (map_of (bs_db s)) a" by (simp add: core_def Let_def)
  then show "getBlock c i s = found (a_blocks a i)" "getOwnBlock c r s = found (a_own a r)"
    by (simp_all add: getBlock_def getOwnBlock_def view_def o repr_blocks_def key_simps get_signed_at)
qed

lemma isIncluded_abs:
  assumes "core c s a"
  shows "store_isIncluded i s = Ok (a_incl a i = Some True)"
proof -
  have o: "\<not> bs_closed s" using assms by (simp add: core_def)
  from assms have "repr_incl (map_of (bs_db s)) a" by (simp add: core_def Let_def)
  then show ?thesis
    by (cases "a_incl a i") (auto simp: store_isIncluded_def view_def o repr_incl_def key_simps db_simps)
qed

lemma get_u64_put [simp]: "get_u64 (PutUint64 v @ d) = Ok (v, d)" "get_u64 (PutUint64 v) = Ok (v, [])"
  by (simp_all add: get_u64_def slice_def le_simps)

lemma int_len_of_nat: "n < 2 ^ 63 \<Longrightarrow> int_len (of_nat n) = n"
proof -
  assume n: "n < 2 ^ 63"
  have "sint (word_of_int (int n) :: u64) = int n" using n by (simp only: int_word_sint) simp
  then show ?thesis by (simp add: int_len_def)
qed

lemma getLast_abs:
  assumes "core c s a"
  shows "getLastRoundData c s = found (a_last a)"
proof -
  have o: "\<not> bs_closed s" using assms by (simp add: core_def)
  from assms have l: "last_at c (map_of (bs_db s) [lastHashPrefix]) (map_of (bs_db s) [lastRoundPrefix])
    (map_of (bs_db s) [lastBlockRefPrefix]) (a_last a)" by (simp add: core_def Let_def)
  show ?thesis
  proof (cases "a_last a")
    case None
    with l o show ?thesis by (simp add: getLastRoundData_def view_def db_get_def db_simps last_at_def found_def)
  next
    case (Some t)
    with l o show ?thesis
      by (cases t) (auto simp: getLastRoundData_def view_def db_get_def db_simps last_at_def found_def get_signed_at le_simps)
  qed
qed

lemma getProgress_abs:
  assumes "repr c s a"
  shows "getLastInterpreted s = found (a_lastInterp a)" "getDeliverAcknowledged s = found (a_ack a)"
proof -
  have o: "\<not> bs_closed s" using assms by (simp add: repr_def)
  from reprD(4) [OF assms refl] o show "getLastInterpreted s = found (a_lastInterp a)" "getDeliverAcknowledged s = found (a_ack a)"
    by (auto simp: getLastInterpreted_def getDeliverAcknowledged_def view_def db_get_def db_simps repr_progress_def found_def
        le_simps split: option.split)
qed

lemma read_received_enc:
  "read_received (length l) (concat (map (\<lambda>(k, v). PutUint64 k @ PutUint64 (latest v) @ PutUint64 (sequence v)) l)) acc =
     Ok (fold (\<lambda>(k, v). mput k v) l acc)"
proof (induction l arbitrary: acc)
  case (Cons x l)
  obtain k p q where "x = (k, \<lparr>latest = p, sequence = q\<rparr>)" by (metis receivedInfo.cases surj_pair)
  then show ?case using Cons by simp
qed simp

lemma read_sent_enc:
  "read_sent (length l) (concat (map (\<lambda>(k, v). PutUint64 k @ PutUint64 v) l)) acc = Ok (fold (\<lambda>(k, v). mput k v) l acc)"
  by (induction l arbitrary: acc) auto

lemma map_of_fold_mput:
  "distinct (map fst l) \<Longrightarrow> map_of (fold (\<lambda>(k, v). mput k v) l acc) k = (case map_of l k of None \<Rightarrow> map_of acc k | Some v \<Rightarrow> Some v)"
proof (induction l arbitrary: acc)
  case (Cons x l)
  obtain k' v where "x = (k', v)" by (cases x)
  moreover from this Cons.prems have "map_of l k' = None" by (simp add: map_of_eq_None_iff)
  ultimately show ?case using Cons by (cases "k = k'") (auto simp: gomap_simps split: option.split)
qed simp

lemma getMaps_abs:
  assumes "repr c s a"
  shows "omap map_of (getReceivedMap s) = found (a_recv a)" "omap map_of (getSentMap s) = found (a_sent a)"
proof -
  have o: "\<not> bs_closed s" using assms by (simp add: repr_def)
  note r = reprD(5) [OF assms refl, unfolded repr_maps_def]
  have m: "map_of (fold (\<lambda>(k, v). mput k v) l []) = map_of l" if "mwf l" for l :: "(u64, 'v) gomap"
    using that by (auto simp: fun_eq_iff map_of_fold_mput split: option.split)
  show "omap map_of (getReceivedMap s) = found (a_recv a)"
  proof (cases "a_recv a")
    case (Some f)
    with r obtain l where l: "f = map_of l" "mwf l" "length l < 2 ^ 63" "map_of (bs_db s) [receivedMapPrefix] = Some (enc_received l)"
      by (auto simp: map_at_def)
    with Some show ?thesis
      by (simp add: read_received_enc getReceivedMap_def view_def o db_get_def db_simps enc_received_def found_def int_len_of_nat m)
  qed (use r o in \<open>simp add: getReceivedMap_def view_def db_get_def db_simps found_def map_at_def\<close>)
  show "omap map_of (getSentMap s) = found (a_sent a)"
  proof (cases "a_sent a")
    case (Some f)
    with r obtain l where l: "f = map_of l" "mwf l" "length l < 2 ^ 63" "map_of (bs_db s) [sentMapPrefix] = Some (enc_sent l)"
      by (auto simp: map_at_def)
    with Some show ?thesis
      by (simp add: read_sent_enc getSentMap_def view_def o db_get_def db_simps enc_sent_def found_def int_len_of_nat m)
  qed (use r o in \<open>simp add: getSentMap_def view_def db_get_def db_simps found_def map_at_def\<close>)
qed

lemma read_keys_enc:
  assumes "list_all (\<lambda>i. length (blockKey i) < 2 ^ 16) ids"
  shows "read_keys (length ids) c d (concat (map (\<lambda>i. PutUint16 (of_nat (length (blockKey i))) @ blockKey i) ids)) =
     omaps (\<lambda>i. get_signed c d (blockKey i)) ids"
  using assms
proof (induction ids)
  case (Cons i ids)
  then have "unat (of_nat (length (blockKey i)) :: u16) = length (blockKey i)"
    by (intro unat_of_nat_small) simp
  with Cons show ?case by (simp add: slice_def le_simps)
qed simp

lemma getInterpreted_abs:
  assumes "repr c s a"
  shows "getInterpreted c r s = obind (found (a_interp a r)) (omaps (\<lambda>i. found (a_blocks a i)))"
proof (cases "a_interp a r")
  case None
  with assms reprD(4) [OF assms refl] show ?thesis
    by (simp add: getInterpreted_def view_def db_get_def db_simps key_simps found_def repr_def repr_progress_def)
next
  case (Some ids)
  have o: "\<not> bs_closed s" using assms by (simp add: repr_def)
  from reprD(4) [OF assms refl] Some have l: "map_of (bs_db s) (interpretedKey r) = Some (enc_interpreted ids)" "length ids < 2 ^ 63"
    "list_all (\<lambda>i. length (blockKey i) < 2 ^ 16) ids"
    by (auto simp: repr_progress_def)
  have "get_signed c (bs_db s) (blockKey i) = found (a_blocks a i)" for i
    using getBlock_abs(1) [OF repr_core [OF assms]] by (simp add: getBlock_def view_def o)
  with l(1) Some show ?thesis
    by (simp add: getInterpreted_def view_def o db_get_def txn_Get_def interpretedKey_def enc_interpreted_def found_def
        read_keys_enc [OF l(3)] int_len_of_nat [OF l(2)])
qed

end
