(* ===== verification/BcQueries.thy ===== *)
theory BcQueries
  imports BcRefine
begin

text \<open>
  The readers of \<open>broadcast/store.go\<close> that iterate: unincluded blocks, block graphs from a round
  on, and the rounds of a node that are missing. The keys sort by node, round and hash, so an
  iteration from a start key over a prefix visits the blocks of one node by ascending rounds.
\<close>

section \<open>Iterating over blocks\<close>

definition id_less :: "BlockID \<Rightarrow> BlockID \<Rightarrow> bool" where
  "id_less i j = (encodeBlockID i < encodeBlockID j)"

lemma id_less_distinct: "sorted_wrt id_less is \<Longrightarrow> distinct is"
  by (induction "is") (auto simp: id_less_def)

lemma iter_ids:
  assumes wf: "mwf d" and keys: "\<forall>k. p # k \<in> dom (map_of d) \<longrightarrow> (\<exists>i. k = encodeBlockID i)"
    and q: "q \<le> t"
  obtains "is" where
    "takeWhile (\<lambda>e. has_prefix (p # q) (fst e)) (iter_from (p # t) d) =
       map (\<lambda>i. (p # encodeBlockID i, the (map_of d (p # encodeBlockID i)))) is"
    "sorted_wrt id_less is"
    "set is = {i. has_prefix q (encodeBlockID i) \<and> t \<le> encodeBlockID i \<and> p # encodeBlockID i \<in> dom (map_of d)}"
proof -
  define es where "es = filter (\<lambda>e. has_prefix (p # q) (fst e)) (iter_from (p # t) d)"
  have tw: "takeWhile (\<lambda>e. has_prefix (p # q) (fst e)) (iter_from (p # t) d) = es"
    unfolding es_def
  proof (rule takeWhile_convex [OF iter_from_sorted], intro ballI)
    fix e assume "e \<in> set (iter_from (p # t) d)"
    then have "p # t \<le> fst e" by (simp add: iter_from_set)
    moreover have "p # q \<le> p # t" using q by (simp add: Cons_le_Cons)
    ultimately show "p # q \<le> fst e" by (rule order_trans [rotated])
  qed
  have set_es: "set es = {e \<in> set d. p # t \<le> fst e \<and> has_prefix (p # q) (fst e)}"
    by (auto simp: es_def iter_from_set)
  have ex: "\<exists>i. fst e = p # encodeBlockID i" if "e \<in> set es" for e
  proof -
    from that obtain k where k: "fst e = p # k" and "e \<in> set d" by (auto simp: set_es)
    then have "(p # k, snd e) \<in> set d" by (metis prod.collapse)
    with wf have "map_of d (p # k) = Some (snd e)" by (rule map_of_is_SomeI)
    then have "p # k \<in> dom (map_of d)" by (rule domI)
    with keys k show ?thesis by auto
  qed
  then obtain f where f: "fst e = p # encodeBlockID (f e)" if "e \<in> set es" for e by metis
  have val: "map_of d (fst e) = Some (snd e)" if "e \<in> set es" for e
    using that wf map_of_is_SomeI [of d "fst e" "snd e"] by (simp add: set_es)
  have pt: "(p # encodeBlockID (f e), the (map_of d (p # encodeBlockID (f e)))) = e" if "e \<in> set es" for e
    using val [OF that] unfolding f [OF that, symmetric] by (simp add: prod_eq_iff)
  have "sorted (map fst es)" "distinct (map fst es)"
    using iter_from_sorted iter_from_distinct [OF wf] by (auto simp: es_def sorted_filter distinct_map_filter)
  then have srt: "sorted_wrt (<) (map fst es)" by (simp add: strict_sorted_iff)
  show thesis
  proof (rule that [of "map f es"])
    show "takeWhile (\<lambda>e. has_prefix (p # q) (fst e)) (iter_from (p # t) d) =
       map (\<lambda>i. (p # encodeBlockID i, the (map_of d (p # encodeBlockID i)))) (map f es)"
      unfolding tw map_map by (rule sym, rule map_idI) (simp add: pt)
    have "sorted_wrt (\<lambda>e e'. fst e < fst e') es" using srt by (simp add: sorted_wrt_map)
    then have "sorted_wrt (\<lambda>e e'. id_less (f e) (f e')) es"
      by (rule sorted_wrt_mono_rel [rotated]) (simp add: id_less_def f)
    then show "sorted_wrt id_less (map f es)" by (simp add: sorted_wrt_map)
    show "set (map f es) = {i. has_prefix q (encodeBlockID i) \<and> t \<le> encodeBlockID i \<and> p # encodeBlockID i \<in> dom (map_of d)}"
    proof (intro equalityI subsetI)
      fix i assume "i \<in> set (map f es)"
      then obtain e where e: "e \<in> set es" "i = f e" by auto
      with f [OF e(1)] show "i \<in> {i. has_prefix q (encodeBlockID i) \<and> t \<le> encodeBlockID i \<and> p # encodeBlockID i \<in> dom (map_of d)}"
        using val [OF e(1)] e(1) by (auto simp: set_es)
    next
      fix i assume i: "i \<in> {i. has_prefix q (encodeBlockID i) \<and> t \<le> encodeBlockID i \<and> p # encodeBlockID i \<in> dom (map_of d)}"
      then obtain v where "(p # encodeBlockID i, v) \<in> set d" by (auto dest: map_of_SomeD)
      with i have e: "(p # encodeBlockID i, v) \<in> set es" by (simp add: set_es)
      from f [OF e] have "f (p # encodeBlockID i, v) = i" by (simp add: encodeBlockID_inj)
      with e show "i \<in> set (map f es)" by force
    qed
  qed
qed

lemma has_prefix_append: "has_prefix p (p @ k)"
  by (simp add: has_prefix_def)

lemma has_prefix_iff: "has_prefix p k \<longleftrightarrow> (\<exists>k'. k = p @ k')"
  by (metis append_take_drop_id has_prefix_append has_prefix_def)

lemma node_prefix: "has_prefix (Encode n @ [0]) (encodeBlockID i) \<longleftrightarrow> Node i = n"
  by (auto simp: has_prefix_iff encodeBlockID_def lex.enc_field_eq)

lemma zero_free_le: "0 \<notin> set x \<Longrightarrow> x \<le> y @ 0 # h \<longleftrightarrow> x \<le> y" for x y :: bytes
proof (induction x arbitrary: y)
  case (Cons a x)
  then show ?case by (cases y) (auto simp: word_le_0_iff)
qed simp

lemma list_le_append_same: "xs @ a \<le> xs @ b \<longleftrightarrow> a \<le> b" for xs :: bytes
  by (simp add: linorder_not_less [symmetric] list_less_append_same)

lemma round_start: "Node i = n \<Longrightarrow> Encode n @ 0 # Encode r \<le> encodeBlockID i \<longleftrightarrow> r \<le> Round i"
proof -
  assume "Node i = n"
  moreover have "Encode r \<le> Encode (Round i) @ 0 # Hash i \<longleftrightarrow> r \<le> Round i"
    by (simp add: zero_free_le lex.enc_nonzero) (metis lex.enc_less_iff not_le)
  ultimately show ?thesis
    by (simp add: encodeBlockID_def list_le_append_same Cons_le_Cons)
qed

lemma id_less_round: "id_less i j \<Longrightarrow> Node i = Node j \<Longrightarrow> Round i \<le> Round j"
  by (auto simp: id_less_def encodeBlockID_less)

lemma iter_node:
  assumes wf: "mwf d" and keys: "\<forall>k. p # k \<in> dom (map_of d) \<longrightarrow> (\<exists>i. k = encodeBlockID i)"
  obtains "is" where
    "takeWhile (\<lambda>e. has_prefix (p # Encode n @ [0]) (fst e)) (iter_from (p # Encode n @ 0 # Encode r) d) =
       map (\<lambda>i. (p # encodeBlockID i, the (map_of d (p # encodeBlockID i)))) is"
    "sorted_wrt id_less is" "sorted_wrt (\<le>) (map Round is)"
    "set is = {i. Node i = n \<and> r \<le> Round i \<and> p # encodeBlockID i \<in> dom (map_of d)}"
proof (rule iter_ids [OF wf keys, of "Encode n @ [0]" "Encode n @ 0 # Encode r"])
  show "Encode n @ [0] \<le> Encode n @ 0 # Encode r" by (rule prefix_le) (simp add: has_prefix_def)
next
  fix "is"
  assume tw: "takeWhile (\<lambda>e. has_prefix (p # Encode n @ [0]) (fst e)) (iter_from (p # Encode n @ 0 # Encode r) d) =
       map (\<lambda>i. (p # encodeBlockID i, the (map_of d (p # encodeBlockID i)))) is"
    and s: "sorted_wrt id_less is"
    and "set is = {i. has_prefix (Encode n @ [0]) (encodeBlockID i) \<and> Encode n @ 0 # Encode r \<le> encodeBlockID i \<and>
       p # encodeBlockID i \<in> dom (map_of d)}"
  then have set: "set is = {i. Node i = n \<and> r \<le> Round i \<and> p # encodeBlockID i \<in> dom (map_of d)}"
    by (auto simp: node_prefix round_start)
  have "sorted_wrt (\<lambda>i j. Round i \<le> Round j) is"
    by (rule sorted_wrt_mono_rel [OF _ s]) (use set in \<open>auto intro: id_less_round\<close>)
  then show thesis using that [OF tw s _ set] by (simp add: sorted_wrt_map)
qed

section \<open>Unincluded blocks\<close>

lemma omaps_map: "omaps f (map g xs) = omaps (\<lambda>x. f (g x)) xs"
  by (induction xs) auto

lemma omaps_Ok: "(\<And>x. x \<in> set xs \<Longrightarrow> f x = Ok (g x)) \<Longrightarrow> omaps f xs = Ok (map g xs)"
  by (induction xs) auto

lemma getNotIncluded_abs:
  assumes "core c s a"
  obtains ids where "set ids = {i. a_incl a i = Some False}" "sorted_wrt id_less ids"
    "getNotIncluded c s = omaps (\<lambda>i. getBlockData c (the (a_blocks a i))) ids"
proof -
  have o: "\<not> bs_closed s" and wf: "mwf (bs_db s)" using assms by (simp_all add: core_def)
  have ri: "repr_incl (map_of (bs_db s)) a" using assms by (simp add: core_def Let_def)
  obtain ids where ids: "takeWhile (\<lambda>e. has_prefix [notIncludedPrefix] (fst e)) (iter_from [notIncludedPrefix] (bs_db s)) =
      map (\<lambda>i. (notIncludedPrefix # encodeBlockID i, the (map_of (bs_db s) (notIncludedPrefix # encodeBlockID i)))) ids"
    "sorted_wrt id_less ids"
    "set ids = {i. has_prefix [] (encodeBlockID i) \<and> [] \<le> encodeBlockID i \<and> notIncludedPrefix # encodeBlockID i \<in> dom (map_of (bs_db s))}"
    by (rule iter_ids [OF wf, of notIncludedPrefix "[]" "[]"]) (use ri in \<open>simp_all add: repr_incl_def\<close>)
  have "set ids = {i. a_incl a i = Some False}"
    using ids(3) ri by (auto simp: repr_incl_def key_simps domIff)
  moreover from this have "get_signed c (bs_db s) (blockPrefix # encodeBlockID i) = Ok (the (a_blocks a i))" if "i \<in> set ids" for i
    using that ri getBlock_abs(1) [OF assms, of i] by (auto simp: repr_incl_def getBlock_def view_def o key_simps found_def)
  then have "omaps (\<lambda>e. get_signed c (bs_db s) (blockPrefix # drop 1 (fst e)))
      (map (\<lambda>i. (notIncludedPrefix # encodeBlockID i, the (map_of (bs_db s) (notIncludedPrefix # encodeBlockID i)))) ids) =
      Ok (map (\<lambda>i. the (a_blocks a i)) ids)"
    by (simp add: omaps_map) (intro omaps_Ok)
  then have "getNotIncluded c s = omaps (\<lambda>i. getBlockData c (the (a_blocks a i))) ids"
    by (simp only: getNotIncluded_def view_def o Let_def ids(1) if_False obind.simps omaps_map)
  ultimately show thesis using that ids(2) by blast
qed

section \<open>Graphs from a round on\<close>

lemma graphs_loop_takeWhile:
  "graphs_loop pfx limit es acc = graphs_loop pfx limit (takeWhile (\<lambda>e. has_prefix pfx (fst e)) es) acc"
  by (induction es arbitrary: acc) (auto cong: if_cong)

lemma graphs_loop_all:
  assumes "\<And>i. i \<in> set ids \<Longrightarrow> has_prefix pfx (t # encodeBlockID i) \<and> bg_Block (G i) = i \<and> graph_fits (G i)"
  shows "graphs_loop pfx limit (map (\<lambda>i. (t # encodeBlockID i, encodeBlockGraph (G i))) ids) acc =
     Ok (acc @ (if int (length acc) < limit then take (nat (limit - int (length acc))) (map G ids) else map G ids))"
  using assms
proof (induction ids arbitrary: acc)
  case (Cons i ids)
  have d: "decode_graph i (encodeBlockGraph (G i)) = Ok (G i)"
    using Cons.prems [of i] decode_encode_graph [of "G i"] by simp
  have p: "has_prefix pfx (t # encodeBlockID i)" using Cons.prems by simp
  show ?case
  proof (cases "int (length (acc @ [G i])) = limit")
    case True
    then have "nat (limit - int (length acc)) = Suc 0" by simp
    with True d p show ?thesis by (simp add: decodeBlockID_encode)
  next
    case False
    have "nat (limit - int (length acc)) = Suc (nat (limit - int (length (acc @ [G i]))))" if "int (length acc) < limit"
      using that False by simp
    moreover have "graphs_loop pfx limit (map (\<lambda>i. (t # encodeBlockID i, encodeBlockGraph (G i))) ids) (acc @ [G i]) =
      Ok ((acc @ [G i]) @ (if int (length (acc @ [G i])) < limit then take (nat (limit - int (length (acc @ [G i])))) (map G ids) else map G ids))"
      by (rule Cons.IH) (use Cons.prems in auto)
    ultimately show ?thesis using False d p by (auto simp: decodeBlockID_encode)
  qed
qed simp

lemma getBlockGraphs_abs:
  assumes "repr c s a" "0 < limit"
  obtains ids where "set ids = {i. Node i = n \<and> r \<le> Round i \<and> a_graphs a i \<noteq> None}" "sorted_wrt id_less ids"
    "sorted_wrt (\<le>) (map Round ids)"
    "getBlockGraphs n r limit s = Ok (take (nat limit) (map (\<lambda>i. the (a_graphs a i)) ids))"
proof -
  have o: "\<not> bs_closed s" and wf: "mwf (bs_db s)" using assms by (simp_all add: repr_def)
  note rg = reprD(3) [OF assms(1) refl]
  obtain ids where ids:
    "takeWhile (\<lambda>e. has_prefix (blockGraphPrefix # Encode n @ [0]) (fst e)) (iter_from (blockGraphPrefix # Encode n @ 0 # Encode r) (bs_db s)) =
       map (\<lambda>i. (blockGraphPrefix # encodeBlockID i, the (map_of (bs_db s) (blockGraphPrefix # encodeBlockID i)))) ids"
    "sorted_wrt id_less ids" "sorted_wrt (\<le>) (map Round ids)"
    "set ids = {i. Node i = n \<and> r \<le> Round i \<and> blockGraphPrefix # encodeBlockID i \<in> dom (map_of (bs_db s))}"
    by (rule iter_node [OF wf, of blockGraphPrefix n r]) (use rg in \<open>simp_all add: repr_graphs_def\<close>)
  have set: "set ids = {i. Node i = n \<and> r \<le> Round i \<and> a_graphs a i \<noteq> None}"
    using ids(4) rg by (simp add: repr_graphs_def key_simps domIff)
  define G where "G = (\<lambda>i. the (a_graphs a i))"
  have G: "has_prefix (blockGraphPrefix # Encode n @ [0]) (blockGraphPrefix # encodeBlockID i) \<and> bg_Block (G i) = i \<and> graph_fits (G i)"
    and v: "the (map_of (bs_db s) (blockGraphPrefix # encodeBlockID i)) = encodeBlockGraph (G i)" if "i \<in> set ids" for i
    using that rg by (auto simp: set repr_graphs_def key_simps node_prefix G_def)
  have es: "map (\<lambda>i. (blockGraphPrefix # encodeBlockID i, the (map_of (bs_db s) (blockGraphPrefix # encodeBlockID i)))) ids =
    map (\<lambda>i. (blockGraphPrefix # encodeBlockID i, encodeBlockGraph (G i))) ids"
    using v by simp
  have "getBlockGraphs n r limit s = Ok (take (nat limit) (map G ids))"
    using graphs_loop_all [of ids "blockGraphPrefix # Encode n @ [0]" blockGraphPrefix G limit "[]"] G assms(2)
    by (simp add: getBlockGraphs_def view_def o graphs_loop_takeWhile [of _ _ "iter_from _ _"] ids(1) [unfolded es] del: has_prefix_Cons)
  with that [OF set ids(2,3)] show thesis by (simp add: G_def)
qed

section \<open>Properties\<close>

text \<open>\<^bold>\<open>C38\<close>: the store keeps what it is given. After any sequence of updates of an empty store, each
  inside the sizes its encoding assumes, every reader returns what the abstract store holds: blocks,
  own blocks, the inclusion flags, the last round, the interpreted rounds with their blocks in order,
  the acknowledged round, the received and the sent map. The unincluded blocks that are reloaded at
  start-up are exactly the received blocks that no own block references, each once.\<close>

theorem store_reads:
  assumes "codec_ok c" "list_all op_fits ops" "ofold (run_op c) ops new_bstore = Ok s" "a = fold abs_op ops a_empty"
  shows "getBlock c i s = found (a_blocks a i) \<and> getOwnBlock c r s = found (a_own a r) \<and>
    store_isIncluded i s = Ok (a_incl a i = Some True) \<and> getLastRoundData c s = found (a_last a) \<and>
    getLastInterpreted s = found (a_lastInterp a) \<and> getDeliverAcknowledged s = found (a_ack a) \<and>
    omap map_of (getReceivedMap s) = found (a_recv a) \<and> omap map_of (getSentMap s) = found (a_sent a) \<and>
    getInterpreted c r s = obind (found (a_interp a r)) (omaps (\<lambda>i. found (a_blocks a i))) \<and>
    (\<exists>ids. distinct ids \<and> set ids = {i. a_incl a i = Some False} \<and>
       getNotIncluded c s = omaps (\<lambda>i. getBlockData c (the (a_blocks a i))) ids)"
proof -
  from run_repr [OF assms(1-3)] have r: "repr c s a" by (simp only: assms(4))
  from getNotIncluded_abs [OF repr_core [OF r]] obtain ids where "set ids = {i. a_incl a i = Some False}" "sorted_wrt id_less ids"
    "getNotIncluded c s = omaps (\<lambda>i. getBlockData c (the (a_blocks a i))) ids" .
  then have "\<exists>ids. distinct ids \<and> set ids = {i. a_incl a i = Some False} \<and>
       getNotIncluded c s = omaps (\<lambda>i. getBlockData c (the (a_blocks a i))) ids"
    using id_less_distinct by blast
  then show ?thesis
    using getBlock_abs [OF repr_core [OF r]] isIncluded_abs [OF repr_core [OF r]] getLast_abs [OF repr_core [OF r]] getProgress_abs [OF r] getMaps_abs [OF r] getInterpreted_abs [OF r]
    by blast
qed

definition demo_sd :: SignedData where
  "demo_sd = \<lparr>sd_Data = [7, 0], sd_Signature = [4]\<rparr>"

definition demo_ops :: "store_op list" where
  "demo_ops = [SetBlock \<lparr>Hash = [7], Node = 2, Round = 1\<rparr> demo_sd, SetBlock \<lparr>Hash = [8], Node = 3, Round = 1\<rparr> demo_sd,
     SetOwnBlock demo_sd demo_sd demo_graph, SetInterpreted \<lparr>in_Blocks = [\<lparr>Hash = [7], Node = 2, Round = 1\<rparr>], in_Consumed = 1, in_Round = 1\<rparr>,
     SetSentMap [(2, 1)]]"

lemma demo_ops_run: "is_ok (ofold (run_op demo_codec) demo_ops new_bstore)"
  unfolding is_ok_iff by (rule run_ops_ok) (simp_all add: demo_ops_def demo_sd_def demo_codec_def new_bstore_def)

lemma demo_ops_fit: "list_all op_fits demo_ops"
  by (simp add: demo_ops_def demo_graph_fits key_simps encodeBlockID_def Encode_def maxSmall_def)

theorem store_reads_witness:
  "\<exists>s. ofold (run_op demo_codec) demo_ops new_bstore = Ok s \<and>
     getInterpreted demo_codec 1 s = Ok [demo_sd] \<and> store_isIncluded \<lparr>Hash = [7], Node = 2, Round = 1\<rparr> s = Ok True"
proof -
  from demo_ops_run obtain s where s: "ofold (run_op demo_codec) demo_ops new_bstore = Ok s" by (auto simp: outcome_simps)
  from store_reads [OF demo_codec_ok demo_ops_fit s refl, of "\<lparr>Hash = [7], Node = 2, Round = 1\<rparr>" 1] s show ?thesis
    by (auto simp: demo_ops_def demo_graph_def a_empty_def found_def)
qed

text \<open>\<^bold>\<open>C39\<close>: the graphs of a node are read in the order of their rounds. A query for at most \<open>limit\<close> graphs
  from a round on returns, decoded, the first \<open>limit\<close> of the stored graphs of that node whose round is
  not smaller, sorted by round, none twice and none left out.\<close>

theorem graphs_by_round:
  assumes "codec_ok c" "list_all op_fits ops" "ofold (run_op c) ops new_bstore = Ok s" "a = fold abs_op ops a_empty" "0 < limit"
  shows "\<exists>ids. distinct ids \<and> set ids = {i. Node i = n \<and> r \<le> Round i \<and> a_graphs a i \<noteq> None} \<and> sorted_wrt (\<le>) (map Round ids) \<and>
    getBlockGraphs n r limit s = Ok (take (nat limit) (map (\<lambda>i. the (a_graphs a i)) ids))"
proof -
  from run_repr [OF assms(1-3)] have "repr c s a" by (simp only: assms(4))
  from getBlockGraphs_abs [OF this assms(5)] obtain ids where "set ids = {i. Node i = n \<and> r \<le> Round i \<and> a_graphs a i \<noteq> None}"
    "sorted_wrt id_less ids" "sorted_wrt (\<le>) (map Round ids)" "getBlockGraphs n r limit s = Ok (take (nat limit) (map (\<lambda>i. the (a_graphs a i)) ids))" .
  then show ?thesis using id_less_distinct by blast
qed

lemma distinct_single: "distinct xs \<Longrightarrow> set xs = {x} \<Longrightarrow> xs = [x]"
  by (cases xs; cases "tl xs") auto

lemma demo_ops_graphs: "{i. Node i = 1 \<and> 0 \<le> Round i \<and> a_graphs (fold abs_op demo_ops a_empty) i \<noteq> None} = {bg_Block demo_graph}"
  by (auto simp: demo_ops_def demo_graph_def a_empty_def)

theorem graphs_by_round_witness:
  "\<exists>s. ofold (run_op demo_codec) demo_ops new_bstore = Ok s \<and> getBlockGraphs 1 0 5 s = Ok [demo_graph]"
proof -
  from demo_ops_run obtain s where s: "ofold (run_op demo_codec) demo_ops new_bstore = Ok s" by (auto simp: outcome_simps)
  have "(0 :: int) < 5" by simp
  from graphs_by_round [OF demo_codec_ok demo_ops_fit s refl this, of 1 0, unfolded demo_ops_graphs] obtain ids where
    ids: "distinct ids" "set ids = {bg_Block demo_graph}"
    "getBlockGraphs 1 0 5 s = Ok (take (nat 5) (map (\<lambda>i. the (a_graphs (fold abs_op demo_ops a_empty) i)) ids))"
    by blast
  from ids(1,2) have "ids = [bg_Block demo_graph]" by (rule distinct_single)
  moreover have "the (a_graphs (fold abs_op demo_ops a_empty) (bg_Block demo_graph)) = demo_graph"
    by (simp add: demo_ops_def a_empty_def)
  ultimately have "getBlockGraphs 1 0 5 s = Ok [demo_graph]" using ids(3) by simp
  with s show ?thesis by blast
qed

end
