(* ===== verification/BcMissing.thy ===== *)
theory BcMissing
  imports BcQueries
begin

text \<open>
  \<open>getMissing\<close> (\<open>broadcast/store.go\<close>): the rounds of a node for which no block is stored, which the
  node then requests from that peer.
\<close>

section \<open>Missing rounds\<close>

lemma word_Suc_le: "l < n \<Longrightarrow> l + 1 \<le> x \<longleftrightarrow> l < x" for l n x :: u64
  using unat_Suc_less [of l n] by (simp add: word_less_nat_alt word_le_nat_alt Suc_le_eq)

lemma word_Suc_not_less: "l < n \<Longrightarrow> \<not> l + 1 < n \<Longrightarrow> n = l + 1" for l n :: u64
  using unat_Suc_less [of l n] by (simp add: word_less_nat_alt word_unat_eq_iff)

lemma missing_gap_spec:
  assumes "lat < nxt"
  shows "\<exists>st lat' new. missing_gap (lat + 1) nxt limit lat rounds added = (st, lat', rounds @ new, if st then limit else added + int (length new)) \<and>
     lat \<le> lat' \<and> lat' < nxt \<and> set new = {lat<..lat'} \<and> sorted_wrt (<) new \<and>
     (if st then int (length new) = limit - added + 1 else nxt = lat' + 1 \<and> (added \<le> limit \<longrightarrow> added + int (length new) \<le> limit))"
  using assms
proof (induction "unat nxt - unat lat" arbitrary: lat rounds added rule: less_induct)
  case less
  let ?i = "lat + 1"
  have i: "unat ?i = unat lat + 1" using less.prems by (rule unat_Suc_less)
  have one: "{lat<..?i} = {?i}" by (auto simp: word_Suc_le [OF less.prems, symmetric])
  show ?case
  proof (cases "?i < nxt")
    case False
    then have "nxt = lat + 1" using less.prems word_Suc_not_less by blast
    then show ?thesis using False less.prems
      by (intro exI [of _ False] exI [of _ lat] exI [of _ "[]"]) (simp add: missing_gap.simps)
  next
    case True
    show ?thesis
    proof (cases "added = limit")
      case True
      with \<open>?i < nxt\<close> one show ?thesis
        by (intro exI [of _ True] exI [of _ ?i] exI [of _ "[?i]"]) (simp add: missing_gap.simps less.prems word_le_nat_alt i)
    next
      case False
      have "unat nxt - unat ?i < unat nxt - unat lat" using i less.prems by (simp add: word_less_nat_alt)
      from less.hyps [OF this True, of "rounds @ [?i]" "added + 1"] obtain st lat' new where ih:
        "missing_gap (?i + 1) nxt limit ?i (rounds @ [?i]) (added + 1) = (st, lat', (rounds @ [?i]) @ new, if st then limit else added + 1 + int (length new))"
        "?i \<le> lat'" "lat' < nxt" "set new = {?i<..lat'}" "sorted_wrt (<) new"
        "if st then int (length new) = limit - (added + 1) + 1 else nxt = lat' + 1 \<and> (added + 1 \<le> limit \<longrightarrow> added + 1 + int (length new) \<le> limit)"
        by blast
      have "{lat<..lat'} = insert ?i {?i<..lat'}"
      proof (rule set_eqI)
        fix x show "x \<in> {lat<..lat'} \<longleftrightarrow> x \<in> insert ?i {?i<..lat'}"
          using ih(2) word_Suc_le [OF less.prems, of x] by (cases x ?i rule: linorder_cases) auto
      qed
      moreover have "missing_gap ?i nxt limit lat rounds added = missing_gap (?i + 1) nxt limit ?i (rounds @ [?i]) (added + 1)"
        by (subst missing_gap.simps) (simp only: True False if_True if_False)
      moreover have "lat \<le> lat'" using ih(2) i by (simp add: word_le_nat_alt)
      moreover have "if st then int (length (?i # new)) = limit - added + 1
          else nxt = lat' + 1 \<and> (added \<le> limit \<longrightarrow> added + int (length (?i # new)) \<le> limit)"
        using ih(6) False by (cases st) auto
      ultimately show ?thesis
        using ih(1-5) by (intro exI [of _ st] exI [of _ lat'] exI [of _ "?i # new"]) (cases st; simp)
    qed
  qed
qed

text \<open>The rounds between \<open>since\<close> and \<open>lat\<close> that are not in \<open>R\<close>, in order, each below one in \<open>R\<close>.\<close>

definition missing_ok :: "u64 \<Rightarrow> u64 set \<Rightarrow> u64 list \<Rightarrow> u64 \<Rightarrow> bool" where
  "missing_ok since R rs lat \<longleftrightarrow> since \<le> lat \<and> sorted_wrt (<) rs \<and> set rs = {since<..lat} - R \<and> (\<forall>r \<in> set rs. \<exists>q \<in> R. r < q)"

lemma missing_loop_takeWhile:
  "missing_loop pfx limit es lat rs added = missing_loop pfx limit (takeWhile (\<lambda>e. has_prefix pfx (fst e)) es) lat rs added"
  by (induction es arbitrary: lat rs added) (simp_all add: case_prod_beta Let_def split_paired_all cong: if_cong)

lemma gap_keeps:
  assumes ok: "missing_ok since R rs lat" and "lat < nxt" "nxt \<in> R" "set new = {lat<..lat'}" "sorted_wrt (<) new"
    and "lat \<le> lat'" "lat' < nxt" and gap: "\<forall>q \<in> R. q \<le> lat \<or> nxt \<le> q"
  shows "missing_ok since R (rs @ new) lat'"
proof -
  have "R \<inter> {lat<..lat'} = {}" using gap assms(7) by fastforce
  moreover have "{since<..lat'} = {since<..lat} \<union> {lat<..lat'}" using ok assms(6) by (auto simp: missing_ok_def)
  ultimately have "set (rs @ new) = {since<..lat'} - R" using ok assms(4) by (auto simp: missing_ok_def)
  moreover have "sorted_wrt (<) (rs @ new)"
    using ok assms(4,5) by (auto simp: missing_ok_def sorted_wrt_append)
  moreover have "\<forall>r \<in> set (rs @ new). \<exists>q \<in> R. r < q"
  proof
    fix r assume "r \<in> set (rs @ new)"
    then consider "r \<in> set rs" | "r \<le> lat'" using assms(4) by auto
    then show "\<exists>q \<in> R. r < q"
    proof cases
      case 1
      with ok show ?thesis by (simp add: missing_ok_def)
    next
      case 2
      then have "r < nxt" using assms(7) by simp
      with assms(3) show ?thesis by (rule bexI [rotated])
    qed
  qed
  ultimately show ?thesis using ok assms(6) by (auto simp: missing_ok_def)
qed

lemma reach_keeps:
  assumes "missing_ok since R rs lat'" "nxt = lat' + 1" "lat' < nxt" "nxt \<in> R"
  shows "missing_ok since R rs nxt"
proof -
  have "{since<..nxt} - R = {since<..lat'} - R"
  proof (rule set_eqI)
    fix x show "x \<in> {since<..nxt} - R \<longleftrightarrow> x \<in> {since<..lat'} - R"
      using assms(2-4) word_Suc_le [of lat' nxt x] by (cases x nxt rule: linorder_cases) auto
  qed
  with assms show ?thesis by (auto simp: missing_ok_def)
qed

lemma missing_loop_spec:
  assumes "missing_ok since R rs lat" "int (length rs) \<le> limit" "\<forall>q \<in> R. q \<le> lat \<or> q \<in> Round ` set ids"
    and "Round ` set ids \<subseteq> R" "sorted_wrt (\<le>) (lat # map Round ids)" "\<forall>i \<in> set ids. has_prefix pfx (t # encodeBlockID i)"
    and "\<forall>q \<in> R. q < - 1"
  shows "\<exists>rs' lat'. missing_loop pfx limit (map (\<lambda>i. (t # encodeBlockID i, V i)) ids) lat rs (int (length rs)) = Ok (rs', lat') \<and>
     missing_ok since R rs' lat' \<and> int (length rs') \<le> limit + 1 \<and> (int (length rs') \<le> limit \<longrightarrow> (\<forall>q \<in> R. q \<le> lat'))"
  using assms
proof (induction ids arbitrary: lat rs)
  case Nil
  then show ?case by auto
next
  case (Cons i ids)
  let ?n = "Round i"
  have p: "has_prefix pfx (t # encodeBlockID i)" and n: "?n \<in> R" "lat \<le> ?n"
    and rest: "\<forall>q \<in> R. q \<le> lat \<or> q = ?n \<or> q \<in> Round ` set ids" "sorted_wrt (\<le>) (?n # map Round ids)" "\<forall>r \<in> Round ` set ids. ?n \<le> r"
    using Cons.prems(3-6) by auto
  have left: "\<forall>q \<in> R. q \<le> ?n \<or> q \<in> Round ` set ids" using rest(1) n(2) by auto
  have sub: "Round ` set ids \<subseteq> R" "\<forall>i \<in> set ids. has_prefix pfx (t # encodeBlockID i)" using Cons.prems(4,6) by auto
  note ih = Cons.IH [OF _ _ left sub(1) rest(2) sub(2) Cons.prems(7)]
  show ?case
  proof (cases "lat = ?n")
    case True
    then have "\<not> lat + 1 < ?n"
      using unat_Suc_less [of lat "- 1"] n(1) Cons.prems(7) by (simp add: word_less_nat_alt)
    then have g: "missing_gap (lat + 1) ?n limit lat rs (int (length rs)) = (False, lat, rs, int (length rs))"
      by (simp add: missing_gap.simps)
    have "\<exists>rs' lat'. missing_loop pfx limit (map (\<lambda>i. (t # encodeBlockID i, V i)) ids) ?n rs (int (length rs)) = Ok (rs', lat') \<and>
     missing_ok since R rs' lat' \<and> int (length rs') \<le> limit + 1 \<and> (int (length rs') \<le> limit \<longrightarrow> (\<forall>q \<in> R. q \<le> lat'))"
      by (rule ih) (use Cons.prems(1,2) True in simp_all)
    then show ?thesis using p g by (simp add: decodeBlockRound_key)
  next
    case False
    then have lt: "lat < ?n" using n(2) by simp
    from missing_gap_spec [OF lt, of limit rs "int (length rs)"] obtain st lat' new where
      g: "missing_gap (lat + 1) ?n limit lat rs (int (length rs)) = (st, lat', rs @ new, if st then limit else int (length rs) + int (length new))"
      "lat \<le> lat'" "lat' < ?n" "set new = {lat<..lat'}" "sorted_wrt (<) new"
      "if st then int (length new) = limit - int (length rs) + 1 else ?n = lat' + 1 \<and> (int (length rs) \<le> limit \<longrightarrow> int (length rs) + int (length new) \<le> limit)"
      by blast
    have ok: "missing_ok since R (rs @ new) lat'"
      by (rule gap_keeps [OF Cons.prems(1) lt n(1) g(4,5,2,3)]) (use rest(1,3) in auto)
    show ?thesis
    proof (cases st)
      case True
      with g ok p show ?thesis by (simp add: decodeBlockRound_key)
    next
      case False
      have "\<exists>rs' lat'. missing_loop pfx limit (map (\<lambda>i. (t # encodeBlockID i, V i)) ids) ?n (rs @ new) (int (length (rs @ new))) = Ok (rs', lat') \<and>
     missing_ok since R rs' lat' \<and> int (length rs') \<le> limit + 1 \<and> (int (length rs') \<le> limit \<longrightarrow> (\<forall>q \<in> R. q \<le> lat'))"
      proof (rule ih)
        show "missing_ok since R (rs @ new) ?n" by (rule reach_keeps [OF ok _ g(3) n(1)]) (use g(6) False in simp)
      qed (use Cons.prems(2) g(6) False in simp)
      then show ?thesis using p g False by (simp add: decodeBlockRound_key)
    qed
  qed
qed

lemma getMissing_abs:
  assumes "repr c s a" "since < - 1" "0 \<le> limit"
    and R: "R = {Round i |i. Node i = n \<and> since < Round i \<and> a_blocks a i \<noteq> None}" "\<forall>q \<in> R. q < - 1"
  shows "\<exists>rs lat. getMissing n since limit s = Ok (rs, lat) \<and> missing_ok since R rs lat \<and>
    int (length rs) \<le> limit + 1 \<and> (int (length rs) \<le> limit \<longrightarrow> (\<forall>q \<in> R. q \<le> lat))"
proof -
  have o: "\<not> bs_closed s" and wf: "mwf (bs_db s)" using assms by (simp_all add: repr_def)
  note rb = reprD(1) [OF assms(1) refl]
  obtain ids where ids:
    "takeWhile (\<lambda>e. has_prefix (blockPrefix # Encode n @ [0]) (fst e)) (iter_from (blockPrefix # Encode n @ 0 # Encode (since + 1)) (bs_db s)) =
       map (\<lambda>i. (blockPrefix # encodeBlockID i, the (map_of (bs_db s) (blockPrefix # encodeBlockID i)))) ids"
    "sorted_wrt id_less ids" "sorted_wrt (\<le>) (map Round ids)"
    "set ids = {i. Node i = n \<and> since + 1 \<le> Round i \<and> blockPrefix # encodeBlockID i \<in> dom (map_of (bs_db s))}"
    by (rule iter_node [OF wf, of blockPrefix n "since + 1"]) (use rb in \<open>simp_all add: repr_blocks_def\<close>)
  have sg: "signed_at c (map_of (bs_db s) (blockPrefix # encodeBlockID i)) (a_blocks a i)" for i
    using rb by (simp add: repr_blocks_def key_simps)
  have "blockPrefix # encodeBlockID i \<in> dom (map_of (bs_db s)) \<longleftrightarrow> a_blocks a i \<noteq> None" for i
    using signed_at_None [OF sg [of i]] by (simp only: domIff)
  then have set: "set ids = {i. Node i = n \<and> since < Round i \<and> a_blocks a i \<noteq> None}"
    using ids(4) word_Suc_le [OF assms(2)] by auto
  have "missing_loop (blockPrefix # Encode n @ [0]) limit (iter_from (blockPrefix # Encode n @ 0 # Encode (since + 1)) (bs_db s)) since [] 0 =
    missing_loop (blockPrefix # Encode n @ [0]) limit (map (\<lambda>i. (blockPrefix # encodeBlockID i, the (map_of (bs_db s) (blockPrefix # encodeBlockID i)))) ids)
      since [] (int (length ([] :: u64 list)))"
    by (subst missing_loop_takeWhile, subst ids(1)) simp
  moreover have "\<exists>rs lat. missing_loop (blockPrefix # Encode n @ [0]) limit (map (\<lambda>i. (blockPrefix # encodeBlockID i, the (map_of (bs_db s) (blockPrefix # encodeBlockID i)))) ids)
      since [] (int (length ([] :: u64 list))) = Ok (rs, lat) \<and> missing_ok since R rs lat \<and>
    int (length rs) \<le> limit + 1 \<and> (int (length rs) \<le> limit \<longrightarrow> (\<forall>q \<in> R. q \<le> lat))"
    by (rule missing_loop_spec) (use set R assms(3) ids(3) in \<open>auto simp: missing_ok_def node_prefix\<close>)
  ultimately show ?thesis by (simp add: getMissing_def view_def o)
qed

section \<open>Property\<close>

text \<open>\<^bold>\<open>C40\<close>: \<open>getMissing\<close> finds the gaps. Whatever was written, it returns in order exactly the rounds after
  \<open>since\<close> and up to the round it reports as latest for which no block of the node is stored; each of
  them is below a stored round. If it returns at most \<open>limit\<close> rounds, the latest round covers all stored
  blocks. It may return one round more than the limit. Rounds are below the last 64-bit value.\<close>

theorem missing_rounds:
  assumes "codec_ok c" "list_all op_fits ops" "ofold (run_op c) ops new_bstore = Ok s" "a = fold abs_op ops a_empty"
    and "R = {Round i |i. Node i = n \<and> since < Round i \<and> a_blocks a i \<noteq> None}" "\<forall>q \<in> R. q < - 1" "since < - 1" "0 \<le> limit"
  shows "\<exists>rs lat. getMissing n since limit s = Ok (rs, lat) \<and> sorted_wrt (<) rs \<and> since \<le> lat \<and> set rs = {since<..lat} - R \<and>
    (\<forall>r \<in> set rs. \<exists>q \<in> R. r < q) \<and> int (length rs) \<le> limit + 1 \<and> (int (length rs) \<le> limit \<longrightarrow> (\<forall>q \<in> R. q \<le> lat))"
  using getMissing_abs [OF run_repr [OF assms(1-3), folded assms(4)] assms(7,8,5,6)] unfolding missing_ok_def by blast

definition gap_ops :: "store_op list" where
  "gap_ops = [SetBlock \<lparr>Hash = [0], Node = 7, Round = 5\<rparr> \<lparr>sd_Data = [1], sd_Signature = [2]\<rparr>,
     SetBlock \<lparr>Hash = [9], Node = 7, Round = 2\<rparr> \<lparr>sd_Data = [], sd_Signature = []\<rparr>]"

lemma gap_ops_run: "is_ok (ofold (run_op demo_codec) gap_ops new_bstore)"
  unfolding is_ok_iff by (rule run_ops_ok) (simp_all add: gap_ops_def demo_codec_def new_bstore_def)

lemma gap_ops_rounds:
  "{Round i |i. Node i = 7 \<and> 1 < Round i \<and> a_blocks (fold abs_op gap_ops a_empty) i \<noteq> None} = {2, 5}"
  by (auto simp: gap_ops_def a_empty_def)

theorem missing_rounds_witness:
  "\<exists>s rs lat. ofold (run_op demo_codec) gap_ops new_bstore = Ok s \<and> getMissing 7 1 10 s = Ok (rs, lat) \<and> set rs = {1<..lat} - {2, 5}"
proof -
  from gap_ops_run obtain s where s: "ofold (run_op demo_codec) gap_ops new_bstore = Ok s" by (auto simp: outcome_simps)
  have "list_all op_fits gap_ops" by (simp add: gap_ops_def)
  moreover have "(1 :: u64) < - 1" "(2 :: u64) < - 1" "(5 :: u64) < - 1" by code_simp+
  ultimately show ?thesis
    using s missing_rounds [OF demo_codec_ok _ s refl gap_ops_rounds [symmetric], of 10] by auto
qed

end
