(* ===== verification/BcDepgraph.thy ===== *)
theory BcDepgraph
  imports BcRefine
begin

text \<open>
  \<open>broadcast/depgraph.go\<close>: received blocks wait here until all blocks they refer to have been
  included into own blocks, then they are queued for inclusion themselves. The counter of the loop
  of \<open>process\<close> is part of the state, which a turn of the loop prunes and works through; a turn is
  taken when there is a block to work on. The locks protect the fields against the goroutine that
  builds blocks, whose operations are the other definitions.
\<close>

section \<open>Operations\<close>

record depgraph =
  dg_await :: "(BlockID, BlockID list) gomap"
  dg_blocks :: "blockData list"
  dg_icache :: "(BlockID, bool) gomap"
  dg_in :: "blockData list"
  dg_pending :: "(BlockID, blockData) gomap"
  dg_self :: u64
  dg_tcache :: "(BlockID, bool) gomap"
  dg_i :: nat

definition new_depgraph :: "u64 \<Rightarrow> depgraph" where
  "new_depgraph self = \<lparr>dg_await = [], dg_blocks = [], dg_icache = [], dg_in = [], dg_pending = [], dg_self = self,
     dg_tcache = [], dg_i = 0\<rparr>"

definition actuallyIncluded :: "BlockID \<Rightarrow> depgraph \<Rightarrow> depgraph" where
  "actuallyIncluded i d = d\<lparr>dg_tcache := mdel i (dg_tcache d)\<rparr>"

definition dg_add :: "blockData \<Rightarrow> depgraph \<Rightarrow> depgraph" where
  "dg_add info d = d\<lparr>dg_in := dg_in d @ [info]\<rparr>"

definition add_await :: "BlockID \<Rightarrow> BlockID \<Rightarrow> depgraph \<Rightarrow> depgraph" where
  "add_await i dep d =
     (case map_of (dg_await d) dep of
        Some await \<Rightarrow> if i \<in> set await then d else d\<lparr>dg_await := mput dep (await @ [i]) (dg_await d)\<rparr>
      | None \<Rightarrow> d\<lparr>dg_await := mput dep [i] (dg_await d)\<rparr>)"

definition addPending :: "blockData \<Rightarrow> BlockID list \<Rightarrow> depgraph \<Rightarrow> depgraph" where
  "addPending block deps d =
     fold (add_await (bd_id block)) deps (d\<lparr>dg_pending := mput (bd_id block) block (dg_pending d)\<rparr>)"

text \<open>How many blocks from the front fit into the limit.\<close>

fun fitting :: "int \<Rightarrow> nat \<Rightarrow> blockData list \<Rightarrow> nat" where
  "fitting limit tot [] = 0"
| "fitting limit tot (b # bs) =
     (let tot' = tot + SignedData_Size (bd_ref b) in if int tot' > limit then 0 else Suc (fitting limit tot' bs))"

definition dg_getBlocks :: "int \<Rightarrow> depgraph \<Rightarrow> blockData list \<times> depgraph" where
  "dg_getBlocks limit d = (let n = fitting limit 0 (dg_blocks d) in (take n (dg_blocks d), d\<lparr>dg_blocks := drop n (dg_blocks d)\<rparr>))"

definition dg_isIncluded :: "bstore \<Rightarrow> BlockID \<Rightarrow> depgraph \<Rightarrow> (bool \<times> depgraph) may_panic" where
  "dg_isIncluded s i d =
     (case map_of (dg_tcache d) i of
        Some inc \<Rightarrow> Ok (inc, d)
      | None \<Rightarrow>
          (case map_of (dg_icache d) i of
             Some inc \<Rightarrow> Ok (inc, d)
           | None \<Rightarrow>
               (case store_isIncluded i s of
                  Ok inc \<Rightarrow> Ok (inc, d\<lparr>dg_icache := mput i inc (dg_icache d)\<rparr>)
                | Err _ \<Rightarrow> Panic LogFatal
                | Panic r \<Rightarrow> Panic r)))"

definition markIncluded :: "BlockID \<Rightarrow> depgraph \<Rightarrow> depgraph" where
  "markIncluded i d = d\<lparr>dg_icache := mput i True (dg_icache d), dg_tcache := mput i True (dg_tcache d)\<rparr>"

text \<open>The references a block waits for: the previous block, and the others but those of this node.\<close>

definition needs :: "u64 \<Rightarrow> blockData \<Rightarrow> BlockID list" where
  "needs self b = (if Valid (bd_prev b) then [bd_prev b] else []) @ filter (\<lambda>dep. Node dep \<noteq> self) (bd_deps b)"

text \<open>A missing reference is logged, which prints the two identifiers.\<close>

definition check_dep :: "bstore \<Rightarrow> BlockID \<Rightarrow> BlockID \<Rightarrow> BlockID list \<times> depgraph \<Rightarrow> (BlockID list \<times> depgraph) may_panic" where
  "check_dep s i dep st =
     obind (dg_isIncluded s dep (snd st)) (\<lambda>(inc, d).
       if inc then Ok (fst st, d)
       else obind (BlockID_String i) (\<lambda>_. obind (BlockID_String dep) (\<lambda>_. Ok (fst st @ [dep], d))))"

definition dg_processBlock :: "bstore \<Rightarrow> blockData \<Rightarrow> depgraph \<Rightarrow> (bool \<times> depgraph) may_panic" where
  "dg_processBlock s block d =
     obind (dg_isIncluded s (bd_id block) d) (\<lambda>(inc, d1).
       if inc then Ok (True, d1)
       else obind (ofold (check_dep s (bd_id block)) (needs (dg_self d1) block) ([], d1)) (\<lambda>(deps, d2).
         if deps \<noteq> [] then Ok (False, addPending block deps d2)
         else let d3 = markIncluded (bd_id block) d2 in Ok (True, d3\<lparr>dg_blocks := dg_blocks d3 @ [block]\<rparr>)))"

text \<open>Working through the blocks that wait for the processed ones.\<close>

definition revdep_step :: "bstore \<Rightarrow> BlockID \<Rightarrow> BlockID list \<times> (BlockID, bool) gomap \<times> depgraph \<Rightarrow>
    (BlockID list \<times> (BlockID, bool) gomap \<times> depgraph) may_panic" where
  "revdep_step s revdep st =
     (case st of (processed, seen, d) \<Rightarrow>
        if map_of seen revdep = Some True then Ok st
        else case map_of (dg_pending d) revdep of
          None \<Rightarrow> Panic NilDereference
        | Some b \<Rightarrow> obind (dg_processBlock s b d) (\<lambda>(ok, d').
            if ok then Ok (processed @ [revdep], [], d') else Ok (processed, mput revdep True seen, d')))"

definition awaiting :: "depgraph \<Rightarrow> BlockID \<Rightarrow> BlockID list" where
  "awaiting d i = (case map_of (dg_await d) i of None \<Rightarrow> [] | Some l \<Rightarrow> l)"

partial_function (option) release :: "bstore \<Rightarrow> BlockID list \<Rightarrow> (BlockID, bool) gomap \<Rightarrow> bool \<Rightarrow> depgraph \<Rightarrow> depgraph may_panic option" where
  "release s processed seen first d =
     (case processed of
        [] \<Rightarrow> Some (Ok d)
      | nxt # rest \<Rightarrow>
          (case ofold (revdep_step s) (awaiting d nxt) (rest, seen, d) of
             Ok (processed', seen', d1) \<Rightarrow>
               (let d2 = d1\<lparr>dg_await := mdel nxt (dg_await d1)\<rparr>;
                    d3 = (if first then d2 else d2\<lparr>dg_pending := mdel nxt (dg_pending d2)\<rparr>)
                in release s processed' seen' False d3)
           | Err e \<Rightarrow> Some (Err e)
           | Panic r \<Rightarrow> Some (Panic r)))"

text \<open>The included cache is pruned to a thousand entries every hundred turns. The code keeps those that
  the iteration over the map meets first, here they are the first of the list; the lemmas use only
  that what is kept was in the cache.\<close>

definition prune_icache :: "depgraph \<Rightarrow> depgraph" where
  "prune_icache d =
     (let d1 = d\<lparr>dg_i := dg_i d + 1\<rparr> in
      if dg_i d1 mod 100 = 0 \<and> length (dg_icache d1) > 1000 then d1\<lparr>dg_icache := take 1000 (dg_icache d1)\<rparr> else d1)"

text \<open>A turn of the loop for one block is one step. The code holds the mutex only while
  it includes a block, so that other goroutines may see the states in between too.\<close>

definition process_turn :: "bstore \<Rightarrow> blockData \<Rightarrow> blockData list \<Rightarrow> depgraph \<Rightarrow> depgraph may_panic option" where
  "process_turn s info rest d =
     (case dg_processBlock s info ((prune_icache d)\<lparr>dg_in := rest\<rparr>) of
        Ok (ok, d1) \<Rightarrow> if ok then release s [bd_id info] [(bd_id info, True)] True d1 else Some (Ok d1)
      | Err e \<Rightarrow> Some (Err e)
      | Panic r \<Rightarrow> Some (Panic r))"

section \<open>What is included\<close>

text \<open>\<open>K\<close> are the blocks that are included or queued for inclusion, \<open>M\<close> those the store knows as included.
  The temporary cache bridges the time until the store knows, so that the included cache may be pruned.\<close>

definition cache_inv :: "bstore \<Rightarrow> BlockID set \<Rightarrow> BlockID set \<Rightarrow> depgraph \<Rightarrow> bool" where
  "cache_inv s M K d \<longleftrightarrow> (\<forall>i. store_isIncluded i s = Ok (i \<in> M)) \<and> M \<subseteq> K \<and>
     (\<forall>i b. map_of (dg_tcache d) i = Some b \<longrightarrow> b \<and> i \<in> K) \<and> (\<forall>i b. map_of (dg_icache d) i = Some b \<longrightarrow> b = (i \<in> K)) \<and>
     (\<forall>i \<in> K. i \<in> M \<or> map_of (dg_tcache d) i = Some True)"

definition printable :: "BlockID \<Rightarrow> bool" where
  "printable i \<longleftrightarrow> Hash i = [] \<or> 12 \<le> length (Hash i)"

lemma printable_String: "printable i \<Longrightarrow> \<exists>v. BlockID_String i = Ok v"
  by (auto simp: printable_def BlockID_String_def Let_def)

lemma isIncluded_spec:
  assumes "cache_inv s M K d"
  obtains ic where "dg_isIncluded s i d = Ok (i \<in> K, d\<lparr>dg_icache := ic\<rparr>)" "cache_inv s M K (d\<lparr>dg_icache := ic\<rparr>)"
proof (cases "map_of (dg_tcache d) i")
  case (Some b)
  then have "dg_isIncluded s i d = Ok (i \<in> K, d\<lparr>dg_icache := dg_icache d\<rparr>)"
    using assms by (auto simp: dg_isIncluded_def cache_inv_def)
  with that assms show ?thesis by (metis depgraph.surjective depgraph.update_convs(3))
next
  case None
  show ?thesis
  proof (cases "map_of (dg_icache d) i")
    case (Some b)
    then have "dg_isIncluded s i d = Ok (i \<in> K, d\<lparr>dg_icache := dg_icache d\<rparr>)"
      using assms None by (auto simp: dg_isIncluded_def cache_inv_def)
    with that assms show ?thesis by (metis depgraph.surjective depgraph.update_convs(3))
  next
    case N: None
    have "i \<in> K \<longleftrightarrow> i \<in> M" using assms None by (auto simp: cache_inv_def)
    then have "dg_isIncluded s i d = Ok (i \<in> K, d\<lparr>dg_icache := mput i (i \<in> K) (dg_icache d)\<rparr>)"
      "cache_inv s M K (d\<lparr>dg_icache := mput i (i \<in> K) (dg_icache d)\<rparr>)"
      using assms None N by (auto simp: dg_isIncluded_def cache_inv_def gomap_simps)
    then show ?thesis by (rule that)
  qed
qed

lemma check_deps_spec:
  assumes "cache_inv s M K d" "printable i" "list_all printable xs"
  shows "\<exists>ic. ofold (check_dep s i) xs (acc, d) = Ok (acc @ filter (\<lambda>x. x \<notin> K) xs, d\<lparr>dg_icache := ic\<rparr>) \<and>
    cache_inv s M K (d\<lparr>dg_icache := ic\<rparr>)"
  using assms
proof (induction xs arbitrary: acc d)
  case Nil
  then show ?case by (metis append_Nil2 depgraph.surjective depgraph.update_convs(3) filter.simps(1) ofold.simps(1))
next
  case (Cons x xs)
  obtain ic where ic: "dg_isIncluded s x d = Ok (x \<in> K, d\<lparr>dg_icache := ic\<rparr>)" "cache_inv s M K (d\<lparr>dg_icache := ic\<rparr>)"
    by (rule isIncluded_spec [OF Cons.prems(1)])
  have "check_dep s i x (acc, d) = Ok (if x \<in> K then acc else acc @ [x], d\<lparr>dg_icache := ic\<rparr>)"
    using ic(1) Cons.prems(2,3) printable_String [of i] printable_String [of x] by (auto simp: check_dep_def)
  with Cons.IH [OF ic(2) Cons.prems(2), of "if x \<in> K then acc else acc @ [x]"] Cons.prems(3) show ?case
    by auto
qed

lemma processBlock_spec:
  assumes inv: "cache_inv s M K d" and pr: "printable (bd_id b)" "list_all printable (needs (dg_self d) b)"
  obtains (known) ic where "bd_id b \<in> K" "dg_processBlock s b d = Ok (True, d\<lparr>dg_icache := ic\<rparr>)" "cache_inv s M K (d\<lparr>dg_icache := ic\<rparr>)"
  | (waits) ic xs where "bd_id b \<notin> K" "xs = filter (\<lambda>x. x \<notin> K) (needs (dg_self d) b)" "xs \<noteq> []"
    "dg_processBlock s b d = Ok (False, addPending b xs (d\<lparr>dg_icache := ic\<rparr>))" "cache_inv s M K (d\<lparr>dg_icache := ic\<rparr>)"
  | (queued) d' where "bd_id b \<notin> K" "set (needs (dg_self d) b) \<subseteq> K" "dg_processBlock s b d = Ok (True, d')"
    "cache_inv s M (insert (bd_id b) K) d'" "dg_blocks d' = dg_blocks d @ [b]" "dg_await d' = dg_await d"
    "dg_pending d' = dg_pending d" "dg_self d' = dg_self d" "dg_in d' = dg_in d"
proof -
  obtain ic where ic: "dg_isIncluded s (bd_id b) d = Ok (bd_id b \<in> K, d\<lparr>dg_icache := ic\<rparr>)" "cache_inv s M K (d\<lparr>dg_icache := ic\<rparr>)"
    by (rule isIncluded_spec [OF inv])
  show thesis
  proof (cases "bd_id b \<in> K")
    case True
    with ic show ?thesis by (intro known) (auto simp: dg_processBlock_def)
  next
    case False
    let ?xs = "filter (\<lambda>x. x \<notin> K) (needs (dg_self d) b)"
    from check_deps_spec [OF ic(2) pr(1), of "needs (dg_self d) b" "[]"] pr(2) obtain jc where
      jc: "ofold (check_dep s (bd_id b)) (needs (dg_self d) b) ([], d\<lparr>dg_icache := ic\<rparr>) = Ok (?xs, d\<lparr>dg_icache := jc\<rparr>)"
      "cache_inv s M K (d\<lparr>dg_icache := jc\<rparr>)" by auto
    show ?thesis
    proof (cases "?xs = []")
      case True
      show ?thesis
      proof (rule queued [OF False])
        show "set (needs (dg_self d) b) \<subseteq> K" using True by (auto simp: filter_empty_conv)
        let ?d = "(markIncluded (bd_id b) (d\<lparr>dg_icache := jc\<rparr>))\<lparr>dg_blocks := dg_blocks d @ [b]\<rparr>"
        show "dg_processBlock s b d = Ok (True, ?d)"
          using ic(1) jc(1) False True by (simp add: dg_processBlock_def markIncluded_def Let_def)
        show "cache_inv s M (insert (bd_id b) K) ?d"
          using jc(2) False by (auto simp: cache_inv_def markIncluded_def gomap_simps)
      qed (simp_all add: markIncluded_def)
    next
      case N: False
      show ?thesis by (rule waits [OF False refl N _ jc(2)]) (use ic(1) jc(1) False N in \<open>simp add: dg_processBlock_def\<close>)
    qed
  qed
qed

end
