(* ===== verification/BcCausal.thy ===== *)
theory BcCausal
  imports BcDepgraph
begin

text \<open>
  The work loop of the dependency graph (\<open>broadcast/depgraph.go\<close>) always ends, never follows a
  missing entry, queues blocks only after everything they refer to, and leaves no block waiting
  whose references are all included. \<open>D\<close> gives the references of a block from its identifier, which
  contains the hash of the block.
\<close>

section \<open>Causal lists\<close>

fun causal :: "u64 \<Rightarrow> BlockID set \<Rightarrow> blockData list \<Rightarrow> bool" where
  "causal self K [] = True"
| "causal self K (b # bs) = (bd_id b \<notin> K \<and> set (needs self b) \<subseteq> K \<and> causal self (insert (bd_id b) K) bs)"

lemma causal_append: "causal self K (xs @ ys) \<longleftrightarrow> causal self K xs \<and> causal self (K \<union> bd_id ` set xs) ys"
  by (induction xs arbitrary: K) (auto simp: insert_commute)

lemma causal_distinct: "causal self K bs \<Longrightarrow> distinct (map bd_id bs) \<and> bd_id ` set bs \<inter> K = {}"
proof (induction bs arbitrary: K)
  case (Cons b bs)
  from Cons.IH [of "insert (bd_id b) K"] Cons.prems show ?case by auto
qed simp

section \<open>Waiting blocks\<close>

type_synonym aw_fun = "BlockID \<Rightarrow> BlockID list"
type_synonym pd_fun = "BlockID \<Rightarrow> blockData option"

definition blk_ok :: "u64 \<Rightarrow> (BlockID \<Rightarrow> BlockID list) \<Rightarrow> blockData \<Rightarrow> bool" where
  "blk_ok self D b \<longleftrightarrow> needs self b = D (bd_id b) \<and> printable (bd_id b) \<and> list_all printable (D (bd_id b))"

definition wait_inv :: "u64 \<Rightarrow> (BlockID \<Rightarrow> BlockID list) \<Rightarrow> BlockID set \<Rightarrow> BlockID list \<Rightarrow> aw_fun \<Rightarrow> pd_fun \<Rightarrow> bool" where
  "wait_inv self D K Q aw pd \<longleftrightarrow>
     (\<forall>i b. pd i = Some b \<longrightarrow> bd_id b = i \<and> blk_ok self D b) \<and>
     (\<forall>x. \<forall>i \<in> set (aw x). i \<in> dom pd \<and> x \<in> set (D i)) \<and>
     (\<forall>x. aw x \<noteq> [] \<longrightarrow> x \<notin> K \<or> x \<in> set Q) \<and>
     (\<forall>i \<in> dom pd. i \<notin> K \<longrightarrow> (\<forall>x \<in> set (D i). x \<notin> K \<longrightarrow> i \<in> set (aw x))) \<and>
     (\<forall>x. \<forall>i \<in> set (aw x). i \<in> set Q \<longrightarrow> x \<in> set (takeWhile (\<lambda>y. y \<noteq> i) Q)) \<and>
     (\<forall>i \<in> dom pd. i \<in> K \<longrightarrow> set (D i) \<subseteq> K) \<and> set Q \<subseteq> K"

lemma wait_invD:
  assumes "wait_inv self D K Q aw pd"
  shows "pd i = Some b \<Longrightarrow> bd_id b = i \<and> blk_ok self D b"
    and "i \<in> set (aw x) \<Longrightarrow> i \<in> dom pd \<and> x \<in> set (D i)"
    and "aw x \<noteq> [] \<Longrightarrow> x \<in> K \<Longrightarrow> x \<in> set Q"
    and "i \<in> dom pd \<Longrightarrow> i \<notin> K \<Longrightarrow> x \<in> set (D i) \<Longrightarrow> x \<notin> K \<Longrightarrow> i \<in> set (aw x)"
    and "i \<in> set (aw x) \<Longrightarrow> i \<in> set Q \<Longrightarrow> x \<in> set (takeWhile (\<lambda>y. y \<noteq> i) Q)"
    and "i \<in> dom pd \<Longrightarrow> i \<in> K \<Longrightarrow> set (D i) \<subseteq> K" and "set Q \<subseteq> K"
  using assms unfolding wait_inv_def by simp_all

lemma wait_invI:
  assumes "\<And>i b. pd i = Some b \<Longrightarrow> bd_id b = i \<and> blk_ok self D b"
    and "\<And>i x. i \<in> set (aw x) \<Longrightarrow> i \<in> dom pd \<and> x \<in> set (D i)"
    and "\<And>x. aw x \<noteq> [] \<Longrightarrow> x \<in> K \<Longrightarrow> x \<in> set Q"
    and "\<And>i x. i \<in> dom pd \<Longrightarrow> i \<notin> K \<Longrightarrow> x \<in> set (D i) \<Longrightarrow> x \<notin> K \<Longrightarrow> i \<in> set (aw x)"
    and "\<And>i x. i \<in> set (aw x) \<Longrightarrow> i \<in> set Q \<Longrightarrow> x \<in> set (takeWhile (\<lambda>y. y \<noteq> i) Q)"
    and "\<And>i. i \<in> dom pd \<Longrightarrow> i \<in> K \<Longrightarrow> set (D i) \<subseteq> K" and "set Q \<subseteq> K"
  shows "wait_inv self D K Q aw pd"
  unfolding wait_inv_def using assms by simp

lemma takeWhile_snoc: "set (takeWhile P xs) \<subseteq> set (takeWhile P (xs @ ys))"
  by (induction xs) auto

lemma takeWhile_notin: "i \<notin> set xs \<Longrightarrow> takeWhile (\<lambda>y. y \<noteq> i) (xs @ ys) = xs @ takeWhile (\<lambda>y. y \<noteq> i) ys"
  by (induction xs) auto

text \<open>A waiting block whose references are all included joins the queue of processed blocks.\<close>

lemma wait_append:
  assumes w: "wait_inv self D K Q aw pd" and r: "r \<in> dom pd" "set (D r) \<subseteq> K" and K': "K' = insert r K"
  shows "wait_inv self D K' (Q @ [r]) aw pd"
proof (rule wait_invI)
  note W = wait_invD [OF w]
  fix i x
  show "i \<in> set (aw x) \<Longrightarrow> i \<in> dom pd \<and> x \<in> set (D i)" by (rule W(2))
  show "pd i = Some b \<Longrightarrow> bd_id b = i \<and> blk_ok self D b" for b by (rule W(1))
  show "aw x \<noteq> [] \<Longrightarrow> x \<in> K' \<Longrightarrow> x \<in> set (Q @ [r])" using W(3) [of x] K' by auto
  show "i \<in> dom pd \<Longrightarrow> i \<notin> K' \<Longrightarrow> x \<in> set (D i) \<Longrightarrow> x \<notin> K' \<Longrightarrow> i \<in> set (aw x)" using W(4) [of i x] K' by simp
  show "i \<in> dom pd \<Longrightarrow> i \<in> K' \<Longrightarrow> set (D i) \<subseteq> K'" using W(6) [of i] r(2) K' by auto
  show "set (Q @ [r]) \<subseteq> K'" using W(7) K' by auto
  assume i: "i \<in> set (aw x)" "i \<in> set (Q @ [r])"
  show "x \<in> set (takeWhile (\<lambda>y. y \<noteq> i) (Q @ [r]))"
  proof (cases "i \<in> set Q")
    case True
    with W(5) [OF i(1)] takeWhile_snoc [of "\<lambda>y. y \<noteq> i" Q "[r]"] show ?thesis by blast
  next
    case False
    then have "i = r" using i(2) by simp
    then have "x \<in> K" using W(2) [OF i(1)] r(2) by blast
    with W(3) [of x] i(1) have "x \<in> set Q" by (cases "aw x") simp_all
    with False show ?thesis by (simp add: takeWhile_notin)
  qed
qed

text \<open>When all blocks that wait for the first processed one have been looked at, it is dropped.\<close>

lemma wait_pop:
  assumes w: "wait_inv self D K (n # Q) aw pd" and pd': "pd' = pd \<or> pd' = pd(n := None)"
  shows "wait_inv self D K Q (aw(n := [])) pd'"
proof (rule wait_invI)
  note W = wait_invD [OF w]
  have n: "n \<notin> set (aw y)" for y using W(5) [of n y] by auto
  have nK: "n \<in> K" "set Q \<subseteq> K" using W(7) by simp_all
  show "set Q \<subseteq> K" by (rule nK(2))
  have dom: "j \<in> dom pd' \<Longrightarrow> j \<in> dom pd" for j using pd' by (auto split: if_splits)
  fix i x
  show "pd' i = Some b \<Longrightarrow> bd_id b = i \<and> blk_ok self D b" for b using W(1) [of i b] pd' by (auto split: if_splits)
  show "(aw(n := [])) x \<noteq> [] \<Longrightarrow> x \<in> K \<Longrightarrow> x \<in> set Q" using W(3) [of x] by (auto split: if_splits)
  show "i \<in> dom pd' \<Longrightarrow> i \<notin> K \<Longrightarrow> x \<in> set (D i) \<Longrightarrow> x \<notin> K \<Longrightarrow> i \<in> set ((aw(n := [])) x)" using W(4) [of i x] dom [of i] nK by auto
  show "i \<in> dom pd' \<Longrightarrow> i \<in> K \<Longrightarrow> set (D i) \<subseteq> K" using W(6) [of i] dom [of i] by simp
  assume i: "i \<in> set ((aw(n := [])) x)"
  then have x: "x \<noteq> n" "i \<in> set (aw x)" by (auto split: if_splits)
  with n have "i \<noteq> n" by metis
  with W(2) [OF x(2)] pd' show "i \<in> dom pd' \<and> x \<in> set (D i)" by auto
  show "i \<in> set Q \<Longrightarrow> x \<in> set (takeWhile (\<lambda>y. y \<noteq> i) Q)" using W(5) [OF x(2)] \<open>i \<noteq> n\<close> x(1) by simp
qed

section \<open>Adding to the waiting blocks\<close>

lemma awaiting_update: "awaiting (d\<lparr>dg_await := m\<rparr>) y = (case map_of m y of None \<Rightarrow> [] | Some l \<Rightarrow> l)"
  by (simp add: awaiting_def)

lemma awaiting_mput: "awaiting (d\<lparr>dg_await := mput x l (dg_await d)\<rparr>) y = (if y = x then l else awaiting d y)"
  by (simp add: awaiting_update map_of_mput awaiting_def [of d])

lemma awaiting_mdel: "awaiting (d\<lparr>dg_await := mdel x (dg_await d)\<rparr>) = (awaiting d)(x := [])"
  by (rule ext) (simp add: awaiting_update map_of_mdel awaiting_def [of d])

lemma add_await_set: "set (awaiting (add_await i x d) y) = set (awaiting d y) \<union> (if y = x then {i} else {})"
proof (cases "map_of (dg_await d) x")
  case None
  then have "awaiting d x = []" by (simp only: awaiting_def option.case)
  with None show ?thesis by (simp add: add_await_def awaiting_mput)
next
  case (Some l)
  then have "awaiting d x = l" by (simp only: awaiting_def option.case)
  with Some show ?thesis by (auto simp add: add_await_def awaiting_mput)
qed

lemma add_await_again: "i \<in> set (awaiting d x) \<Longrightarrow> add_await i x d = d"
  by (cases "map_of (dg_await d) x") (auto simp: add_await_def awaiting_def)

lemma add_await_wf: "mwf (dg_await d) \<Longrightarrow> mwf (dg_await (add_await i x d))"
  by (cases "map_of (dg_await d) x") (auto simp: add_await_def)

lemma add_await_rest:
  "dg_pending (add_await i x d) = dg_pending d \<and> dg_blocks (add_await i x d) = dg_blocks d \<and> dg_in (add_await i x d) = dg_in d \<and>
   dg_self (add_await i x d) = dg_self d \<and> dg_tcache (add_await i x d) = dg_tcache d \<and> dg_icache (add_await i x d) = dg_icache d"
  by (cases "map_of (dg_await d) x") (auto simp: add_await_def)

lemmas add_await_spec = add_await_set add_await_again add_await_wf add_await_rest

lemma fold_await_set: "set (awaiting (fold (add_await i) xs d) y) = set (awaiting d y) \<union> (if y \<in> set xs then {i} else {})"
  by (induction xs arbitrary: d) (auto simp: add_await_spec)

lemma fold_await_again: "\<forall>x \<in> set xs. i \<in> set (awaiting d x) \<Longrightarrow> fold (add_await i) xs d = d"
  by (induction xs arbitrary: d) (auto simp: add_await_spec)

lemma fold_await_wf: "mwf (dg_await d) \<Longrightarrow> mwf (dg_await (fold (add_await i) xs d))"
  by (induction xs arbitrary: d) (auto simp: add_await_spec)

lemma fold_await_rest:
  "dg_pending (fold (add_await i) xs d) = dg_pending d \<and> dg_blocks (fold (add_await i) xs d) = dg_blocks d \<and>
   dg_in (fold (add_await i) xs d) = dg_in d \<and> dg_self (fold (add_await i) xs d) = dg_self d \<and>
   dg_tcache (fold (add_await i) xs d) = dg_tcache d \<and> dg_icache (fold (add_await i) xs d) = dg_icache d"
  by (induction xs arbitrary: d) (auto simp: add_await_spec)

lemmas fold_await_spec = fold_await_set fold_await_wf fold_await_rest

lemma awaiting_pending [simp]:
  "awaiting (d\<lparr>dg_pending := p\<rparr>) = awaiting d" "awaiting (d\<lparr>dg_icache := ic\<rparr>) = awaiting d" "awaiting (d\<lparr>dg_in := l\<rparr>) = awaiting d"
  by (auto simp: awaiting_def fun_eq_iff)

lemma addPending_again:
  assumes "\<forall>x \<in> set xs. bd_id b \<in> set (awaiting d x)"
  shows "addPending b xs d = d\<lparr>dg_pending := mput (bd_id b) b (dg_pending d)\<rparr>"
  using assms by (simp add: addPending_def fold_await_again)

lemma cache_inv_cong:
  "dg_tcache d' = dg_tcache d \<Longrightarrow> dg_icache d' = dg_icache d \<Longrightarrow> cache_inv s M K d' = cache_inv s M K d"
  by (simp add: cache_inv_def)

section \<open>The work loop\<close>

definition has_missing :: "BlockID set \<Rightarrow> (BlockID \<Rightarrow> BlockID list) \<Rightarrow> BlockID \<Rightarrow> bool" where
  "has_missing K D i \<longleftrightarrow> (\<exists>x \<in> set (D i). x \<notin> K)"

definition queue_grows :: "u64 \<Rightarrow> BlockID set \<Rightarrow> depgraph \<Rightarrow> BlockID set \<Rightarrow> depgraph \<Rightarrow> bool" where
  "queue_grows self K d K' d' \<longleftrightarrow> (\<exists>new. dg_blocks d' = dg_blocks d @ new \<and> K' = K \<union> bd_id ` set new \<and> causal self K new) \<and>
     dg_in d' = dg_in d \<and> dom (map_of (dg_pending d)) \<subseteq> dom (map_of (dg_pending d')) \<union> K'"

lemma queue_grows_refl: "dg_blocks d' = dg_blocks d \<Longrightarrow> dg_in d' = dg_in d \<Longrightarrow>
    dom (map_of (dg_pending d)) \<subseteq> dom (map_of (dg_pending d')) \<union> K \<Longrightarrow> queue_grows self K d K d'"
  unfolding queue_grows_def by simp

lemma queue_grows_trans: "queue_grows self K d K1 d1 \<Longrightarrow> queue_grows self K1 d1 K2 d2 \<Longrightarrow> queue_grows self K d K2 d2"
  unfolding queue_grows_def
proof (elim conjE exE, intro conjI)
  fix n1 n2
  assume "dg_blocks d1 = dg_blocks d @ n1" "K1 = K \<union> bd_id ` set n1" "causal self K n1"
    "dg_blocks d2 = dg_blocks d1 @ n2" "K2 = K1 \<union> bd_id ` set n2" "causal self K1 n2"
  then show "\<exists>new. dg_blocks d2 = dg_blocks d @ new \<and> K2 = K \<union> bd_id ` set new \<and> causal self K new"
    by (intro exI [of _ "n1 @ n2"]) (auto simp: causal_append)
qed auto

definition loop_inv :: "bstore \<Rightarrow> BlockID set \<Rightarrow> u64 \<Rightarrow> (BlockID \<Rightarrow> BlockID list) \<Rightarrow> BlockID set \<Rightarrow> BlockID list \<Rightarrow> depgraph \<Rightarrow> bool" where
  "loop_inv s M self D K Q d \<longleftrightarrow> cache_inv s M K d \<and> dg_self d = self \<and> mwf (dg_await d) \<and>
     wait_inv self D K Q (awaiting d) (map_of (dg_pending d))"

definition stuck_or :: "(BlockID \<Rightarrow> BlockID list) \<Rightarrow> BlockID set \<Rightarrow> BlockID set \<Rightarrow> BlockID set \<Rightarrow> depgraph \<Rightarrow> bool" where
  "stuck_or D K X L d \<longleftrightarrow> (\<forall>i \<in> dom (map_of (dg_pending d)). i \<notin> K \<longrightarrow>
     has_missing K D i \<or> (\<exists>x \<in> X. i \<in> set (awaiting d x)) \<or> i \<in> L)"

definition seen_ok :: "(BlockID \<Rightarrow> BlockID list) \<Rightarrow> BlockID set \<Rightarrow> (BlockID, bool) gomap \<Rightarrow> bool" where
  "seen_ok D K seen \<longleftrightarrow> (\<forall>i. map_of seen i = Some True \<longrightarrow> i \<in> K \<or> has_missing K D i)"

lemma stuck_orI:
  assumes "\<And>i. i \<in> dom (map_of (dg_pending d)) \<Longrightarrow> i \<notin> K \<Longrightarrow> has_missing K D i \<or> (\<exists>x \<in> X. i \<in> set (awaiting d x)) \<or> i \<in> L"
  shows "stuck_or D K X L d"
  using assms by (simp add: stuck_or_def)

lemma stuck_orD:
  assumes "stuck_or D K X L d" "i \<in> dom (map_of (dg_pending d))" "i \<notin> K"
  shows "has_missing K D i \<or> (\<exists>x \<in> X. i \<in> set (awaiting d x)) \<or> i \<in> L"
  using assms by (simp add: stuck_or_def)

text \<open>What one waiting block contributes.\<close>

lemma revdep_step_spec:
  assumes inv: "loop_inv s M self D K (n # Q) d" and st: "stuck_or D K (set Q - {n}) (set (r # L)) d" and sn: "seen_ok D K seen"
    and r: "r \<in> set (awaiting d n)"
  shows "\<exists>K' Q' seen' d'. revdep_step s r (Q, seen, d) = Ok (Q', seen', d') \<and> loop_inv s M self D K' (n # Q') d' \<and>
    stuck_or D K' (set Q' - {n}) (set L) d' \<and> seen_ok D K' seen' \<and> queue_grows self K d K' d' \<and> dg_await d' = dg_await d \<and> length Q' \<le> Suc (length Q)"
proof (cases "map_of seen r = Some True")
  case True
  have "stuck_or D K (set Q - {n}) (set L) d"
    by (rule stuck_orI) (use stuck_orD [OF st] sn True in \<open>auto simp: seen_ok_def\<close>)
  with True inv sn show ?thesis
    by (intro exI [of _ K] exI [of _ Q] exI [of _ seen] exI [of _ d]) (simp add: revdep_step_def queue_grows_refl)
next
  case False
  have w: "wait_inv self D K (n # Q) (awaiting d) (map_of (dg_pending d))" and c: "cache_inv s M K d" and self: "dg_self d = self"
    and wf: "mwf (dg_await d)" using inv by (simp_all add: loop_inv_def)
  note W = wait_invD [OF w]
  from W(2) [OF r] obtain b where b: "map_of (dg_pending d) r = Some b" by auto
  from W(1) [OF b] have bid: "bd_id b = r" "needs self b = D r" and pr: "printable (bd_id b)" "list_all printable (needs (dg_self d) b)"
    by (auto simp: blk_ok_def self)
  from c pr show ?thesis
  proof (cases rule: processBlock_spec)
    case (known ic)
    let ?d = "d\<lparr>dg_icache := ic\<rparr>"
    have D: "set (D r) \<subseteq> K" using W(6) [of r] b known(1) bid by auto
    have "wait_inv self D K ((n # Q) @ [r]) (awaiting d) (map_of (dg_pending d))"
      by (rule wait_append [OF w]) (use b known(1) bid(1) D in auto)
    then have l: "loop_inv s M self D K (n # Q @ [r]) ?d" using known(3) self wf by (simp add: loop_inv_def)
    have "stuck_or D K (set (Q @ [r]) - {n}) (set L) ?d"
      by (rule stuck_orI) (use stuck_orD [OF st] known(1) bid(1) in auto)
    with l show ?thesis using False b known(2)
      by (intro exI [of _ K] exI [of _ "Q @ [r]"] exI [of _ "[]"] exI [of _ ?d]) (simp add: revdep_step_def seen_ok_def queue_grows_refl)
  next
    case (waits ic xs)
    let ?d = "d\<lparr>dg_icache := ic, dg_pending := mput r b (dg_pending d)\<rparr>"
    have xs: "set xs = {x \<in> set (D r). x \<notin> K}" using waits(2) bid self by auto
    then have "\<forall>x \<in> set xs. bd_id b \<in> set (awaiting (d\<lparr>dg_icache := ic\<rparr>) x)"
      using W(4) [of r] b waits(1) bid(1) by auto
    then have ap: "addPending b xs (d\<lparr>dg_icache := ic\<rparr>) = ?d" using bid(1) by (simp add: addPending_again)
    have pd: "map_of (mput r b (dg_pending d)) = map_of (dg_pending d)" using b by (auto simp: gomap_simps)
    have m: "has_missing K D r" using waits(3) xs by (cases xs) (auto simp: has_missing_def)
    have "loop_inv s M self D K (n # Q) ?d"
      using waits(5) self wf w pd by (simp add: loop_inv_def cache_inv_cong [of ?d "d\<lparr>dg_icache := ic\<rparr>"])
    moreover have "stuck_or D K (set Q - {n}) (set L) ?d"
      by (rule stuck_orI) (use stuck_orD [OF st] m pd in auto)
    moreover have "seen_ok D K (mput r True seen)" using sn m by (simp add: seen_ok_def gomap_simps)
    ultimately show ?thesis using False b waits(4) ap pd
      by (intro exI [of _ K] exI [of _ Q] exI [of _ "mput r True seen"] exI [of _ ?d]) (simp add: revdep_step_def queue_grows_refl)
  next
    case (queued d')
    have D: "set (D r) \<subseteq> K" using queued(2) bid(2) self by simp
    have aw: "awaiting d' = awaiting d" using queued(6) by (simp add: awaiting_def fun_eq_iff)
    have "wait_inv self D (insert r K) ((n # Q) @ [r]) (awaiting d) (map_of (dg_pending d))"
      using wait_append [OF w _ D refl] b by auto
    then have l: "loop_inv s M self D (insert r K) (n # Q @ [r]) d'"
      using queued(4,6-8) self wf bid(1) aw by (simp add: loop_inv_def)
    have nK: "n \<in> K" "r \<notin> K" using W(7) queued(1) bid(1) by auto
    have "stuck_or D (insert r K) (set (Q @ [r]) - {n}) (set L) d'"
    proof (rule stuck_orI)
      fix i assume i: "i \<in> dom (map_of (dg_pending d'))" "i \<notin> insert r K"
      then have "has_missing K D i \<or> (\<exists>x \<in> set Q - {n}. i \<in> set (awaiting d x)) \<or> i \<in> set (r # L)"
        using stuck_orD [OF st, of i] queued(7) by simp
      moreover have "i \<in> set (awaiting d r)" if "has_missing K D i" "\<not> has_missing (insert r K) D i"
        using that W(4) [of i r] i queued(7) nK(2) unfolding has_missing_def by auto
      ultimately show "has_missing (insert r K) D i \<or> (\<exists>x \<in> set (Q @ [r]) - {n}. i \<in> set (awaiting d' x)) \<or> i \<in> set L"
        using nK i(2) aw by auto
    qed
    moreover have "queue_grows self K d (insert r K) d'"
      using queued(1,2,5,7,9) bid self unfolding queue_grows_def by (auto intro!: exI [of _ "[b]"])
    ultimately show ?thesis using False b queued(3,6) l
      by (intro exI [of _ "insert r K"] exI [of _ "Q @ [r]"] exI [of _ "[]"] exI [of _ d']) (simp add: revdep_step_def seen_ok_def)
  qed
qed

lemma revdeps_spec:
  assumes "loop_inv s M self D K (n # Q) d" "stuck_or D K (set Q - {n}) (set L) d" "seen_ok D K seen" "set L \<subseteq> set (awaiting d n)"
  shows "\<exists>K' Q' seen' d'. ofold (revdep_step s) L (Q, seen, d) = Ok (Q', seen', d') \<and> loop_inv s M self D K' (n # Q') d' \<and>
    stuck_or D K' (set Q' - {n}) {} d' \<and> seen_ok D K' seen' \<and> queue_grows self K d K' d' \<and> dg_await d' = dg_await d \<and> length Q' \<le> length Q + length L"
  using assms
proof (induction L arbitrary: K Q seen d)
  case Nil
  then show ?case by (intro exI [of _ K] exI [of _ Q] exI [of _ seen] exI [of _ d]) (simp add: queue_grows_refl)
next
  case (Cons r L)
  have "r \<in> set (awaiting d n)" using Cons.prems(4) by simp
  from revdep_step_spec [OF Cons.prems(1-3) this] obtain K1 Q1 seen1 d1 where
    1: "revdep_step s r (Q, seen, d) = Ok (Q1, seen1, d1)" "loop_inv s M self D K1 (n # Q1) d1"
      "stuck_or D K1 (set Q1 - {n}) (set L) d1" "seen_ok D K1 seen1" "queue_grows self K d K1 d1" "dg_await d1 = dg_await d" "length Q1 \<le> Suc (length Q)"
    by blast
  have "awaiting d1 n = awaiting d n" using 1(6) by (simp add: awaiting_def)
  then have "set L \<subseteq> set (awaiting d1 n)" using Cons.prems(4) by simp
  from Cons.IH [OF 1(2-4) this] obtain K2 Q2 seen2 d2 where
    2: "ofold (revdep_step s) L (Q1, seen1, d1) = Ok (Q2, seen2, d2)" "loop_inv s M self D K2 (n # Q2) d2"
      "stuck_or D K2 (set Q2 - {n}) {} d2" "seen_ok D K2 seen2" "queue_grows self K1 d1 K2 d2" "dg_await d2 = dg_await d1" "length Q2 \<le> length Q1 + length L"
    by blast
  have "queue_grows self K d K2 d2" by (rule queue_grows_trans [OF 1(5) 2(5)])
  then show ?case using 1(1,6,7) 2
    by (intro exI [of _ K2] exI [of _ Q2] exI [of _ seen2] exI [of _ d2]) simp
qed

definition await_size :: "depgraph \<Rightarrow> nat" where
  "await_size d = sum_list (map (\<lambda>e. length (snd e)) (dg_await d))"

lemma sum_mdel:
  "mwf m \<Longrightarrow> sum_list (map (\<lambda>e. length (snd e)) (mdel x m)) + length (case map_of m x of None \<Rightarrow> [] | Some l \<Rightarrow> l) =
     sum_list (map (\<lambda>e. length (snd e)) m)"
proof (induction m)
  case (Cons e m)
  obtain k l where e: "e = (k, l)" by (cases e)
  show ?case
  proof (cases "k = x")
    case True
    then have "mdel x m = m" using Cons.prems e by (intro mdel_notin) auto
    with True e show ?thesis by simp
  qed (use Cons e in auto)
qed simp

lemma release_returns:
  assumes "loop_inv s M self D K Q d" "stuck_or D K (set Q) {} d" "seen_ok D K seen"
  shows "\<exists>K' d'. release s Q seen first d = Some (Ok d') \<and> loop_inv s M self D K' [] d' \<and> stuck_or D K' {} {} d' \<and> queue_grows self K d K' d'"
  using assms
proof (induction "await_size d + length Q" arbitrary: K Q seen first d rule: less_induct)
  case less
  show ?case
  proof (cases Q)
    case Nil
    with less.prems show ?thesis
      by (intro exI [of _ K] exI [of _ d]) (simp add: release.simps queue_grows_refl)
  next
    case (Cons n Q0)
    have st: "stuck_or D K (set Q0 - {n}) (set (awaiting d n)) d"
      by (rule stuck_orI) (use stuck_orD [OF less.prems(2)] Cons in auto)
    from revdeps_spec [OF less.prems(1) [unfolded Cons] st less.prems(3) order_refl] obtain K1 Q1 seen1 d1 where
      1: "ofold (revdep_step s) (awaiting d n) (Q0, seen, d) = Ok (Q1, seen1, d1)" "loop_inv s M self D K1 (n # Q1) d1"
        "stuck_or D K1 (set Q1 - {n}) {} d1" "seen_ok D K1 seen1" "queue_grows self K d K1 d1" "dg_await d1 = dg_await d"
        "length Q1 \<le> length Q0 + length (awaiting d n)" by blast
    define d2 where "d2 = d1\<lparr>dg_await := mdel n (dg_await d1)\<rparr>"
    define d3 where "d3 = (if first then d2 else d2\<lparr>dg_pending := mdel n (dg_pending d2)\<rparr>)"
    have wf: "mwf (dg_await d1)" and w: "wait_inv self D K1 (n # Q1) (awaiting d1) (map_of (dg_pending d1))"
      and c: "cache_inv s M K1 d1" "dg_self d1 = self" using 1(2) by (simp_all add: loop_inv_def)
    have nK: "n \<in> K1" using wait_invD(7) [OF w] by simp
    have aw3: "awaiting d3 = (awaiting d1)(n := [])" by (simp add: d3_def d2_def awaiting_mdel)
    have pd3: "map_of (dg_pending d3) = map_of (dg_pending d1) \<or> map_of (dg_pending d3) = (map_of (dg_pending d1))(n := None)"
      by (simp add: d3_def d2_def map_of_mdel)
    have "cache_inv s M K1 d3" using c(1) cache_inv_cong [of d3 d1 s M K1] by (simp add: d3_def d2_def)
    then have l3: "loop_inv s M self D K1 Q1 d3"
      using wait_pop [OF w pd3] wf c(2) by (simp add: loop_inv_def aw3) (simp add: d3_def d2_def)
    have st3: "stuck_or D K1 (set Q1) {} d3"
    proof (rule stuck_orI)
      fix i assume i: "i \<in> dom (map_of (dg_pending d3))" "i \<notin> K1"
      then have "i \<in> dom (map_of (dg_pending d1))" using pd3 by (auto split: if_splits)
      from stuck_orD [OF 1(3) this i(2)] show "has_missing K1 D i \<or> (\<exists>x \<in> set Q1. i \<in> set (awaiting d3 x)) \<or> i \<in> {}"
        by (auto simp: aw3)
    qed
    have "await_size d3 + length (awaiting d n) = await_size d"
      using sum_mdel [OF wf, of n] 1(6) by (simp add: await_size_def d3_def d2_def awaiting_def)
    then have less': "await_size d3 + length Q1 < await_size d + length Q" using 1(7) Cons by simp
    from less.hyps [OF less' l3 st3 1(4), of False] obtain K2 d4 where
      4: "release s Q1 seen1 False d3 = Some (Ok d4)" "loop_inv s M self D K2 [] d4" "stuck_or D K2 {} {} d4" "queue_grows self K1 d3 K2 d4"
      by blast
    have "queue_grows self K1 d1 K1 d3" by (rule queue_grows_refl) (use pd3 nK in \<open>auto simp: d3_def d2_def map_of_mdel\<close>)
    then have "queue_grows self K d K2 d4" using 1(5) 4(4) queue_grows_trans by blast
    moreover have "release s Q seen first d = Some (Ok d4)"
      using 1(1) 4(1) [unfolded d3_def d2_def] Cons by (subst release.simps) (simp add: Let_def)
    ultimately show ?thesis using 4(2,3) by blast
  qed
qed

section \<open>A turn of the loop\<close>

definition idle_inv :: "bstore \<Rightarrow> BlockID set \<Rightarrow> u64 \<Rightarrow> (BlockID \<Rightarrow> BlockID list) \<Rightarrow> BlockID set \<Rightarrow> depgraph \<Rightarrow> bool" where
  "idle_inv s M self D K d \<longleftrightarrow> loop_inv s M self D K [] d \<and> stuck_or D K {} {} d"

lemma wait_first:
  assumes w: "wait_inv self D K [] aw pd" and r: "r \<in> dom pd \<Longrightarrow> set (D r) \<subseteq> K" and K': "K' = insert r K"
  shows "wait_inv self D K' [r] aw pd"
proof (rule wait_invI)
  note W = wait_invD [OF w]
  have no: "r \<notin> set (aw y)" for y
  proof
    assume y: "r \<in> set (aw y)"
    with W(2) r have "y \<in> K" by blast
    with W(3) [of y] y show False by (cases "aw y") simp_all
  qed
  fix i x
  show "i \<in> set (aw x) \<Longrightarrow> i \<in> dom pd \<and> x \<in> set (D i)" by (rule W(2))
  show "pd i = Some b \<Longrightarrow> bd_id b = i \<and> blk_ok self D b" for b by (rule W(1))
  show "aw x \<noteq> [] \<Longrightarrow> x \<in> K' \<Longrightarrow> x \<in> set [r]" using W(3) [of x] K' by auto
  show "i \<in> dom pd \<Longrightarrow> i \<notin> K' \<Longrightarrow> x \<in> set (D i) \<Longrightarrow> x \<notin> K' \<Longrightarrow> i \<in> set (aw x)" using W(4) [of i x] K' by simp
  show "i \<in> dom pd \<Longrightarrow> i \<in> K' \<Longrightarrow> set (D i) \<subseteq> K'" using W(6) [of i] r K' by auto
  show "set [r] \<subseteq> K'" using K' by simp
  show "i \<in> set (aw x) \<Longrightarrow> i \<in> set [r] \<Longrightarrow> x \<in> set (takeWhile (\<lambda>y. y \<noteq> i) [r])" using no by simp
qed

lemma wait_new:
  assumes w: "wait_inv self D K [] aw pd" and b: "blk_ok self D b" "bd_id b \<notin> K"
    and aw': "\<And>x. set (aw' x) = set (aw x) \<union> (if x \<in> set (D (bd_id b)) - K then {bd_id b} else {})"
  shows "wait_inv self D K [] aw' (pd(bd_id b \<mapsto> b))"
proof (rule wait_invI)
  note W = wait_invD [OF w]
  fix i x
  show "i \<in> set (aw' x) \<Longrightarrow> i \<in> dom (pd(bd_id b \<mapsto> b)) \<and> x \<in> set (D i)" using W(2) [of i x] by (auto simp: aw' split: if_splits)
  show "(pd(bd_id b \<mapsto> b)) i = Some c \<Longrightarrow> bd_id c = i \<and> blk_ok self D c" for c using W(1) [of i c] b(1) by (auto split: if_splits)
  show "aw' x \<noteq> [] \<Longrightarrow> x \<in> K \<Longrightarrow> x \<in> set []" using W(3) [of x] aw' [of x] by (cases "aw x") auto
  show "i \<in> dom (pd(bd_id b \<mapsto> b)) \<Longrightarrow> i \<notin> K \<Longrightarrow> x \<in> set (D i) \<Longrightarrow> x \<notin> K \<Longrightarrow> i \<in> set (aw' x)"
    using W(4) [of i x] by (auto simp: aw' split: if_splits)
  show "i \<in> dom (pd(bd_id b \<mapsto> b)) \<Longrightarrow> i \<in> K \<Longrightarrow> set (D i) \<subseteq> K" using W(6) [of i] b(2) by (auto split: if_splits)
qed simp_all

lemma map_of_take: "map_of (take n m) i = Some b \<Longrightarrow> map_of m i = Some b"
proof (induction m arbitrary: n)
  case (Cons e m)
  then show ?case by (cases n) (auto split: if_splits)
qed simp

lemma cache_inv_sub:
  assumes "cache_inv s M K d" "dg_tcache d' = dg_tcache d" "\<And>i b. map_of (dg_icache d') i = Some b \<Longrightarrow> map_of (dg_icache d) i = Some b"
  shows "cache_inv s M K d'"
  using assms(1) unfolding cache_inv_def assms(2) by (elim conjE, intro conjI) (use assms(3) in blast)+

lemma prune_keeps: "cache_inv s M K d \<Longrightarrow> cache_inv s M K ((prune_icache d)\<lparr>dg_in := l\<rparr>)"
  by (erule cache_inv_sub) (auto simp: prune_icache_def Let_def split: if_splits dest: map_of_take)

lemma prune_rest: "dg_await (prune_icache d) = dg_await d" "dg_pending (prune_icache d) = dg_pending d" "dg_blocks (prune_icache d) = dg_blocks d"
  "dg_self (prune_icache d) = dg_self d"
  by (simp_all add: prune_icache_def Let_def)

lemma process_turn_spec:
  assumes inv: "idle_inv s M self D K d" and b: "blk_ok self D info"
  shows "\<exists>K' d' new. process_turn s info rest d = Some (Ok d') \<and> idle_inv s M self D K' d' \<and> dg_in d' = rest \<and>
    dg_blocks d' = dg_blocks d @ new \<and> K' = K \<union> bd_id ` set new \<and> causal self K new \<and>
    dom (map_of (dg_pending d)) \<union> {bd_id info} \<subseteq> dom (map_of (dg_pending d')) \<union> K'"
proof -
  define d0 where "d0 = (prune_icache d)\<lparr>dg_in := rest\<rparr>"
  have c0: "cache_inv s M K d0" and w: "wait_inv self D K [] (awaiting d) (map_of (dg_pending d))" and wf: "mwf (dg_await d)"
    and self: "dg_self d0 = self" and st: "stuck_or D K {} {} d"
    using inv prune_keeps unfolding idle_inv_def loop_inv_def d0_def by (auto simp: prune_rest)
  note W = wait_invD [OF w]
  have d0: "awaiting d0 = awaiting d" "dg_pending d0 = dg_pending d" "dg_await d0 = dg_await d" "dg_blocks d0 = dg_blocks d" "dg_in d0 = rest"
    by (simp_all add: d0_def awaiting_def prune_rest fun_eq_iff)
  have pr: "printable (bd_id info)" "list_all printable (needs (dg_self d0) info)" using b by (simp_all add: blk_ok_def self)
  have D: "needs self info = D (bd_id info)" using b by (simp add: blk_ok_def)
  have finish: ?thesis if p: "dg_processBlock s info d0 = Ok (True, d1)" and l: "loop_inv s M self D K1 [bd_id info] d1"
    and st1: "stuck_or D K1 (set [bd_id info]) {} d1" and K1: "bd_id info \<in> K1" and g: "queue_grows self K d0 K1 d1" for K1 d1
  proof -
    have "seen_ok D K1 [(bd_id info, True)]" using K1 by (simp add: seen_ok_def)
    from release_returns [OF l st1 this, of True] obtain K2 d2 where
      2: "release s [bd_id info] [(bd_id info, True)] True d1 = Some (Ok d2)" "loop_inv s M self D K2 [] d2" "stuck_or D K2 {} {} d2" "queue_grows self K1 d1 K2 d2"
      by blast
    from queue_grows_trans [OF g 2(4)] obtain new where n: "dg_blocks d2 = dg_blocks d0 @ new" "K2 = K \<union> bd_id ` set new" "causal self K new"
      and r: "dg_in d2 = dg_in d0" "dom (map_of (dg_pending d0)) \<subseteq> dom (map_of (dg_pending d2)) \<union> K2"
      unfolding queue_grows_def by blast
    have "K1 \<subseteq> K2" using 2(4) unfolding queue_grows_def by blast
    then have "dom (map_of (dg_pending d)) \<union> {bd_id info} \<subseteq> dom (map_of (dg_pending d2)) \<union> K2" using r(2) K1 d0(2) by auto
    moreover have "process_turn s info rest d = Some (Ok d2)" using p 2(1) by (simp add: process_turn_def d0_def)
    ultimately show ?thesis using 2(2,3) n r(1) d0(4,5)
      by (intro exI [of _ K2] exI [of _ d2] exI [of _ new]) (simp add: idle_inv_def)
  qed
  from c0 pr show ?thesis
  proof (cases rule: processBlock_spec)
    case (known ic)
    let ?d = "d0\<lparr>dg_icache := ic\<rparr>"
    have "wait_inv self D K [bd_id info] (awaiting d) (map_of (dg_pending d))"
      by (rule wait_first [OF w]) (use W(6) known(1) in auto)
    then have "loop_inv s M self D K [bd_id info] ?d" using known(3) wf self by (simp add: loop_inv_def d0)
    moreover have "stuck_or D K (set [bd_id info]) {} ?d"
      by (rule stuck_orI) (use stuck_orD [OF st] d0 in auto)
    ultimately show ?thesis using known(1,2) by (intro finish [of ?d K]) (auto intro: queue_grows_refl)
  next
    case (queued d1)
    let ?i = "bd_id info"
    have "set (D ?i) \<subseteq> K" using queued(2) D self by simp
    then have "wait_inv self D (insert ?i K) [?i] (awaiting d) (map_of (dg_pending d))"
      by (intro wait_first [OF w]) simp_all
    moreover have aw: "awaiting d1 = awaiting d" using queued(6) d0 by (simp add: awaiting_def fun_eq_iff)
    ultimately have l: "loop_inv s M self D (insert ?i K) [?i] d1" using queued(4,6-8) wf self d0 by (simp add: loop_inv_def)
    have st1: "stuck_or D (insert ?i K) (set [?i]) {} d1"
    proof (rule stuck_orI)
      fix i assume i: "i \<in> dom (map_of (dg_pending d1))" "i \<notin> insert ?i K"
      then have "has_missing K D i" using stuck_orD [OF st, of i] queued(7) d0 by auto
      moreover have "i \<in> set (awaiting d ?i)" if "has_missing K D i" "\<not> has_missing (insert ?i K) D i"
        using that W(4) [of i ?i] i queued(1,7) d0 unfolding has_missing_def by auto
      ultimately show "has_missing (insert ?i K) D i \<or> (\<exists>x \<in> set [?i]. i \<in> set (awaiting d1 x)) \<or> i \<in> {}"
        using aw by auto
    qed
    have "queue_grows self K d0 (insert ?i K) d1"
      using queued(1,2,5,7,9) self unfolding queue_grows_def by (auto intro!: exI [of _ "[info]"])
    then show ?thesis by (intro finish [OF queued(3) l st1]) simp_all
  next
    case (waits ic xs)
    let ?i = "bd_id info"
    let ?d = "addPending info xs (d0\<lparr>dg_icache := ic\<rparr>)"
    have xs: "set xs = set (D ?i) - K" using waits(2) D self by auto
    have pd: "map_of (dg_pending ?d) = (map_of (dg_pending d))(?i \<mapsto> info)" by (simp add: addPending_def fold_await_rest d0 map_of_mput)
    have aw: "set (awaiting ?d x) = set (awaiting d x) \<union> (if x \<in> set (D ?i) - K then {?i} else {})" for x
      by (simp add: addPending_def fold_await_set d0 xs)
    have "wait_inv self D K [] (awaiting ?d) (map_of (dg_pending ?d))"
      unfolding pd by (rule wait_new [OF w b waits(1) aw])
    moreover have "cache_inv s M K ?d" using waits(5) by (subst cache_inv_cong) (simp_all add: addPending_def fold_await_rest)
    moreover have "mwf (dg_await ?d)" "dg_self ?d = self" using wf self d0 by (simp_all add: addPending_def fold_await_wf fold_await_rest)
    ultimately have l: "loop_inv s M self D K [] ?d" by (simp add: loop_inv_def)
    have m: "has_missing K D ?i" using waits(3) xs by (cases xs) (auto simp: has_missing_def)
    have "stuck_or D K {} {} ?d"
    proof (rule stuck_orI)
      fix i assume i: "i \<in> dom (map_of (dg_pending ?d))" "i \<notin> K"
      then show "has_missing K D i \<or> (\<exists>x \<in> {}. i \<in> set (awaiting ?d x)) \<or> i \<in> {}"
        using m stuck_orD [OF st, of i] by (cases "i = ?i") (auto simp: pd)
    qed
    with l show ?thesis using waits(4) pd
      by (intro exI [of _ K] exI [of _ ?d] exI [of _ "[]"])
        (auto simp: process_turn_def d0_def [symmetric] idle_inv_def addPending_def fold_await_rest d0)
  qed
qed

section \<open>The blocks held\<close>

definition held :: "depgraph \<Rightarrow> blockData set" where
  "held d = set (dg_blocks d) \<union> ran (map_of (dg_pending d))"

lemma held_isIncluded: "dg_isIncluded s i d = Ok (b, d') \<Longrightarrow> held d' = held d"
  by (auto simp: dg_isIncluded_def held_def split: option.splits outcome.splits)

lemma held_check_deps: "ofold (check_dep s i) xs (acc, d) = Ok (acc', d') \<Longrightarrow> held d' = held d"
proof (induction xs arbitrary: acc d)
  case (Cons x xs)
  then obtain acc1 d1 where 1: "check_dep s i x (acc, d) = Ok (acc1, d1)" "ofold (check_dep s i) xs (acc1, d1) = Ok (acc', d')"
    by (auto simp: obind_eq_Ok)
  have "held d1 = held d" using 1(1) by (auto simp: check_dep_def obind_eq_Ok dest: held_isIncluded split: if_splits)
  with Cons.IH [OF 1(2)] show ?case by simp
qed simp

lemma ran_mput: "ran (map_of (mput k v m)) \<subseteq> insert v (ran (map_of m))"
  by (auto simp: map_of_mput ran_def)

lemma held_processBlock: "dg_processBlock s b d = Ok (ok, d') \<Longrightarrow> held d' \<subseteq> insert b (held d)"
proof -
  assume "dg_processBlock s b d = Ok (ok, d')"
  then obtain inc d1 where 1: "dg_isIncluded s (bd_id b) d = Ok (inc, d1)"
    "inc \<and> d' = d1 \<or> (\<exists>deps d2. ofold (check_dep s (bd_id b)) (needs (dg_self d1) b) ([], d1) = Ok (deps, d2) \<and>
       (d' = addPending b deps d2 \<or> d' = (markIncluded (bd_id b) d2)\<lparr>dg_blocks := dg_blocks d2 @ [b]\<rparr>))"
    by (auto simp: dg_processBlock_def obind_eq_Ok Let_def markIncluded_def split: if_splits)
  have "held (addPending b deps d2) \<subseteq> insert b (held d2)" for deps d2
    using ran_mput by (fastforce simp: held_def addPending_def fold_await_rest)
  moreover have "held ((markIncluded (bd_id b) d2)\<lparr>dg_blocks := dg_blocks d2 @ [b]\<rparr>) = insert b (held d2)" for d2
    by (auto simp: held_def markIncluded_def)
  ultimately show ?thesis using 1(2) held_isIncluded [OF 1(1)] held_check_deps [of s "bd_id b"] by fastforce
qed

lemma held_revdeps: "ofold (revdep_step s) xs (processed, seen, d) = Ok (processed', seen', d') \<Longrightarrow> held d' \<subseteq> held d"
proof (induction xs arbitrary: processed seen d)
  case (Cons x xs)
  then obtain p1 s1 d1 where 1: "revdep_step s x (processed, seen, d) = Ok (p1, s1, d1)"
    "ofold (revdep_step s) xs (p1, s1, d1) = Ok (processed', seen', d')" by (auto simp: obind_eq_Ok)
  have "held d1 \<subseteq> held d"
  proof (cases "map_of seen x = Some True")
    case False
    with 1(1) obtain b ok where b: "map_of (dg_pending d) x = Some b" "dg_processBlock s b d = Ok (ok, d1)"
      by (auto simp: revdep_step_def obind_eq_Ok split: option.splits if_splits)
    then have "b \<in> held d" by (auto simp: held_def ran_def)
    with held_processBlock [OF b(2)] show ?thesis by auto
  qed (use 1(1) in \<open>simp add: revdep_step_def\<close>)
  with Cons.IH [OF 1(2)] show ?case by blast
qed simp

lemma held_release: "release s processed seen first d = Some r \<Longrightarrow> \<forall>d'. r = Ok d' \<longrightarrow> held d' \<subseteq> held d"
proof (rule release.raw_induct [where P = "\<lambda>s processed seen first d r. \<forall>d'. r = Ok d' \<longrightarrow> held d' \<subseteq> held d"])
  fix f :: "bstore \<Rightarrow> BlockID list \<Rightarrow> (BlockID, bool) gomap \<Rightarrow> bool \<Rightarrow> depgraph \<Rightarrow> depgraph may_panic option"
    and s processed seen first d r
  assume IH: "\<And>s processed seen first d r. f s processed seen first d = Some r \<Longrightarrow> \<forall>d'. r = Ok d' \<longrightarrow> held d' \<subseteq> held d"
    and r: "(case processed of [] \<Rightarrow> Some (Ok d)
      | nxt # rest \<Rightarrow>
          (case ofold (revdep_step s) (awaiting d nxt) (rest, seen, d) of
             Ok (processed', seen', d1) \<Rightarrow>
               (let d2 = d1\<lparr>dg_await := mdel nxt (dg_await d1)\<rparr>;
                    d3 = (if first then d2 else d2\<lparr>dg_pending := mdel nxt (dg_pending d2)\<rparr>)
                in f s processed' seen' False d3)
           | Err e \<Rightarrow> Some (Err e)
           | Panic r \<Rightarrow> Some (Panic r))) = Some r"
  have del: "held (if first then d1\<lparr>dg_await := m\<rparr> else d1\<lparr>dg_await := m, dg_pending := mdel nxt (dg_pending d1)\<rparr>) \<subseteq> held d1" for d1 m nxt
    by (auto simp: held_def map_of_mdel ran_def split: if_splits)
  show "\<forall>d'. r = Ok d' \<longrightarrow> held d' \<subseteq> held d"
  proof (intro allI impI)
    fix d' assume d': "r = Ok d'"
    show "held d' \<subseteq> held d"
    proof (cases processed)
      case Nil
      with r d' show ?thesis by simp
    next
      case (Cons nxt rest)
      with r d' obtain processed' seen' d1 where 1: "ofold (revdep_step s) (awaiting d nxt) (rest, seen, d) = Ok (processed', seen', d1)"
        by (auto split: outcome.splits)
      with r d' Cons have "f s processed' seen' False (if first then d1\<lparr>dg_await := mdel nxt (dg_await d1)\<rparr>
          else d1\<lparr>dg_await := mdel nxt (dg_await d1), dg_pending := mdel nxt (dg_pending d1)\<rparr>) = Some (Ok d')"
        by (simp add: Let_def cong: if_cong)
      from IH [OF this] del held_revdeps [OF 1] show ?thesis by blast
    qed
  qed
qed

lemma held_turn: "process_turn s b rest d = Some (Ok d') \<Longrightarrow> held d' \<subseteq> insert b (held d)"
proof -
  assume t: "process_turn s b rest d = Some (Ok d')"
  then obtain ok d1 where 1: "dg_processBlock s b ((prune_icache d)\<lparr>dg_in := rest\<rparr>) = Ok (ok, d1)"
    by (auto simp: process_turn_def split: outcome.splits)
  have "held d' \<subseteq> held d1" using t 1 held_release by (fastforce simp: process_turn_def split: if_splits)
  moreover have "held ((prune_icache d)\<lparr>dg_in := rest\<rparr>) = held d" by (simp add: held_def prune_rest)
  ultimately show ?thesis using held_processBlock [OF 1] by auto
qed

end
