(* ===== verification/BcCache.thy ===== *)
theory BcCache
  imports BcStore
begin

text \<open>
  \<open>broadcast/cache.go\<close>: the recent blocks of this node, and for every peer the latest round received
  and the round up to which nothing is missing. The mutexes are the atomicity of the definitions.
\<close>

section \<open>Operations\<close>

record ownBlocks =
  ob_data :: "(u64, SignedData) gomap"
  ob_latest :: u64

definition ob_get :: "u64 \<Rightarrow> ownBlocks \<Rightarrow> SignedData option" where
  "ob_get round ob = map_of (ob_data ob) round"

definition ob_prune :: "nat \<Rightarrow> ownBlocks \<Rightarrow> ownBlocks" where
  "ob_prune sz ob =
     (if length (ob_data ob) \<le> sz then ob
      else let limit = ob_latest ob - of_nat sz in ob\<lparr>ob_data := mkeep (\<lambda>round. round \<ge> limit) (ob_data ob)\<rparr>)"

definition ob_set :: "u64 \<Rightarrow> SignedData \<Rightarrow> ownBlocks \<Rightarrow> ownBlocks" where
  "ob_set round block ob = ob\<lparr>ob_data := mput round block (ob_data ob), ob_latest := round\<rparr>"

type_synonym receivedMap = "(u64, receivedInfo) gomap"

definition rm_get :: "u64 \<Rightarrow> receivedMap \<Rightarrow> receivedInfo" where
  "rm_get nodeID r = (case map_of r nodeID of None \<Rightarrow> \<lparr>latest = 0, sequence = 0\<rparr> | Some info \<Rightarrow> info)"

definition rm_set :: "u64 \<Rightarrow> u64 \<Rightarrow> receivedMap \<Rightarrow> receivedMap" where
  "rm_set nodeID round r =
     (let info = rm_get nodeID r;
          info1 = (if latest info < round then info\<lparr>latest := round\<rparr> else info);
          info2 = (if sequence info1 + 1 = round then info1\<lparr>sequence := round\<rparr> else info1)
      in mput nodeID info2 r)"

definition rm_setSequence :: "u64 \<Rightarrow> u64 \<Rightarrow> receivedMap \<Rightarrow> receivedMap" where
  "rm_setSequence nodeID round r = mput nodeID ((rm_get nodeID r)\<lparr>sequence := round\<rparr>) r"

end
