(* ===== verification/BcService.thy ===== *)
theory BcService
  imports BcCache BcDepgraph BmGraph ServiceMsg
begin

text \<open>
  The broadcast service of a node (\<open>broadcast/broadcast.go\<close>): block
  production, the handlers for messages of peers, validation of received blocks, the bookkeeping of
  what peers have sent and received, delivery to the registered callback, and reloading at start-up.
  The blocking loops appear as their single turns. Message encoders, signing and the keys of the
  nodes are parameters.
\<close>

section \<open>Parameters and state\<close>

record bcfg =
  c_codec :: bcodec
  c_keys :: "(u64, bytes \<Rightarrow> bytes \<Rightarrow> bool) gomap"
  c_sign :: "bytes \<Rightarrow> bytes"
  c_nodeID :: u64
  c_peers :: "u64 list"
  c_totalNodes :: u64
  c_maxPayload :: int
  c_refSizeLimit :: int
  c_txSizeLimit :: nat
  uList :: "bytes \<Rightarrow> SignedData list option"
  mList :: "SignedData option list \<Rightarrow> bytes option"
  uGetBlocks :: "bytes \<Rightarrow> BlockReference list option"
  uGetRounds :: "bytes \<Rightarrow> u64 list option"
  mAck :: "u64 \<Rightarrow> bytes option"

text \<open>The block under construction, between its steps.\<close>

record gen =
  gn_round :: u64
  gn_block :: Block
  gn_refs :: "blockData list"
  gn_signed :: SignedData
  gn_blockRef :: SignedData
  gn_graph :: BlockGraph

record svc =
  v_cb :: bool
  v_delivered :: "(u64 \<times> SignedData list) list"
  v_depgraph :: depgraph
  v_graph :: graph
  v_interpreted :: u64
  v_own :: ownBlocks
  v_prevhash :: bytes
  v_prevref :: "SignedData option"
  v_received :: receivedMap
  v_round :: u64
  v_sent :: "(u64, u64) gomap"
  v_store :: bstore
  v_tx :: txbuf
  v_txCountLimit :: int

definition maxBlocks :: "bcfg \<Rightarrow> int" where
  "maxBlocks cfg = c_maxPayload cfg div (c_refSizeLimit cfg + int (c_txSizeLimit cfg) + 100)"

datatype bc_err = BcUnmarshal | BcMarshal | BcNoKey u64 | BcEncodeRef | BcBadSignature | BcNilPrevious | BcPrevSignature
  | BcPrevUnmarshal | BcPrevNode | BcPrevRound | BcRefUnmarshal nat | BcRefNoKey nat | BcRefSignature nat | BcRefSameNode nat
  | BcTooMany nat | BcUnknownOpcode u32 | BcStore bs_err

section \<open>Blocks of the store\<close>

definition svc_getBlock :: "bcfg \<Rightarrow> BlockReference \<Rightarrow> svc \<Rightarrow> SignedData option may_panic" where
  "svc_getBlock cfg ref v =
     (case getBlock (c_codec cfg) (ref_id ref) (v_store v) of
        Ok b \<Rightarrow> Ok (Some b) | Err _ \<Rightarrow> Ok None | Panic r \<Rightarrow> Panic r)"

definition svc_getBlocks :: "bcfg \<Rightarrow> BlockID list \<Rightarrow> svc \<Rightarrow> SignedData list may_panic" where
  "svc_getBlocks cfg ids v =
     (case getBlocks (c_codec cfg) ids (v_store v) of Ok bs \<Rightarrow> Ok bs | Err _ \<Rightarrow> Panic LogFatal | Panic r \<Rightarrow> Panic r)"

definition svc_getOwnBlock :: "bcfg \<Rightarrow> u64 \<Rightarrow> svc \<Rightarrow> (bs_err, SignedData \<times> svc) outcome" where
  "svc_getOwnBlock cfg round v =
     (case ob_get round (v_own v) of
        Some block \<Rightarrow> Ok (block, v)
      | None \<Rightarrow> obind (getOwnBlock (c_codec cfg) round (v_store v)) (\<lambda>block.
          Ok (block, v\<lparr>v_own := ob_set round block (v_own v)\<rparr>)))"

definition svc_setBlock :: "bcfg \<Rightarrow> BlockID \<Rightarrow> SignedData \<Rightarrow> svc \<Rightarrow> svc bs_op" where
  "svc_setBlock cfg i block v = omap (\<lambda>s. v\<lparr>v_store := s\<rparr>) (store_setBlock (c_codec cfg) i block (v_store v))"

definition svc_setOwnBlock :: "bcfg \<Rightarrow> SignedData \<Rightarrow> SignedData \<Rightarrow> BlockGraph \<Rightarrow> svc \<Rightarrow> svc bs_op" where
  "svc_setOwnBlock cfg block blockRef graph v =
     (let v1 = v\<lparr>v_own := ob_set (Round (bg_Block graph)) block (v_own v)\<rparr> in
      omap (\<lambda>s. v1\<lparr>v_store := s\<rparr>) (store_setOwnBlock (c_codec cfg) block blockRef graph (v_store v1)))"

text \<open>The blocks to send to a peer (\<open>None\<close>: wait for the next one). The loop ends because every block
  counts at least 100 bytes towards the payload limit.\<close>

function unsent_loop :: "bcfg \<Rightarrow> u64 \<Rightarrow> u64 \<Rightarrow> u64 \<Rightarrow> int \<Rightarrow> SignedData list \<Rightarrow> svc \<Rightarrow> (SignedData list \<times> svc) may_panic" where
  "unsent_loop cfg i lst cur tot acc v =
     (if i \<le> cur then
        case svc_getOwnBlock cfg i v of
          Ok (block, v1) \<Rightarrow>
            (let tot' = tot + int (SignedData_Size block) in
             if tot' > c_maxPayload cfg then (if i = lst then Panic LogFatal else Ok (acc, v1))
             else unsent_loop cfg (i + 1) lst cur tot' (acc @ [block]) v1)
        | Err _ \<Rightarrow> Panic LogFatal
        | Panic r \<Rightarrow> Panic r
      else Ok (acc, v))"
  by pat_completeness auto
termination
  by (relation "measure (\<lambda>(cfg, i, lst, cur, tot, acc, v). nat (c_maxPayload cfg + 1 - tot))") (auto simp: SignedData_Size_def)

declare unsent_loop.simps [simp del]

definition getUnsent :: "bcfg \<Rightarrow> u64 \<Rightarrow> svc \<Rightarrow> (SignedData list \<times> svc) option may_panic" where
  "getUnsent cfg peerID v =
     (let cur = v_round v; lst = (case map_of (v_sent v) peerID of None \<Rightarrow> 0 | Some r \<Rightarrow> r) + 1 in
      if cur \<ge> lst then omap Some (unsent_loop cfg lst lst cur 0 [] v) else Ok None)"

definition markSent :: "u64 \<Rightarrow> u64 \<Rightarrow> svc \<Rightarrow> svc" where
  "markSent peerID round v = v\<lparr>v_sent := mput peerID round (v_sent v)\<rparr>"

section \<open>Received blocks\<close>

definition check_ref :: "bcfg \<Rightarrow> u64 \<Rightarrow> SignedData \<Rightarrow> nat \<times> BlockID list \<Rightarrow> (bc_err, nat \<times> BlockID list) outcome" where
  "check_ref cfg node sref st =
     (let i = fst st in
      case uRef (c_codec cfg) (sd_Data sref) of
        None \<Rightarrow> Err (BcRefUnmarshal i)
      | Some ref \<Rightarrow>
          (case map_of (c_keys cfg) (br_Node ref) of
             None \<Rightarrow> Err (BcRefNoKey i)
           | Some verify \<Rightarrow>
               if \<not> verify (sd_Data sref) (sd_Signature sref) then Err (BcRefSignature i)
               else if br_Node ref = node then Err (BcRefSameNode i)
               else Ok (Suc i, snd st @ [ref_id ref])))"

text \<open>The checks of \<open>processBlock\<close>: what is passed on for a good block.\<close>

definition check_prev :: "bcfg \<Rightarrow> (bytes \<Rightarrow> bytes \<Rightarrow> bool) \<Rightarrow> Block \<Rightarrow> (bc_err, BlockID) outcome" where
  "check_prev cfg verify block =
     (if bl_Round block = 1 then Ok zero_BlockID
      else case bl_Previous block of
        None \<Rightarrow> Err BcNilPrevious
      | Some p \<Rightarrow>
          if \<not> verify (sd_Data p) (sd_Signature p) then Err BcPrevSignature
          else case uRef (c_codec cfg) (sd_Data p) of
            None \<Rightarrow> Err BcPrevUnmarshal
          | Some prev \<Rightarrow>
              if br_Node prev \<noteq> bl_Node block then Err BcPrevNode
              else if br_Round prev + 1 \<noteq> bl_Round block then Err BcPrevRound
              else Ok (ref_id prev))"

definition check_block :: "bcfg \<Rightarrow> SignedData \<Rightarrow> (bc_err, blockData) outcome" where
  "check_block cfg sd =
     (case uBlock (c_codec cfg) (sd_Data sd) of
        None \<Rightarrow> Err BcUnmarshal
      | Some block \<Rightarrow>
          (case map_of (c_keys cfg) (bl_Node block) of
             None \<Rightarrow> Err (BcNoKey (bl_Node block))
           | Some verify \<Rightarrow>
               (let ref = \<lparr>br_Hash = csha (c_codec cfg) (sd_Data sd), br_Node = bl_Node block, br_Round = bl_Round block\<rparr> in
                case mRef (c_codec cfg) ref of
                  None \<Rightarrow> Err BcEncodeRef
                | Some enc \<Rightarrow>
                    if \<not> verify enc (sd_Signature sd) then Err BcBadSignature
                    else obind (check_prev cfg verify block) (\<lambda>prevID.
                      obind (ofold (check_ref cfg (bl_Node block)) (bl_References block) (0, [])) (\<lambda>(_, deps).
                        Ok \<lparr>bd_deps = deps, bd_id = ref_id ref, bd_prev = prevID,
                            bd_ref = \<lparr>sd_Data = enc, sd_Signature = sd_Signature sd\<rparr>\<rparr>)))))"

definition processBlock :: "bcfg \<Rightarrow> SignedData \<Rightarrow> svc \<Rightarrow> (bc_err, u64 \<times> svc) outcome" where
  "processBlock cfg sd v =
     obind (check_block cfg sd) (\<lambda>b.
       case svc_setBlock cfg (bd_id b) sd v of
         Ok v1 \<Rightarrow>
           (let v2 = v1\<lparr>v_depgraph := dg_add b (v_depgraph v1)\<rparr> in
            Ok (Round (bd_id b), v2\<lparr>v_received := rm_set (Node (bd_id b)) (Round (bd_id b)) (v_received v2)\<rparr>))
       | Err _ \<Rightarrow> Panic LogFatal
       | Panic r \<Rightarrow> Panic r)"

section \<open>Handlers\<close>

abbreviation (input) OP_ACK_BROADCAST :: u32 where "OP_ACK_BROADCAST \<equiv> 1"
abbreviation (input) OP_BROADCAST :: u32 where "OP_BROADCAST \<equiv> 2"
abbreviation (input) OP_GET_BLOCKS :: u32 where "OP_GET_BLOCKS \<equiv> 3"
abbreviation (input) OP_GET_ROUNDS :: u32 where "OP_GET_ROUNDS \<equiv> 4"
abbreviation (input) OP_LIST_BLOCKS :: u32 where "OP_LIST_BLOCKS \<equiv> 5"

definition bc_reply :: "u32 \<Rightarrow> bytes option \<Rightarrow> (bc_err, Message) outcome" where
  "bc_reply opcode d = (case d of None \<Rightarrow> Err BcMarshal
     | Some p \<Rightarrow> Ok \<lparr>msg_ID = 0, msg_Error = [], msg_Opcode = opcode, msg_Payload = p\<rparr>)"

text \<open>A handler keeps the changes of the blocks it accepted before it failed.\<close>

type_synonym bc_handled = "svc \<times> (bc_err, Message) outcome"

fun accept_all :: "bcfg \<Rightarrow> SignedData list \<Rightarrow> u64 \<Rightarrow> svc \<Rightarrow> svc \<times> (bc_err, u64) outcome" where
  "accept_all cfg [] lst v = (v, Ok lst)"
| "accept_all cfg (b # bs) lst v =
     (case processBlock cfg b v of
        Ok (round, v1) \<Rightarrow> accept_all cfg bs round v1
      | Err e \<Rightarrow> (v, Err e)
      | Panic r \<Rightarrow> (v, Panic r))"

definition handleBroadcastList :: "bcfg \<Rightarrow> Message \<Rightarrow> svc \<Rightarrow> bc_handled" where
  "handleBroadcastList cfg m v =
     (case uList cfg (msg_Payload m) of
        None \<Rightarrow> (v, Err BcUnmarshal)
      | Some bs \<Rightarrow> (let (v1, r) = accept_all cfg bs 0 v in (v1, obind r (\<lambda>lst. bc_reply OP_ACK_BROADCAST (mAck cfg lst)))))"

definition handleGetBlocks :: "bcfg \<Rightarrow> Message \<Rightarrow> svc \<Rightarrow> bc_handled" where
  "handleGetBlocks cfg m v =
     (case uGetBlocks cfg (msg_Payload m) of
        None \<Rightarrow> (v, Err BcUnmarshal)
      | Some refs \<Rightarrow>
          if int (length refs) > maxBlocks cfg then (v, Err (BcTooMany (length refs)))
          else (v, case omaps (\<lambda>ref. svc_getBlock cfg ref v) refs of
              Ok bs \<Rightarrow> bc_reply OP_LIST_BLOCKS (mList cfg bs) | Err _ \<Rightarrow> Err BcUnmarshal | Panic r \<Rightarrow> Panic r))"

fun own_rounds :: "bcfg \<Rightarrow> u64 list \<Rightarrow> SignedData list \<Rightarrow> svc \<Rightarrow> (SignedData list \<times> svc) may_panic" where
  "own_rounds cfg [] acc v = Ok (acc, v)"
| "own_rounds cfg (r # rs) acc v =
     (case svc_getOwnBlock cfg r v of
        Ok (b, v1) \<Rightarrow> own_rounds cfg rs (acc @ [b]) v1
      | Err _ \<Rightarrow> own_rounds cfg rs acc v
      | Panic x \<Rightarrow> Panic x)"

definition handleGetRounds :: "bcfg \<Rightarrow> Message \<Rightarrow> svc \<Rightarrow> bc_handled" where
  "handleGetRounds cfg m v =
     (case uGetRounds cfg (msg_Payload m) of
        None \<Rightarrow> (v, Err BcUnmarshal)
      | Some rounds \<Rightarrow>
          if int (length rounds) > maxBlocks cfg then (v, Err (BcTooMany (length rounds)))
          else case own_rounds cfg rounds [] v of
            Ok (bs, v1) \<Rightarrow> (v1, bc_reply OP_LIST_BLOCKS (mList cfg (map Some bs)))
          | Err _ \<Rightarrow> (v, Err BcUnmarshal)
          | Panic r \<Rightarrow> (v, Panic r))"

definition bc_Handle :: "bcfg \<Rightarrow> Message \<Rightarrow> svc \<Rightarrow> bc_handled" where
  "bc_Handle cfg m v =
     (if msg_Opcode m = OP_BROADCAST then handleBroadcastList cfg m v
      else if msg_Opcode m = OP_GET_BLOCKS then handleGetBlocks cfg m v
      else if msg_Opcode m = OP_GET_ROUNDS then handleGetRounds cfg m v
      else (v, Err (BcUnknownOpcode (msg_Opcode m))))"

section \<open>Filling gaps\<close>

text \<open>\<open>fillMissingBlocks\<close>: finding the rounds to ask for (\<open>None\<close>: nothing to ask now), and handling the
  answer of the peer, which gives the rounds to ask for next.\<close>

definition fill_request :: "bcfg \<Rightarrow> u64 \<Rightarrow> svc \<Rightarrow> ((u64 list \<times> u64) option \<times> svc) may_panic" where
  "fill_request cfg peerID v =
     (let info = rm_get peerID (v_received v) in
      if latest info = sequence info then Ok (None, v)
      else case getMissing peerID (sequence info) (maxBlocks cfg) (v_store v) of
        Ok (rounds, lat) \<Rightarrow>
          if rounds = [] then
            Ok (None, if lat \<noteq> sequence info \<and> lat \<noteq> 0 then v\<lparr>v_received := rm_setSequence peerID lat (v_received v)\<rparr> else v)
          else Ok (Some (rounds, lat), v)
      | Err _ \<Rightarrow> Panic LogFatal
      | Panic r \<Rightarrow> Panic r)"

fun accept_each :: "bcfg \<Rightarrow> SignedData list \<Rightarrow> u64 list \<Rightarrow> svc \<Rightarrow> (u64 list \<times> svc) may_panic" where
  "accept_each cfg [] seen v = Ok (seen, v)"
| "accept_each cfg (b # bs) seen v =
     (case processBlock cfg b v of
        Ok (round, v1) \<Rightarrow> accept_each cfg bs (List.insert round seen) v1
      | Err _ \<Rightarrow> accept_each cfg bs seen v
      | Panic r \<Rightarrow> Panic r)"

definition fill_response :: "bcfg \<Rightarrow> u64 \<Rightarrow> u64 list \<Rightarrow> u64 \<Rightarrow> SignedData list \<Rightarrow> svc \<Rightarrow> (u64 list \<times> svc) may_panic" where
  "fill_response cfg peerID rounds lat bs v =
     (if bs = [] then Ok (rounds, v)
      else obind (accept_each cfg bs [] v) (\<lambda>(seen, v1).
       let missing = filter (\<lambda>r. r \<notin> set seen) rounds;
           found_rounds = filter (\<lambda>r. r \<in> set seen) rounds;
           latestSeen = (if found_rounds = [] then 0 else last found_rounds);
           v2 = (if latestSeen \<noteq> 0 then
                   v1\<lparr>v_received := rm_setSequence peerID (if missing \<noteq> [] then lat else latestSeen) (v_received v1)\<rparr>
                 else v1)
       in Ok (missing, v2)))"

section \<open>Producing blocks\<close>

definition rate_step :: "(int \<Rightarrow> int) \<Rightarrow> int \<Rightarrow> int \<Rightarrow> bool \<Rightarrow> int \<Rightarrow> int" where
  "rate_step decrease initialRate rateIncr late rate =
     (if late then (let r = decrease rate in if r < initialRate then initialRate else r) else rate + rateIncr)"

definition set_rate :: "int \<Rightarrow> svc \<Rightarrow> svc" where
  "set_rate rate v = v\<lparr>v_txCountLimit := rate\<rparr>"

definition gen_build :: "bcfg \<Rightarrow> svc \<Rightarrow> (gen \<times> svc) may_panic" where
  "gen_build cfg v =
     (let round = v_round v + 1;
          (refs, dg) = dg_getBlocks (c_refSizeLimit cfg) (v_depgraph v);
          v1 = v\<lparr>v_depgraph := dg\<rparr> in
      obind (cut (v_tx v1)) (\<lambda>(txs, tx).
        let block = \<lparr>bl_Node = c_nodeID cfg, bl_Previous = v_prevref v1, bl_References = map bd_ref refs, bl_Round = round,
                     bl_Transactions = Some txs\<rparr> in
        obind (fatal (mBlock (c_codec cfg) block)) (\<lambda>bytes.
          let hash = csha (c_codec cfg) bytes in
          obind (fatal (mRef (c_codec cfg) \<lparr>br_Hash = hash, br_Node = c_nodeID cfg, br_Round = round\<rparr>)) (\<lambda>refData.
            let sig = c_sign cfg refData;
                graph = \<lparr>bg_Block = \<lparr>Hash = hash, Node = c_nodeID cfg, Round = round\<rparr>,
                         bg_Deps = map (\<lambda>ref. \<lparr>dep_Block = bd_id ref, dep_Deps = bd_deps ref, dep_Prev = bd_prev ref\<rparr>) refs,
                         bg_Prev = (if round \<noteq> 1 then \<lparr>Hash = v_prevhash v1, Node = c_nodeID cfg, Round = round - 1\<rparr> else zero_BlockID)\<rparr>
            in Ok (\<lparr>gn_round = round, gn_block = block, gn_refs = refs, gn_signed = \<lparr>sd_Data = bytes, sd_Signature = sig\<rparr>,
                    gn_blockRef = \<lparr>sd_Data = refData, sd_Signature = sig\<rparr>, gn_graph = graph\<rparr>, v1\<lparr>v_tx := tx\<rparr>)))))"

definition gen_store :: "bcfg \<Rightarrow> gen \<Rightarrow> svc \<Rightarrow> svc may_panic" where
  "gen_store cfg g v =
     (case svc_setOwnBlock cfg (gn_signed g) (gn_blockRef g) (gn_graph g) v of
        Ok v1 \<Rightarrow> Ok v1 | Err _ \<Rightarrow> Panic LogFatal | Panic r \<Rightarrow> Panic r)"

definition gen_include :: "gen \<Rightarrow> svc \<Rightarrow> svc" where
  "gen_include g v = v\<lparr>v_depgraph := fold (\<lambda>ref. actuallyIncluded (bd_id ref)) (gn_refs g) (v_depgraph v)\<rparr>"

text \<open>The last step waits (\<open>None\<close>) while the queue of the interpreter is full.\<close>

definition gen_finish :: "gen \<Rightarrow> svc \<Rightarrow> svc option" where
  "gen_finish g v =
     map_option (\<lambda>graph.
       let v1 = v\<lparr>v_graph := graph, v_prevhash := Hash (bg_Block (gn_graph g)), v_prevref := Some (gn_blockRef g), v_round := gn_round g\<rparr>
       in if gn_round g mod 50 = 0 then v1\<lparr>v_own := ob_prune 50 (v_own v1)\<rparr> else v1)
     (Add (gn_graph g) (v_graph v))"

section \<open>Delivery\<close>

definition blockmaniaCallback :: "bcfg \<Rightarrow> Interpreted \<Rightarrow> svc \<Rightarrow> svc may_panic" where
  "blockmaniaCallback cfg itp v =
     obind (case setInterpreted itp (v_store v) of Ok s \<Rightarrow> Ok (v\<lparr>v_store := s\<rparr>) | Err _ \<Rightarrow> Ok v | Panic r \<Rightarrow> Panic r) (\<lambda>v1.
       if \<not> v_cb v1 then Ok (v1\<lparr>v_interpreted := in_Round itp\<rparr>)
       else omap (\<lambda>bs. v1\<lparr>v_delivered := v_delivered v1 @ [(in_Round itp, bs)]\<rparr>) (svc_getBlocks cfg (in_Blocks itp) v1))"

definition Acknowledge :: "u64 \<Rightarrow> svc \<Rightarrow> svc" where
  "Acknowledge round v = (case setDeliverAcknowledged round (v_store v) of Ok s \<Rightarrow> v\<lparr>v_store := s\<rparr> | _ \<Rightarrow> v)"

definition or_default :: "'a \<Rightarrow> 'a bs_op \<Rightarrow> 'a may_panic" where
  "or_default x r = (case r of Ok y \<Rightarrow> Ok y | Err e \<Rightarrow> if e = BsBadger ErrKeyNotFound then Ok x else Panic LogFatal | Panic p \<Rightarrow> Panic p)"

text \<open>The rounds that \<open>Register\<close> replays, one call of the callback each.\<close>

partial_function (option) replay_rounds :: "bcfg \<Rightarrow> u64 \<Rightarrow> u64 \<Rightarrow> svc \<Rightarrow> svc may_panic option" where
  "replay_rounds cfg i lat v =
     (if i \<le> lat then
        case getInterpreted (c_codec cfg) i (v_store v) of
          Ok bs \<Rightarrow> replay_rounds cfg (i + 1) lat (v\<lparr>v_delivered := v_delivered v @ [(i, bs)]\<rparr>)
        | Err _ \<Rightarrow> Some (Panic LogFatal)
        | Panic r \<Rightarrow> Some (Panic r)
      else Some (Ok v))"

definition Register :: "bcfg \<Rightarrow> svc \<Rightarrow> svc may_panic option" where
  "Register cfg v =
     (if v_cb v then Some (Panic LogFatal)
      else let v1 = v\<lparr>v_cb := True\<rparr> in
        case or_default 0 (getDeliverAcknowledged (v_store v1)) of
          Ok ack \<Rightarrow> replay_rounds cfg (ack + 1) (v_interpreted v1) v1
        | Err e \<Rightarrow> Some (Err e)
        | Panic r \<Rightarrow> Some (Panic r))"

definition writeReceivedMap :: "svc \<Rightarrow> svc may_panic" where
  "writeReceivedMap v = (case setReceivedMap (v_received v) (v_store v) of Ok s \<Rightarrow> Ok (v\<lparr>v_store := s\<rparr>) | Err _ \<Rightarrow> Ok v | Panic r \<Rightarrow> Panic r)"

definition writeSentMap :: "svc \<Rightarrow> svc may_panic" where
  "writeSentMap v = (case setSentMap (v_sent v) (v_store v) of Ok s \<Rightarrow> Ok (v\<lparr>v_store := s\<rparr>) | Err _ \<Rightarrow> Ok v | Panic r \<Rightarrow> Panic r)"

section \<open>Starting up\<close>

text \<open>The graphs read back in batches, which are added to the interpreter in that order; those read before
  an error have been added.\<close>

partial_function (option) graph_batches :: "u64 \<Rightarrow> u64 \<Rightarrow> int \<Rightarrow> bstore \<Rightarrow> BlockGraph list \<Rightarrow> (BlockGraph list \<times> unit bs_op) option" where
  "graph_batches nodeID from_round batch s acc =
     (case getBlockGraphs nodeID from_round batch s of
        Ok gs \<Rightarrow>
          if int (length gs) < batch then Some (acc @ gs, Ok ())
          else graph_batches nodeID (from_round + of_int batch) batch s (acc @ gs)
      | Err e \<Rightarrow> Some (acc, Err e)
      | Panic r \<Rightarrow> Some (acc, Panic r))"

definition Replay :: "u64 \<Rightarrow> u64 \<Rightarrow> int \<Rightarrow> bstore \<Rightarrow> (BlockGraph list \<times> unit bs_op) option" where
  "Replay nodeID start batch s = graph_batches nodeID 0 batch s []"

definition replayGraphChanges :: "bcfg \<Rightarrow> u64 \<Rightarrow> svc \<Rightarrow> (svc \<times> BlockGraph list) may_panic option" where
  "replayGraphChanges cfg from_round v =
     (case getNotIncluded (c_codec cfg) (v_store v) of
        Ok bs \<Rightarrow>
          map_option (\<lambda>(gs, r). case r of Ok _ \<Rightarrow> Ok (v\<lparr>v_depgraph := fold dg_add bs (v_depgraph v)\<rparr>, gs)
              | Err _ \<Rightarrow> Panic LogFatal | Panic p \<Rightarrow> Panic p)
            (graph_batches (c_nodeID cfg) from_round 100 (v_store v) [])
      | Err _ \<Rightarrow> Some (Panic LogFatal)
      | Panic p \<Rightarrow> Some (Panic p))"

text \<open>The state of a service that starts on a store, before the blocks of the store are replayed.\<close>

definition loaded :: "bcfg \<Rightarrow> int \<Rightarrow> bstore \<Rightarrow> (u64 \<times> svc) may_panic" where
  "loaded cfg initialRate s =
     obind (or_default (0, [], None) (omap (\<lambda>(r, h, x). (r, h, Some x)) (getLastRoundData (c_codec cfg) s))) (\<lambda>(round, prevhash, prevref).
     obind (or_default (0, 0) (getLastInterpreted s)) (\<lambda>(interpreted, consumed).
     obind (or_default (map (\<lambda>p. (p, \<lparr>latest = 0, sequence = 0\<rparr>)) (remdups (c_peers cfg))) (getReceivedMap s)) (\<lambda>rmap.
     obind (or_default (map (\<lambda>p. (p, 0)) (remdups (c_peers cfg))) (getSentMap s)) (\<lambda>sent.
       Ok (consumed, \<lparr>v_cb = False, v_delivered = [], v_depgraph = new_depgraph (c_nodeID cfg),
         v_graph = New \<lparr>LastInterpreted = interpreted, Nodes = sort (c_nodeID cfg # c_peers cfg), SelfID = c_nodeID cfg, TotalNodes = c_totalNodes cfg\<rparr>,
         v_interpreted = interpreted, v_own = \<lparr>ob_data = [], ob_latest = 0\<rparr>, v_prevhash = prevhash, v_prevref = prevref, v_received = rmap,
         v_round = round, v_sent = sent, v_store = s, v_tx = new_txbuf (c_txSizeLimit cfg), v_txCountLimit = initialRate\<rparr>)))))"

definition loadState :: "bcfg \<Rightarrow> int \<Rightarrow> bstore \<Rightarrow> (svc \<times> BlockGraph list) may_panic option" where
  "loadState cfg initialRate s =
     (case loaded cfg initialRate s of
        Ok (consumed, v) \<Rightarrow> replayGraphChanges cfg consumed v
      | Err e \<Rightarrow> Some (Err e)
      | Panic r \<Rightarrow> Some (Panic r))"

end
