(* ===== verification/BcRun.thy ===== *)
theory BcRun
  imports BcCausal BcQueries BcService
begin

text \<open>
  The runs of a broadcast node (\<open>broadcast/broadcast.go\<close>, \<open>depgraph.go\<close>, \<open>store.go\<close>): its goroutines
  interleave in any order, and the node may crash at any point and start again on its store. Then
  what accepted blocks are, and the operations that only record progress.
\<close>

section \<open>Runs\<close>

text \<open>Where the goroutine that produces blocks stands; \<open>nd_made\<close> are the own blocks written to the store.\<close>

datatype stage = Idle | Built gen | Stored gen | Included gen

record bnode =
  nd_svc :: svc
  nd_stage :: stage
  nd_made :: "gen list"

definition listed :: "bcfg \<Rightarrow> Message \<Rightarrow> SignedData list" where
  "listed cfg m = (case uList cfg (msg_Payload m) of None \<Rightarrow> [] | Some bs \<Rightarrow> bs)"

text \<open>\<open>S\<close> are the signed blocks that peers send.\<close>

inductive bc_step :: "bcfg \<Rightarrow> SignedData set \<Rightarrow> bnode \<Rightarrow> bnode \<Rightarrow> bool" for cfg S where
  handle: "set (listed cfg m) \<subseteq> S \<Longrightarrow> bc_Handle cfg m (nd_svc n) = (v, r) \<Longrightarrow> \<forall>p. r \<noteq> Panic p \<Longrightarrow> bc_step cfg S n (n\<lparr>nd_svc := v\<rparr>)"
| ask: "fill_request cfg peer (nd_svc n) = Ok (x, v) \<Longrightarrow> bc_step cfg S n (n\<lparr>nd_svc := v\<rparr>)"
| filled: "set bs \<subseteq> S \<Longrightarrow> fill_response cfg peer rounds lat bs (nd_svc n) = Ok (x, v) \<Longrightarrow> bc_step cfg S n (n\<lparr>nd_svc := v\<rparr>)"
| unsent: "getUnsent cfg peer (nd_svc n) = Ok (Some (bs, v)) \<Longrightarrow> bc_step cfg S n (n\<lparr>nd_svc := v\<rparr>)"
| acked: "bc_step cfg S n (n\<lparr>nd_svc := markSent peer round (nd_svc n)\<rparr>)"
| transaction: "bc_AddTransaction (c_txSizeLimit cfg) (v_txCountLimit (nd_svc n)) tx fee (v_tx (nd_svc n)) = Ok (Added buf) \<Longrightarrow>
    bc_step cfg S n (n\<lparr>nd_svc := (nd_svc n)\<lparr>v_tx := buf\<rparr>\<rparr>)"
| turn: "dg_in (v_depgraph (nd_svc n)) = b # rest \<Longrightarrow>
    process_turn (v_store (nd_svc n)) b rest (v_depgraph (nd_svc n)) = Some (Ok d) \<Longrightarrow>
    bc_step cfg S n (n\<lparr>nd_svc := (nd_svc n)\<lparr>v_depgraph := d\<rparr>\<rparr>)"
| rate: "bc_step cfg S n (n\<lparr>nd_svc := set_rate rt (nd_svc n)\<rparr>)"
| build: "nd_stage n = Idle \<Longrightarrow> gen_build cfg (nd_svc n) = Ok (g, v) \<Longrightarrow> bc_step cfg S n (n\<lparr>nd_svc := v, nd_stage := Built g\<rparr>)"
| save: "nd_stage n = Built g \<Longrightarrow> gen_store cfg g (nd_svc n) = Ok v \<Longrightarrow>
    bc_step cfg S n (n\<lparr>nd_svc := v, nd_stage := Stored g, nd_made := nd_made n @ [g]\<rparr>)"
| included: "nd_stage n = Stored g \<Longrightarrow> bc_step cfg S n (n\<lparr>nd_svc := gen_include g (nd_svc n), nd_stage := Included g\<rparr>)"
| finish: "nd_stage n = Included g \<Longrightarrow> gen_finish g (nd_svc n) = Some v \<Longrightarrow> bc_step cfg S n (n\<lparr>nd_svc := v, nd_stage := Idle\<rparr>)"
| interpreter: "bc_step cfg S n (n\<lparr>nd_svc := (nd_svc n)\<lparr>v_graph := gr\<rparr>\<rparr>)"
| interpreted: "blockmaniaCallback cfg x (nd_svc n) = Ok v \<Longrightarrow> bc_step cfg S n (n\<lparr>nd_svc := v\<rparr>)"
| acknowledge: "bc_step cfg S n (n\<lparr>nd_svc := Acknowledge round (nd_svc n)\<rparr>)"
| register: "Register cfg (nd_svc n) = Some (Ok v) \<Longrightarrow> bc_step cfg S n (n\<lparr>nd_svc := v\<rparr>)"
| write_received: "writeReceivedMap (nd_svc n) = Ok v \<Longrightarrow> bc_step cfg S n (n\<lparr>nd_svc := v\<rparr>)"
| write_sent: "writeSentMap (nd_svc n) = Ok v \<Longrightarrow> bc_step cfg S n (n\<lparr>nd_svc := v\<rparr>)"
| restart: "loadState cfg rt (v_store (nd_svc n)) = Some (Ok (v, gs)) \<Longrightarrow> bc_step cfg S n (n\<lparr>nd_svc := v, nd_stage := Idle\<rparr>)"

inductive bc_reach :: "bcfg \<Rightarrow> SignedData set \<Rightarrow> bnode \<Rightarrow> bool" for cfg S where
  start: "loadState cfg rt new_bstore = Some (Ok (v, gs)) \<Longrightarrow> bc_reach cfg S \<lparr>nd_svc = v, nd_stage = Idle, nd_made = []\<rparr>"
| later: "bc_reach cfg S n \<Longrightarrow> bc_step cfg S n n' \<Longrightarrow> bc_reach cfg S n'"

section \<open>Accepted blocks\<close>

definition known :: "bcfg \<Rightarrow> SignedData set \<Rightarrow> blockData \<Rightarrow> bool" where
  "known cfg S b \<longleftrightarrow> (\<exists>sd \<in> S. check_block cfg sd = Ok b)"

text \<open>What is assumed of the blocks peers send: the hash has no collision on them, hashes are long
  enough to be printed, and no peer sends the node a block of its own.\<close>

definition fair_blocks :: "bcfg \<Rightarrow> SignedData set \<Rightarrow> bool" where
  "fair_blocks cfg S \<longleftrightarrow> inj_on (csha (c_codec cfg)) (sd_Data ` S) \<and>
     (\<forall>b. known cfg S b \<longrightarrow> Node (bd_id b) \<noteq> c_nodeID cfg \<and> list_all printable (bd_id b # bd_prev b # bd_deps b))"

lemma fatal_Ok [simp]: "fatal x = Ok y \<longleftrightarrow> x = Some y"
  by (simp add: fatal_def split: option.split)

lemma omap_obind: "omap f (obind r g) = obind r (\<lambda>x. omap f (g x))"
  by (cases r) auto

lemma check_ref_Ok:
  "check_ref cfg node x st = Ok st' \<longleftrightarrow> (\<exists>ref verify. uRef (c_codec cfg) (sd_Data x) = Some ref \<and>
     map_of (c_keys cfg) (br_Node ref) = Some verify \<and> verify (sd_Data x) (sd_Signature x) \<and> br_Node ref \<noteq> node \<and>
     st' = (Suc (fst st), snd st @ [ref_id ref]))"
  by (auto simp: check_ref_def Let_def split: option.split)

lemma check_refs:
  assumes "ofold (check_ref cfg node) refs (i, acc) = Ok (j, deps)"
  shows "\<exists>new. deps = acc @ new \<and> omaps (\<lambda>sref. omap ref_id (fatal (uRef (c_codec cfg) (sd_Data sref)))) refs = Ok new"
  using assms
proof (induction refs arbitrary: i acc)
  case (Cons x refs)
  from Cons.prems obtain ref where ref: "uRef (c_codec cfg) (sd_Data x) = Some ref"
    "ofold (check_ref cfg node) refs (Suc i, acc @ [ref_id ref]) = Ok (j, deps)"
    by (auto simp: obind_eq_Ok check_ref_Ok)
  from Cons.IH [OF ref(2)] ref(1) show ?case by (auto simp: fatal_def)
qed simp

lemma check_blockE:
  assumes "check_block cfg sd = Ok b"
  obtains block verify enc prev j deps where "uBlock (c_codec cfg) (sd_Data sd) = Some block" "map_of (c_keys cfg) (bl_Node block) = Some verify"
    "mRef (c_codec cfg) \<lparr>br_Hash = csha (c_codec cfg) (sd_Data sd), br_Node = bl_Node block, br_Round = bl_Round block\<rparr> = Some enc"
    "verify enc (sd_Signature sd)" "check_prev cfg verify block = Ok prev"
    "ofold (check_ref cfg (bl_Node block)) (bl_References block) (0, []) = Ok (j, deps)"
    "b = \<lparr>bd_deps = deps, bd_id = ref_id \<lparr>br_Hash = csha (c_codec cfg) (sd_Data sd), br_Node = bl_Node block, br_Round = bl_Round block\<rparr>,
      bd_prev = prev, bd_ref = \<lparr>sd_Data = enc, sd_Signature = sd_Signature sd\<rparr>\<rparr>"
  using assms by (auto simp: check_block_def Let_def obind_eq_Ok split: option.splits if_splits)

text \<open>A block that passed the checks is read back from the store as the same block data.\<close>

lemma check_getBlockData:
  assumes "check_block cfg sd = Ok b"
  shows "getBlockData (c_codec cfg) sd = (Ok b :: ('e, blockData) outcome)"
  using assms
proof (rule check_blockE)
  let ?c = "c_codec cfg"
  fix block verify enc prev j deps
  assume u: "uBlock ?c (sd_Data sd) = Some block"
    and m: "mRef ?c \<lparr>br_Hash = csha ?c (sd_Data sd), br_Node = bl_Node block, br_Round = bl_Round block\<rparr> = Some enc"
    and p: "check_prev cfg verify block = Ok prev"
    and r: "ofold (check_ref cfg (bl_Node block)) (bl_References block) (0, []) = Ok (j, deps)"
    and b: "b = \<lparr>bd_deps = deps, bd_id = ref_id \<lparr>br_Hash = csha ?c (sd_Data sd), br_Node = bl_Node block, br_Round = bl_Round block\<rparr>,
      bd_prev = prev, bd_ref = \<lparr>sd_Data = enc, sd_Signature = sd_Signature sd\<rparr>\<rparr>"
  from check_refs [OF r] have "omaps (\<lambda>sref. omap ref_id (fatal (uRef ?c (sd_Data sref)))) (bl_References block) = (Ok deps :: ('e, _) outcome)" by simp
  moreover have "(if bl_Round block \<noteq> 1 then case bl_Previous block of None \<Rightarrow> Panic NilDereference
      | Some p \<Rightarrow> omap ref_id (fatal (uRef ?c (sd_Data p))) else Ok zero_BlockID) = (Ok prev :: ('e, _) outcome)"
    using p by (auto simp: check_prev_def fatal_def split: if_splits option.splits)
  moreover have "fatal (uBlock ?c (sd_Data sd)) = (Ok block :: ('e, _) outcome)"
    "fatal (mRef ?c \<lparr>br_Hash = csha ?c (sd_Data sd), br_Node = bl_Node block, br_Round = bl_Round block\<rparr>) = (Ok enc :: ('e, _) outcome)"
    using u m by (simp_all add: fatal_def)
  ultimately show ?thesis unfolding getBlockData_def Let_def b by (simp only: obind.simps)
qed

lemma getBlockData_hash: "getBlockData c sd = Ok b \<Longrightarrow> Hash (bd_id b) = csha c (sd_Data sd)"
  by (auto simp: getBlockData_def obind_eq_Ok Let_def ref_id_def)

lemma getBlockData_same:
  assumes "getBlockData c sd = (Ok b :: ('e, blockData) outcome)" "getBlockData c sd' = (Ok b' :: ('e, blockData) outcome)" "sd_Data sd' = sd_Data sd"
  shows "bd_id b' = bd_id b \<and> bd_prev b' = bd_prev b \<and> bd_deps b' = bd_deps b"
proof -
  let ?f = "\<lambda>b. (bd_id b, bd_prev b, bd_deps b)"
  have "omap ?f (getBlockData c sd' :: ('e, blockData) outcome) = omap ?f (getBlockData c sd)"
    by (simp add: getBlockData_def Let_def omap_obind assms(3))
  with assms(1,2) show ?thesis by simp
qed

text \<open>The references of a block are a function of its identifier.\<close>

lemma fair_refs:
  assumes "fair_blocks cfg S"
  obtains D where "\<And>b. known cfg S b \<Longrightarrow> blk_ok (c_nodeID cfg) D b"
proof -
  let ?s = "c_nodeID cfg"
  have "needs ?s b = needs ?s b'" if b: "known cfg S b" "known cfg S b'" "bd_id b = bd_id b'" for b b'
  proof -
    from b obtain sd sd' where sd: "sd \<in> S" "sd' \<in> S"
      "getBlockData (c_codec cfg) sd = (Ok b :: (unit, _) outcome)" "getBlockData (c_codec cfg) sd' = (Ok b' :: (unit, _) outcome)"
      by (auto simp: known_def check_getBlockData)
    then have "csha (c_codec cfg) (sd_Data sd) = csha (c_codec cfg) (sd_Data sd')" using b(3) by (metis getBlockData_hash)
    then have "sd_Data sd = sd_Data sd'" using assms sd(1,2) by (auto simp: fair_blocks_def dest: inj_onD)
    with getBlockData_same [OF sd(3,4)] show ?thesis by (simp add: needs_def)
  qed
  moreover define D where "D i = needs ?s (SOME b. known cfg S b \<and> bd_id b = i)" for i
  ultimately have D: "D (bd_id b) = needs ?s b" if "known cfg S b" for b
    by (metis (mono_tags, lifting) someI that)
  show thesis
  proof (rule that)
    fix b assume b: "known cfg S b"
    then have "list_all printable (bd_id b # bd_prev b # bd_deps b)" using assms by (simp add: fair_blocks_def)
    then show "blk_ok ?s D b" by (auto simp: blk_ok_def D [OF b] needs_def list_all_iff)
  qed
qed

section \<open>Operations that only record progress\<close>

definition keeps :: "bcodec \<Rightarrow> svc \<Rightarrow> svc \<Rightarrow> bool" where
  "keeps c v v' \<longleftrightarrow> v_depgraph v' = v_depgraph v \<and> v_round v' = v_round v \<and> v_prevhash v' = v_prevhash v \<and> v_prevref v' = v_prevref v \<and>
     (\<forall>a. core c (v_store v) a \<longrightarrow> core c (v_store v') a)"

lemma keeps_refl [simp]: "keeps c v v"
  by (simp add: keeps_def)

lemma keeps_trans: "keeps c v1 v2 \<Longrightarrow> keeps c v2 v3 \<Longrightarrow> keeps c v1 v3"
  by (simp add: keeps_def)

lemma keeps_fields [simp]:
  "keeps c v (v1\<lparr>v_own := o'\<rparr>) = keeps c v v1" "keeps c v (v1\<lparr>v_received := r'\<rparr>) = keeps c v v1" "keeps c v (v1\<lparr>v_sent := s'\<rparr>) = keeps c v v1"
  "keeps c v (v1\<lparr>v_tx := t'\<rparr>) = keeps c v v1" "keeps c v (v1\<lparr>v_txCountLimit := l'\<rparr>) = keeps c v v1" "keeps c v (v1\<lparr>v_graph := g'\<rparr>) = keeps c v v1"
  "keeps c v (v1\<lparr>v_cb := b'\<rparr>) = keeps c v v1" "keeps c v (v1\<lparr>v_interpreted := i'\<rparr>) = keeps c v v1" "keeps c v (v1\<lparr>v_delivered := d'\<rparr>) = keeps c v v1"
  by (simp_all add: keeps_def)

definition keeps_chain :: "svc \<Rightarrow> svc \<Rightarrow> bool" where
  "keeps_chain v v' \<longleftrightarrow> v_round v' = v_round v \<and> v_prevhash v' = v_prevhash v \<and> v_prevref v' = v_prevref v"

lemma keeps_chain_refl [simp]: "keeps_chain v v"
  by (simp add: keeps_chain_def)

lemma keeps_chain_trans: "keeps_chain v1 v2 \<Longrightarrow> keeps_chain v2 v3 \<Longrightarrow> keeps_chain v1 v3"
  by (simp add: keeps_chain_def)

lemma keeps_imp_chain: "keeps c v v' \<Longrightarrow> keeps_chain v v'"
  by (simp add: keeps_def keeps_chain_def)

lemma keeps_getOwnBlock: "svc_getOwnBlock cfg i v = Ok (b, v') \<Longrightarrow> keeps c v v'"
  by (auto simp: svc_getOwnBlock_def obind_eq_Ok split: option.splits)

lemma keeps_unsent: "unsent_loop cfg i lst cur tot acc v = Ok (bs, v') \<Longrightarrow> keeps c v v'"
proof (induction cfg i lst cur tot acc v rule: unsent_loop.induct)
  case (1 cfg i lst cur tot acc v)
  show ?case
  proof (cases "i \<le> cur")
    case True
    with "1.prems" obtain b v1 where b: "svc_getOwnBlock cfg i v = Ok (b, v1)"
      by (subst (asm) unsent_loop.simps) (auto split: outcome.splits)
    with True "1.prems" have "v' = v1 \<or> unsent_loop cfg (i + 1) lst cur (tot + int (SignedData_Size b)) (acc @ [b]) v1 = Ok (bs, v') \<and>
      \<not> c_maxPayload cfg < tot + int (SignedData_Size b)"
      by (subst (asm) unsent_loop.simps) (auto simp: Let_def split: if_splits)
    with "1.IH" [OF True b refl refl] keeps_getOwnBlock [OF b] show ?thesis by (auto intro: keeps_trans)
  qed (use "1.prems" in \<open>subst (asm) unsent_loop.simps, simp\<close>)
qed

lemma keeps_own_rounds: "own_rounds cfg rs acc v = Ok (bs, v') \<Longrightarrow> keeps c v v'"
proof (induction rs arbitrary: acc v)
  case (Cons r rs)
  show ?case
  proof (cases "svc_getOwnBlock cfg r v")
    case (Ok p)
    then obtain b v1 where p: "svc_getOwnBlock cfg r v = Ok (b, v1)" by (cases p) simp
    with Cons.prems have "own_rounds cfg rs (acc @ [b]) v1 = Ok (bs, v')" by simp
    from keeps_trans [OF keeps_getOwnBlock [OF p] Cons.IH [OF this]] show ?thesis .
  qed (use Cons in auto)
qed simp

lemma keeps_fill_request: "fill_request cfg p v = Ok (x, v') \<Longrightarrow> keeps c v v'"
  by (auto simp: fill_request_def Let_def split: if_splits outcome.splits)

lemma keeps_store: "(\<And>a. core c (v_store v) a \<Longrightarrow> core c s a) \<Longrightarrow> keeps c v (v\<lparr>v_store := s\<rparr>)"
  by (simp add: keeps_def)

lemma keeps_callback:
  assumes "blockmaniaCallback cfg x v = Ok v'"
  shows "keeps c v v'"
proof -
  have "keeps c v (v\<lparr>v_store := s\<rparr>)" if "setInterpreted x (v_store v) = Ok s" for s
    by (rule keeps_store) (rule other_core(1) [OF _ that])
  with assms show ?thesis by (auto simp: blockmaniaCallback_def omap_eq_Ok split: if_splits outcome.splits)
qed

lemma keeps_writes:
  "writeReceivedMap v = Ok v' \<Longrightarrow> keeps c v v'" "writeSentMap v = Ok v' \<Longrightarrow> keeps c v v'" "keeps c v (Acknowledge r v)"
  using keeps_store [OF other_core(2)] keeps_store [OF other_core(3)] keeps_store [OF other_core(4)]
  by (auto simp: writeReceivedMap_def writeSentMap_def Acknowledge_def split: outcome.splits)

lemma keeps_replay_rounds: "replay_rounds cfg i lat v = Some r \<Longrightarrow> \<forall>v'. r = Ok v' \<longrightarrow> keeps c v v'"
proof (rule replay_rounds.raw_induct [where P = "\<lambda>cfg i lat v r. \<forall>v'. r = Ok v' \<longrightarrow> keeps c v v'"])
  fix f :: "bcfg \<Rightarrow> u64 \<Rightarrow> u64 \<Rightarrow> svc \<Rightarrow> svc may_panic option" and cfg i lat v r
  assume IH: "\<And>cfg i lat v r. f cfg i lat v = Some r \<Longrightarrow> \<forall>v'. r = Ok v' \<longrightarrow> keeps c v v'"
    and r: "(if i \<le> lat then case getInterpreted (c_codec cfg) i (v_store v) of
        Ok bs \<Rightarrow> f cfg (i + 1) lat (v\<lparr>v_delivered := v_delivered v @ [(i, bs)]\<rparr>)
      | Err _ \<Rightarrow> Some (Panic LogFatal) | Panic r \<Rightarrow> Some (Panic r) else Some (Ok v)) = Some r"
  show "\<forall>v'. r = Ok v' \<longrightarrow> keeps c v v'"
  proof (cases "i \<le> lat")
    case True
    show ?thesis
    proof (cases "getInterpreted (c_codec cfg) i (v_store v)")
      case (Ok bs)
      with True r IH [of cfg "i + 1" lat _ r] show ?thesis by (auto simp: keeps_def)
    qed (use True r in auto)
  qed (use r in auto)
qed

lemma keeps_Register: "Register cfg v = Some (Ok v') \<Longrightarrow> keeps c v v'"
  using keeps_replay_rounds [of cfg _ _ "v\<lparr>v_cb := True\<rparr>" "Ok v'" c]
  by (auto simp: Register_def Let_def keeps_def split: if_splits outcome.splits)

end
