(* ===== verification/BcNode.thy ===== *)
theory BcNode
  imports BcRun
begin

text \<open>
  The invariant of the runs of a broadcast node: the dependency graph agrees with the store and with
  the blocks made so far, and the service remembers the end of the chain of own blocks. One lemma per
  operation; \<open>step_inv\<close> puts them together.
\<close>

section \<open>The dependency graph in a run\<close>

lemma idle_inv_cong:
  assumes "dg_await d' = dg_await d" "dg_pending d' = dg_pending d" "dg_icache d' = dg_icache d" "dg_tcache d' = dg_tcache d" "dg_self d' = dg_self d"
  shows "idle_inv s M me D K d' = idle_inv s M me D K d"
proof -
  have "awaiting d' = awaiting d" using assms(1) by (simp add: awaiting_def fun_eq_iff)
  with assms show ?thesis by (simp add: idle_inv_def loop_inv_def stuck_or_def cache_inv_def)
qed

lemma idle_inv_store:
  assumes "idle_inv s M me D K d" "\<And>i. store_isIncluded i s' = Ok (i \<in> M')" "M \<subseteq> M'" "M' \<subseteq> K"
  shows "idle_inv s' M' me D K d"
  using assms by (auto simp: idle_inv_def loop_inv_def cache_inv_def)

lemma fold_actuallyIncluded:
  "fold (\<lambda>ref. actuallyIncluded (bd_id ref)) bs d = d\<lparr>dg_tcache := fold (\<lambda>ref. mdel (bd_id ref)) bs (dg_tcache d)\<rparr>"
  by (induction bs arbitrary: d) (simp_all add: actuallyIncluded_def)

lemma map_of_fold_mdel: "map_of (fold (\<lambda>ref. mdel (bd_id ref)) bs m) i = (if i \<in> bd_id ` set bs then None else map_of m i)"
  by (induction bs arbitrary: m) (auto simp: map_of_mdel)

lemma idle_inv_include:
  assumes "idle_inv s M me D K d" "bd_id ` set bs \<subseteq> M"
  shows "idle_inv s M me D K (fold (\<lambda>ref. actuallyIncluded (bd_id ref)) bs d)"
proof -
  have "cache_inv s M K (fold (\<lambda>ref. actuallyIncluded (bd_id ref)) bs d)"
    using assms by (auto simp: idle_inv_def loop_inv_def cache_inv_def fold_actuallyIncluded map_of_fold_mdel)
  moreover have "awaiting (fold (\<lambda>ref. actuallyIncluded (bd_id ref)) bs d) = awaiting d"
    by (simp add: fold_actuallyIncluded awaiting_def fun_eq_iff)
  ultimately show ?thesis using assms(1) by (simp add: idle_inv_def loop_inv_def stuck_or_def) (simp add: fold_actuallyIncluded)
qed

lemma idle_inv_new:
  assumes "\<And>i. store_isIncluded i s = Ok (i \<in> M)"
  shows "idle_inv s M me D M (new_depgraph me)"
  using assms by (simp add: idle_inv_def loop_inv_def cache_inv_def wait_inv_def stuck_or_def new_depgraph_def awaiting_def)

definition incl_ids :: "astore \<Rightarrow> BlockID set" where
  "incl_ids a = {i. a_incl a i = Some True}"

text \<open>The blocks in the store that are not included come from peers.\<close>

definition stored_ok :: "bcfg \<Rightarrow> SignedData set \<Rightarrow> astore \<Rightarrow> bool" where
  "stored_ok cfg S a \<longleftrightarrow> (\<forall>i. a_incl a i = Some False \<longrightarrow> (\<exists>sd \<in> S. \<exists>b. a_blocks a i = Some sd \<and> check_block cfg sd = Ok b \<and> bd_id b = i))"

text \<open>\<open>dn\<close> are the blocks that own blocks in the store include, \<open>fl\<close> those of the block under construction.\<close>

definition placed :: "blockData list \<Rightarrow> blockData list \<Rightarrow> svc \<Rightarrow> BlockID set" where
  "placed dn fl v = bd_id ` set (dn @ fl @ dg_blocks (v_depgraph v))"

definition dg_inv :: "bcfg \<Rightarrow> SignedData set \<Rightarrow> (BlockID \<Rightarrow> BlockID list) \<Rightarrow> astore \<Rightarrow> blockData list \<Rightarrow> blockData list \<Rightarrow> svc \<Rightarrow> bool" where
  "dg_inv cfg S D a dn fl v \<longleftrightarrow>
     core (c_codec cfg) (v_store v) a \<and> stored_ok cfg S a \<and> incl_ids a = bd_id ` set dn \<and>
     idle_inv (v_store v) (incl_ids a) (c_nodeID cfg) D (placed dn fl v) (v_depgraph v) \<and>
     causal (c_nodeID cfg) {} (dn @ fl @ dg_blocks (v_depgraph v)) \<and>
     (\<forall>b \<in> set (dn @ fl) \<union> set (dg_in (v_depgraph v)) \<union> held (v_depgraph v). known cfg S b) \<and>
     (\<forall>i. a_incl a i \<noteq> None \<longrightarrow> i \<in> bd_id ` set (dg_in (v_depgraph v)) \<union> dom (map_of (dg_pending (v_depgraph v))) \<union> placed dn fl v)"

lemma dg_invD:
  assumes "dg_inv cfg S D a dn fl v"
  shows "core (c_codec cfg) (v_store v) a" "stored_ok cfg S a" "incl_ids a = bd_id ` set dn"
    "idle_inv (v_store v) (incl_ids a) (c_nodeID cfg) D (placed dn fl v) (v_depgraph v)"
    "causal (c_nodeID cfg) {} (dn @ fl @ dg_blocks (v_depgraph v))"
    "b \<in> set (dn @ fl) \<union> set (dg_in (v_depgraph v)) \<union> held (v_depgraph v) \<Longrightarrow> known cfg S b"
    "a_incl a i \<noteq> None \<Longrightarrow> i \<in> bd_id ` set (dg_in (v_depgraph v)) \<union> dom (map_of (dg_pending (v_depgraph v))) \<union> placed dn fl v"
  using assms unfolding dg_inv_def by blast+

lemma dg_invI:
  assumes "core (c_codec cfg) (v_store v) a" "stored_ok cfg S a" "incl_ids a = bd_id ` set dn"
    "idle_inv (v_store v) (incl_ids a) (c_nodeID cfg) D (placed dn fl v) (v_depgraph v)"
    "causal (c_nodeID cfg) {} (dn @ fl @ dg_blocks (v_depgraph v))"
    "\<And>b. b \<in> set (dn @ fl) \<union> set (dg_in (v_depgraph v)) \<union> held (v_depgraph v) \<Longrightarrow> known cfg S b"
    "\<And>i. a_incl a i \<noteq> None \<Longrightarrow> i \<in> bd_id ` set (dg_in (v_depgraph v)) \<union> dom (map_of (dg_pending (v_depgraph v))) \<union> placed dn fl v"
  shows "dg_inv cfg S D a dn fl v"
  using assms unfolding dg_inv_def by blast

lemma core_included: "core c s a \<Longrightarrow> store_isIncluded i s = Ok (i \<in> incl_ids a)"
  by (simp add: isIncluded_abs incl_ids_def)

lemma incl_placed: "dg_inv cfg S D a dn fl v \<Longrightarrow> incl_ids a \<subseteq> placed dn fl v"
  using dg_invD(3) [of cfg S D a dn fl v] by (auto simp: placed_def)

lemma dg_inv_cong: "v_depgraph v' = v_depgraph v \<Longrightarrow> v_store v' = v_store v \<Longrightarrow> dg_inv cfg S D a dn fl v' = dg_inv cfg S D a dn fl v"
  by (simp add: dg_inv_def placed_def)

lemma dg_inv_keeps:
  assumes "dg_inv cfg S D a dn fl v" "keeps (c_codec cfg) v v'"
  shows "dg_inv cfg S D a dn fl v'"
proof -
  note I = dg_invD [OF assms(1)]
  have d: "v_depgraph v' = v_depgraph v" and c: "core (c_codec cfg) (v_store v') a" using assms(2) I(1) by (auto simp: keeps_def)
  have p: "placed dn fl v' = placed dn fl v" by (simp add: placed_def d)
  from idle_inv_store [OF I(4) core_included [OF c] order_refl incl_placed [OF assms(1)]] show ?thesis
    using I c by (intro dg_invI) (simp_all only: d p)
qed

lemma dg_inv_turn:
  assumes D: "\<And>b. known cfg S b \<Longrightarrow> blk_ok (c_nodeID cfg) D b" and inv: "dg_inv cfg S D a dn fl v"
    and t: "dg_in (v_depgraph v) = b # rest" "process_turn (v_store v) b rest (v_depgraph v) = Some (Ok d)"
  shows "dg_inv cfg S D a dn fl (v\<lparr>v_depgraph := d\<rparr>)"
proof -
  note I = dg_invD [OF inv]
  let ?K = "placed dn fl v"
  have b: "known cfg S b" by (rule I(6)) (simp add: t(1))
  from process_turn_spec [OF I(4) D [OF b], of rest] obtain K' d' new where
    n: "process_turn (v_store v) b rest (v_depgraph v) = Some (Ok d')" "idle_inv (v_store v) (incl_ids a) (c_nodeID cfg) D K' d'" "dg_in d' = rest"
      "dg_blocks d' = dg_blocks (v_depgraph v) @ new" "K' = ?K \<union> bd_id ` set new" "causal (c_nodeID cfg) ?K new"
      "dom (map_of (dg_pending (v_depgraph v))) \<union> {bd_id b} \<subseteq> dom (map_of (dg_pending d')) \<union> K'"
    by (elim exE conjE)
  have [simp]: "d' = d" using n(1) t(2) by simp
  have K': "placed dn fl (v\<lparr>v_depgraph := d\<rparr>) = K'" using n(4,5) by (auto simp: placed_def)
  have "causal (c_nodeID cfg) {} ((dn @ fl @ dg_blocks (v_depgraph v)) @ new)"
    using I(5) n(6) by (simp only: causal_append [of _ _ _ new] placed_def Un_empty_left)
  then have c: "causal (c_nodeID cfg) {} (dn @ fl @ dg_blocks d)" using n(4) by simp
  show ?thesis
  proof (rule dg_invI)
    show "known cfg S x" if "x \<in> set (dn @ fl) \<union> set (dg_in (v_depgraph (v\<lparr>v_depgraph := d\<rparr>))) \<union> held (v_depgraph (v\<lparr>v_depgraph := d\<rparr>))" for x
      using that I(6) [of x] b held_turn [OF t(2)] n(3) t(1) by auto
    show "i \<in> bd_id ` set (dg_in (v_depgraph (v\<lparr>v_depgraph := d\<rparr>))) \<union> dom (map_of (dg_pending (v_depgraph (v\<lparr>v_depgraph := d\<rparr>)))) \<union>
        placed dn fl (v\<lparr>v_depgraph := d\<rparr>)" if "a_incl a i \<noteq> None" for i
      using I(7) [OF that] n(3,5,7) t(1) unfolding K' by auto
  qed (use I(1-3) n(2) c in \<open>simp_all add: K'\<close>)
qed

lemma dg_inv_receive:
  assumes "codec_ok (c_codec cfg)" "dg_inv cfg S D a dn fl v" "sd \<in> S" "processBlock cfg sd v = Ok (r, v')"
  shows "\<exists>a'. dg_inv cfg S D a' dn fl v' \<and> a_last a' = a_last a" "keeps_chain v v'"
proof -
  note I = dg_invD [OF assms(2)]
  from assms(4) obtain b where b: "check_block cfg sd = Ok b" by (auto simp: processBlock_def obind_eq_Ok)
  with assms(4) obtain s where s: "store_setBlock (c_codec cfg) (bd_id b) sd (v_store v) = Ok s"
    and v': "v' = v\<lparr>v_store := s, v_depgraph := dg_add b (v_depgraph v),
      v_received := rm_set (Node (bd_id b)) (Round (bd_id b)) (v_received v)\<rparr>"
    by (cases "store_setBlock (c_codec cfg) (bd_id b) sd (v_store v)") (auto simp: processBlock_def svc_setBlock_def Let_def)
  then show "keeps_chain v v'" by (simp add: keeps_chain_def)
  let ?a = "abs_op (SetBlock (bd_id b) sd) a"
  have i: "incl_ids ?a = incl_ids a" by (auto simp: incl_ids_def)
  have c: "core (c_codec cfg) (v_store v') ?a" using setBlock_core [OF s assms(1) I(1)] by (simp add: v')
  have p: "placed dn fl v' = placed dn fl v" by (simp add: placed_def v' dg_add_def)
  have "idle_inv (v_store v') (incl_ids a) (c_nodeID cfg) D (placed dn fl v) (v_depgraph v)"
    using core_included [OF c] unfolding i by (rule idle_inv_store [OF I(4) _ order_refl incl_placed [OF assms(2)]])
  then have "idle_inv (v_store v') (incl_ids ?a) (c_nodeID cfg) D (placed dn fl v') (v_depgraph v')"
    unfolding i p by (subst idle_inv_cong [where d = "v_depgraph v"]) (simp_all add: v' dg_add_def)
  moreover have "stored_ok cfg S ?a" using I(2) b assms(3) by (auto simp: stored_ok_def)
  moreover have "known cfg S x" if "x \<in> set (dn @ fl) \<union> set (dg_in (v_depgraph v')) \<union> held (v_depgraph v')" for x
    using that I(6) [of x] b assms(3) by (auto simp: v' dg_add_def held_def known_def)
  moreover have "j \<in> bd_id ` set (dg_in (v_depgraph v')) \<union> dom (map_of (dg_pending (v_depgraph v'))) \<union> placed dn fl v'" if "a_incl ?a j \<noteq> None" for j
    using that I(7) [of j] unfolding p by (auto simp: v' dg_add_def split: if_splits)
  ultimately have "dg_inv cfg S D ?a dn fl v'"
    using c I(3,5) by (intro dg_invI) (simp_all only: i, simp_all add: v' dg_add_def)
  moreover have "a_last ?a = a_last a" by simp
  ultimately show "\<exists>a'. dg_inv cfg S D a' dn fl v' \<and> a_last a' = a_last a" by blast
qed

lemma getBlocks_split: "dg_getBlocks lim d = (refs, d') \<Longrightarrow> \<exists>rest. dg_blocks d = refs @ rest \<and> d' = d\<lparr>dg_blocks := rest\<rparr>"
  by (auto simp: dg_getBlocks_def Let_def intro!: exI [of _ "drop (fitting lim 0 (dg_blocks d)) (dg_blocks d)"])

lemma gen_build_cases:
  assumes "gen_build cfg v = Ok (g, v')" "dg_getBlocks (c_refSizeLimit cfg) (v_depgraph v) = (refs, d)"
  obtains txs tx where "cut (v_tx v) = Ok (txs, tx)" "v' = v\<lparr>v_depgraph := d, v_tx := tx\<rparr>" "gn_refs g = refs"
proof -
  obtain txs tx where c: "cut (v_tx v) = Ok (txs, tx)"
    using assms(1) by (cases "cut (v_tx v)") (auto simp: gen_build_def assms(2))
  then have "v' = v\<lparr>v_depgraph := d, v_tx := tx\<rparr> \<and> gn_refs g = refs"
    using assms(1) by (auto simp: gen_build_def Let_def obind_eq_Ok assms(2))
  then show thesis using that c by blast
qed

lemma dg_inv_build:
  assumes "dg_inv cfg S D a dn [] v" "gen_build cfg v = Ok (g, v')"
  shows "dg_inv cfg S D a dn (gn_refs g) v'" "keeps_chain v v'"
proof -
  note I = dg_invD [OF assms(1)]
  obtain refs d where d: "dg_getBlocks (c_refSizeLimit cfg) (v_depgraph v) = (refs, d)" by (rule prod.exhaust)
  from getBlocks_split [OF d] obtain rest where sp: "dg_blocks (v_depgraph v) = refs @ rest" "d = (v_depgraph v)\<lparr>dg_blocks := rest\<rparr>" by blast
  obtain t where v': "v' = v\<lparr>v_depgraph := (v_depgraph v)\<lparr>dg_blocks := rest\<rparr>, v_tx := t\<rparr>" and g: "gn_refs g = refs"
    by (rule gen_build_cases [OF assms(2) d]) (use that sp(2) in blast)
  then show "keeps_chain v v'" by (simp add: keeps_chain_def)
  have bl: "dn @ gn_refs g @ dg_blocks (v_depgraph v') = dn @ [] @ dg_blocks (v_depgraph v)" by (simp add: v' g sp(1))
  then have p: "placed dn (gn_refs g) v' = placed dn [] v" by (simp only: placed_def)
  have h: "held (v_depgraph v) = set refs \<union> held (v_depgraph v')" by (auto simp: held_def sp(1) v')
  have "idle_inv (v_store v') (incl_ids a) (c_nodeID cfg) D (placed dn (gn_refs g) v') (v_depgraph v')"
    using I(4) unfolding p by (subst idle_inv_cong [where d = "v_depgraph v"]) (simp_all add: v')
  moreover have "known cfg S x" if "x \<in> set (dn @ gn_refs g) \<union> set (dg_in (v_depgraph v')) \<union> held (v_depgraph v')" for x
    using that I(6) [of x] h g by (auto simp: v')
  moreover have "i \<in> bd_id ` set (dg_in (v_depgraph v')) \<union> dom (map_of (dg_pending (v_depgraph v'))) \<union> placed dn (gn_refs g) v'" if "a_incl a i \<noteq> None" for i
    using I(7) [OF that] unfolding p by (simp add: v')
  moreover have "causal (c_nodeID cfg) {} (dn @ gn_refs g @ dg_blocks (v_depgraph v'))" using I(5) by (simp only: bl)
  moreover have "v_store v' = v_store v" by (simp add: v')
  ultimately show "dg_inv cfg S D a dn (gn_refs g) v'"
    using I(1-3) by (intro dg_invI) (simp_all only:)
qed

lemma dg_inv_include:
  assumes "dg_inv cfg S D a dn fl v" "bd_id ` set (gn_refs g) \<subseteq> bd_id ` set dn"
  shows "dg_inv cfg S D a dn fl (gen_include g v)"
proof -
  note I = dg_invD [OF assms(1)]
  have p: "placed dn fl (gen_include g v) = placed dn fl v" by (simp add: placed_def gen_include_def fold_actuallyIncluded)
  have "idle_inv (v_store v) (incl_ids a) (c_nodeID cfg) D (placed dn fl v) (v_depgraph (gen_include g v))"
    using idle_inv_include [OF I(4), of "gn_refs g"] assms(2) I(3) by (simp add: gen_include_def)
  then show ?thesis using I
    by (intro dg_invI) (simp_all only: p, simp_all add: gen_include_def fold_actuallyIncluded held_def)
qed

lemma dg_inv_save:
  assumes fair: "\<And>b. known cfg S b \<Longrightarrow> Node (bd_id b) \<noteq> c_nodeID cfg" and c: "codec_ok (c_codec cfg)"
    and inv: "dg_inv cfg S D a dn (gn_refs g) v" and save: "gen_store cfg g v = Ok v'"
    and g: "dep_Block ` set (bg_Deps (gn_graph g)) = bd_id ` set (gn_refs g)" "Node (bg_Block (gn_graph g)) = c_nodeID cfg"
  shows "\<exists>a'. dg_inv cfg S D a' (dn @ gn_refs g) [] v' \<and>
    a_last a' = Some (Round (bg_Block (gn_graph g)), Hash (bg_Block (gn_graph g)), gn_blockRef g)"
proof -
  note I = dg_invD [OF inv]
  let ?a = "abs_op (SetOwnBlock (gn_signed g) (gn_blockRef g) (gn_graph g)) a"
  from save obtain s ob where s: "store_setOwnBlock (c_codec cfg) (gn_signed g) (gn_blockRef g) (gn_graph g) (v_store v) = Ok s"
    and v': "v' = v\<lparr>v_own := ob, v_store := s\<rparr>"
    by (cases "store_setOwnBlock (c_codec cfg) (gn_signed g) (gn_blockRef g) (gn_graph g) (v_store v)")
      (auto simp: gen_store_def svc_setOwnBlock_def Let_def)
  have co: "core (c_codec cfg) (v_store v') ?a" using setOwnBlock_core [OF s c I(1)] by (simp add: v')
  have i: "incl_ids ?a = bd_id ` set (dn @ gn_refs g)" using I(3) g(1) by (auto simp: incl_ids_def)
  have p: "placed (dn @ gn_refs g) [] v' = placed dn (gn_refs g) v" by (simp add: placed_def v')
  have "incl_ids a \<subseteq> incl_ids ?a" "incl_ids ?a \<subseteq> placed dn (gn_refs g) v" unfolding i I(3) by (auto simp: placed_def)
  from idle_inv_store [OF I(4) core_included [OF co] this]
  have "idle_inv (v_store v') (incl_ids ?a) (c_nodeID cfg) D (placed (dn @ gn_refs g) [] v') (v_depgraph v')" by (simp only: p) (simp add: v')
  moreover have "stored_ok cfg S ?a"
  proof -
    have "i \<noteq> bg_Block (gn_graph g)" if "a_incl a i = Some False" for i
      using I(2) that fair g(2) by (fastforce simp: stored_ok_def known_def)
    then show ?thesis using I(2) by (auto simp: stored_ok_def)
  qed
  moreover have "j \<in> bd_id ` set (dg_in (v_depgraph v')) \<union> dom (map_of (dg_pending (v_depgraph v'))) \<union> placed (dn @ gn_refs g) [] v'" if "a_incl ?a j \<noteq> None" for j
  proof (cases "a_incl a j = None")
    case True
    with that have "j \<in> incl_ids ?a" by (auto simp: incl_ids_def split: if_splits)
    then show ?thesis unfolding i p by (auto simp: placed_def)
  qed (use I(7) [of j] in \<open>simp only: p, simp add: v'\<close>)
  ultimately have "dg_inv cfg S D ?a (dn @ gn_refs g) [] v'"
    using co i I(5,6) by (intro dg_invI) (simp_all add: v')
  moreover have "a_last ?a = Some (Round (bg_Block (gn_graph g)), Hash (bg_Block (gn_graph g)), gn_blockRef g)" by simp
  ultimately show ?thesis by blast
qed

lemma fold_dg_add: "fold dg_add bs d = d\<lparr>dg_in := dg_in d @ bs\<rparr>"
  by (induction bs arbitrary: d) (simp_all add: dg_add_def)

text \<open>Starting again on the store.\<close>

lemma notIncluded_known:
  assumes "core (c_codec cfg) s a" "stored_ok cfg S a"
  obtains bs where "getNotIncluded (c_codec cfg) s = Ok bs" "\<forall>b \<in> set bs. known cfg S b" "bd_id ` set bs = {i. a_incl a i = Some False}"
proof -
  from assms(1) obtain ids where ids: "set ids = {i. a_incl a i = Some False}"
    "getNotIncluded (c_codec cfg) s = omaps (\<lambda>i. getBlockData (c_codec cfg) (the (a_blocks a i))) ids" by (rule getNotIncluded_abs)
  from assms(2) have "\<forall>i. \<exists>b. a_incl a i = Some False \<longrightarrow> known cfg S b \<and> bd_id b = i \<and> getBlockData (c_codec cfg) (the (a_blocks a i)) = (Ok b :: (bs_err, _) outcome)"
    unfolding stored_ok_def known_def by (metis check_getBlockData option.sel)
  then obtain f where f: "\<And>i. a_incl a i = Some False \<Longrightarrow> known cfg S (f i) \<and> bd_id (f i) = i \<and>
    getBlockData (c_codec cfg) (the (a_blocks a i)) = (Ok (f i) :: (bs_err, _) outcome)" by metis
  have "getNotIncluded (c_codec cfg) s = Ok (map f ids)" unfolding ids(2) by (rule omaps_Ok) (use f ids(1) in simp)
  moreover have "bd_id ` set (map f ids) = {i. a_incl a i = Some False}" using f ids(1) by (auto simp: image_iff)
  ultimately show thesis using that f ids(1) by auto
qed

lemma loadState_cases:
  assumes "loadState cfg rt s = Some (Ok (v, gs))"
  obtains k v0 bs where "loaded cfg rt s = Ok (k, v0)" "getNotIncluded (c_codec cfg) s = Ok bs"
    "v = v0\<lparr>v_depgraph := (new_depgraph (c_nodeID cfg))\<lparr>dg_in := bs\<rparr>\<rparr>" "v_store v0 = s"
proof -
  from assms obtain k v0 where l: "loaded cfg rt s = Ok (k, v0)" "replayGraphChanges cfg k v0 = Some (Ok (v, gs))"
    by (auto simp: loadState_def split: outcome.splits)
  have v0: "v_store v0 = s" "v_depgraph v0 = new_depgraph (c_nodeID cfg)" using l(1) by (auto simp: loaded_def obind_eq_Ok)
  from l(2) v0(1) obtain bs where bs: "getNotIncluded (c_codec cfg) s = Ok bs"
    by (cases "getNotIncluded (c_codec cfg) s") (auto simp: replayGraphChanges_def)
  with l(2) v0(1) obtain gs' r where gb: "graph_batches (c_nodeID cfg) k 100 s [] = Some (gs', r)" by (auto simp: replayGraphChanges_def)
  have "v = v0\<lparr>v_depgraph := (new_depgraph (c_nodeID cfg))\<lparr>dg_in := bs\<rparr>\<rparr>"
    using l(2) bs v0 gb by (cases r) (auto simp: replayGraphChanges_def fold_dg_add new_depgraph_def)
  with that l(1) bs v0(1) show thesis by blast
qed

lemma dg_inv_load:
  assumes c: "core (c_codec cfg) s a" "stored_ok cfg S a" and dn: "incl_ids a = bd_id ` set dn" "causal (c_nodeID cfg) {} dn" "\<forall>b \<in> set dn. known cfg S b"
    and "loadState cfg rt s = Some (Ok (v', gs))"
  shows "dg_inv cfg S D a dn [] v'"
proof -
  obtain bs where bs: "getNotIncluded (c_codec cfg) s = Ok bs" "\<forall>b \<in> set bs. known cfg S b" "bd_id ` set bs = {i. a_incl a i = Some False}"
    by (rule notIncluded_known [OF c])
  obtain v0 where v': "v' = v0\<lparr>v_depgraph := (new_depgraph (c_nodeID cfg))\<lparr>dg_in := bs\<rparr>\<rparr>" and v0: "v_store v0 = s"
    by (rule loadState_cases [OF assms(6)]) (use bs(1) that in auto)
  have p: "placed dn [] v' = incl_ids a" by (simp add: placed_def v' new_depgraph_def dn(1))
  have "idle_inv (v_store v') (incl_ids a) (c_nodeID cfg) D (placed dn [] v') (v_depgraph v')"
    unfolding p using idle_inv_new [OF core_included [OF c(1)], where me = "c_nodeID cfg" and D = D]
    by (subst idle_inv_cong [where d = "new_depgraph (c_nodeID cfg)"]) (simp_all add: v' v0)
  moreover have "j \<in> bd_id ` set (dg_in (v_depgraph v')) \<union> dom (map_of (dg_pending (v_depgraph v'))) \<union> placed dn [] v'" if "a_incl a j \<noteq> None" for j
    using that bs(3) unfolding p by (cases "a_incl a j") (auto simp: incl_ids_def v')
  moreover have "known cfg S x" if "x \<in> set (dn @ []) \<union> set (dg_in (v_depgraph v')) \<union> held (v_depgraph v')" for x
    using that dn(3) bs(2) by (auto simp: v' new_depgraph_def held_def)
  ultimately show ?thesis using c dn by (intro dg_invI) (simp_all add: v' v0 new_depgraph_def)
qed

section \<open>The chain of own blocks\<close>

text \<open>A well-formed own block, and how it continues the previous one.\<close>

definition gen_ok :: "bcfg \<Rightarrow> gen \<Rightarrow> bool" where
  "gen_ok cfg g \<longleftrightarrow> (let c = c_codec cfg; hash = csha c (sd_Data (gn_signed g)) in
     bl_Node (gn_block g) = c_nodeID cfg \<and> bl_Round (gn_block g) = gn_round g \<and> bl_References (gn_block g) = map bd_ref (gn_refs g) \<and>
     mBlock c (gn_block g) = Some (sd_Data (gn_signed g)) \<and>
     mRef c \<lparr>br_Hash = hash, br_Node = c_nodeID cfg, br_Round = gn_round g\<rparr> = Some (sd_Data (gn_blockRef g)) \<and>
     sd_Signature (gn_signed g) = c_sign cfg (sd_Data (gn_blockRef g)) \<and> sd_Signature (gn_blockRef g) = sd_Signature (gn_signed g) \<and>
     bg_Block (gn_graph g) = \<lparr>Hash = hash, Node = c_nodeID cfg, Round = gn_round g\<rparr> \<and>
     bg_Deps (gn_graph g) = map (\<lambda>ref. \<lparr>dep_Block = bd_id ref, dep_Deps = bd_deps ref, dep_Prev = bd_prev ref\<rparr>) (gn_refs g))"

definition links :: "gen option \<Rightarrow> gen \<Rightarrow> bool" where
  "links p g \<longleftrightarrow> gn_round g = (case p of None \<Rightarrow> 0 | Some q \<Rightarrow> gn_round q) + 1 \<and> bl_Previous (gn_block g) = map_option gn_blockRef p \<and>
     bg_Prev (gn_graph g) = (if gn_round g = 1 then zero_BlockID else bg_Block (gn_graph (the p)))"

fun chained :: "bcfg \<Rightarrow> gen option \<Rightarrow> gen list \<Rightarrow> bool" where
  "chained cfg p [] = True"
| "chained cfg p (g # gs) = (gen_ok cfg g \<and> links p g \<and> chained cfg (Some g) gs)"

definition tip :: "gen option \<Rightarrow> gen list \<Rightarrow> gen option" where
  "tip p gs = (if gs = [] then p else Some (last gs))"

lemma tip_simps [simp]: "tip p [] = p" "tip p (g # gs) = tip (Some g) gs" "tip p (gs @ [g]) = Some g"
  by (simp_all add: tip_def)

lemma chained_snoc: "chained cfg p (gs @ [g]) \<longleftrightarrow> chained cfg p gs \<and> gen_ok cfg g \<and> links (tip p gs) g"
  by (induction gs arbitrary: p) auto

lemma chained_tip: "chained cfg p gs \<Longrightarrow> gs \<noteq> [] \<Longrightarrow> gen_ok cfg (last gs)"
  by (induction gs arbitrary: p) auto

text \<open>The service remembers the last own block.\<close>

definition tip_ok :: "gen option \<Rightarrow> svc \<Rightarrow> bool" where
  "tip_ok p v \<longleftrightarrow> v_round v = (case p of None \<Rightarrow> 0 | Some q \<Rightarrow> gn_round q) \<and> v_prevref v = map_option gn_blockRef p \<and>
     (\<forall>q. p = Some q \<longrightarrow> v_prevhash v = Hash (bg_Block (gn_graph q)))"

lemma tip_ok_keeps: "tip_ok p v \<Longrightarrow> keeps_chain v v' \<Longrightarrow> tip_ok p v'"
  by (simp add: tip_ok_def keeps_chain_def)

lemma build_chain:
  assumes "gen_build cfg v = Ok (g, v')" "tip_ok p v" "\<And>q. p = Some q \<Longrightarrow> gen_ok cfg q"
  shows "gen_ok cfg g" "links p g"
proof -
  obtain refs d where d: "dg_getBlocks (c_refSizeLimit cfg) (v_depgraph v) = (refs, d)" by (rule prod.exhaust)
  from assms(1) show "gen_ok cfg g"
    by (auto simp: gen_build_def d Let_def obind_eq_Ok gen_ok_def)
  from assms(1) have r: "gn_round g = v_round v + 1" "bl_Previous (gn_block g) = v_prevref v"
    "bg_Prev (gn_graph g) = (if gn_round g = 1 then zero_BlockID else \<lparr>Hash = v_prevhash v, Node = c_nodeID cfg, Round = v_round v\<rparr>)"
    by (auto simp: gen_build_def d Let_def obind_eq_Ok)
  then show "links p g" using assms(2,3) by (cases p) (auto simp: links_def tip_ok_def gen_ok_def Let_def)
qed

section \<open>The invariant of a run\<close>

fun inflight :: "stage \<Rightarrow> blockData list" where
  "inflight (Built g) = gn_refs g"
| "inflight _ = []"

fun stage_ok :: "bcfg \<Rightarrow> gen option \<Rightarrow> stage \<Rightarrow> svc \<Rightarrow> bool" where
  "stage_ok cfg p Idle v = tip_ok p v"
| "stage_ok cfg p (Built g) v = (tip_ok p v \<and> gen_ok cfg g \<and> links p g)"
| "stage_ok cfg p (Stored g) v = (p = Some g)"
| "stage_ok cfg p (Included g) v = (p = Some g)"

abbreviation merged :: "gen list \<Rightarrow> blockData list" where
  "merged gs \<equiv> concat (map gn_refs gs)"

definition last_data :: "gen list \<Rightarrow> (u64 \<times> bytes \<times> SignedData) option" where
  "last_data gs = map_option (\<lambda>g. (gn_round g, Hash (bg_Block (gn_graph g)), gn_blockRef g)) (tip None gs)"

definition node_inv :: "bcfg \<Rightarrow> SignedData set \<Rightarrow> (BlockID \<Rightarrow> BlockID list) \<Rightarrow> svc \<Rightarrow> stage \<Rightarrow> gen list \<Rightarrow> bool" where
  "node_inv cfg S D v st gs \<longleftrightarrow> (\<exists>a. dg_inv cfg S D a (merged gs) (inflight st) v \<and> a_last a = last_data gs) \<and>
     chained cfg None gs \<and> stage_ok cfg (tip None gs) st v"

lemma node_invI:
  assumes "dg_inv cfg S D a (merged gs) (inflight st) v" "a_last a = last_data gs" "chained cfg None gs" "stage_ok cfg (tip None gs) st v"
  shows "node_inv cfg S D v st gs"
  using assms unfolding node_inv_def by blast

lemma node_invE:
  assumes "node_inv cfg S D v st gs"
  obtains a where "dg_inv cfg S D a (merged gs) (inflight st) v" "a_last a = last_data gs" "chained cfg None gs" "stage_ok cfg (tip None gs) st v"
  using assms unfolding node_inv_def by blast

lemma stage_ok_keeps: "stage_ok cfg p st v \<Longrightarrow> keeps_chain v v' \<Longrightarrow> stage_ok cfg p st v'"
  by (cases st) (auto intro: tip_ok_keeps)

lemma inv_keeps:
  assumes "node_inv cfg S D v st gs" "keeps (c_codec cfg) v v'"
  shows "node_inv cfg S D v' st gs"
  using assms(1) by (rule node_invE)
    (rule node_invI, erule dg_inv_keeps [OF _ assms(2)], assumption+, erule stage_ok_keeps [OF _ keeps_imp_chain [OF assms(2)]])

lemma inv_receive:
  assumes "codec_ok (c_codec cfg)" "node_inv cfg S D v st gs" "sd \<in> S" "processBlock cfg sd v = Ok (r, v')"
  shows "node_inv cfg S D v' st gs"
  using assms(2)
proof (rule node_invE)
  fix a assume a: "dg_inv cfg S D a (merged gs) (inflight st) v" "a_last a = last_data gs" "chained cfg None gs" "stage_ok cfg (tip None gs) st v"
  note R = dg_inv_receive [OF assms(1) a(1) assms(3,4)]
  from R(1) obtain a' where a': "dg_inv cfg S D a' (merged gs) (inflight st) v'" "a_last a' = a_last a" by blast
  show ?thesis by (rule node_invI [OF a'(1) _ a(3) stage_ok_keeps [OF a(4) R(2)]]) (simp add: a'(2) a(2))
qed

lemma inv_accept_all:
  assumes "codec_ok (c_codec cfg)" "set bs \<subseteq> S" "node_inv cfg S D v st gs"
  shows "node_inv cfg S D (fst (accept_all cfg bs lst v)) st gs"
  using assms(2,3)
proof (induction bs arbitrary: lst v)
  case (Cons b bs)
  show ?case
  proof (cases "processBlock cfg b v")
    case (Ok p)
    then obtain k v1 where p: "processBlock cfg b v = Ok (k, v1)" by (cases p) simp
    from inv_receive [OF assms(1) Cons.prems(2) _ p] Cons.IH [of v1 k] Cons.prems(1) p show ?thesis by simp
  qed (use Cons.prems(2) in simp_all)
qed simp

lemma inv_accept_each:
  assumes "codec_ok (c_codec cfg)" "set bs \<subseteq> S" "node_inv cfg S D v st gs" "accept_each cfg bs seen v = Ok (x, v')"
  shows "node_inv cfg S D v' st gs"
  using assms(2-)
proof (induction bs arbitrary: seen v)
  case (Cons b bs)
  show ?case
  proof (cases "processBlock cfg b v")
    case (Ok p)
    then obtain k v1 where p: "processBlock cfg b v = Ok (k, v1)" by (cases p) simp
    from inv_receive [OF assms(1) Cons.prems(2) _ p] Cons.IH [of v1] Cons.prems(1,3) p show ?thesis by simp
  qed (use Cons in auto)
qed simp

lemma inv_handle:
  assumes "codec_ok (c_codec cfg)" "set (listed cfg m) \<subseteq> S" "node_inv cfg S D v st gs"
  shows "node_inv cfg S D (fst (bc_Handle cfg m v)) st gs"
proof -
  have "node_inv cfg S D (fst (handleBroadcastList cfg m v)) st gs"
    using inv_accept_all [OF assms(1) _ assms(3)] assms(2,3)
    by (cases "uList cfg (msg_Payload m)") (simp_all add: handleBroadcastList_def listed_def split_beta)
  moreover have "fst (handleGetBlocks cfg m v) = v" by (simp add: handleGetBlocks_def split: option.split)
  moreover have "node_inv cfg S D (fst (handleGetRounds cfg m v)) st gs"
    using assms(3) keeps_own_rounds inv_keeps [OF assms(3)]
    by (auto simp: handleGetRounds_def split: option.split outcome.split)
  ultimately show ?thesis using assms(3) by (simp add: bc_Handle_def)
qed

lemma inv_filled:
  assumes "codec_ok (c_codec cfg)" "set bs \<subseteq> S" "node_inv cfg S D v st gs" "fill_response cfg peer rounds lat bs v = Ok (x, v')"
  shows "node_inv cfg S D v' st gs"
proof (cases "bs = []")
  case True
  with assms show ?thesis by (simp add: fill_response_def)
next
  case False
  with assms(4) obtain seen v1 where 1: "accept_each cfg bs [] v = Ok (seen, v1)" "keeps (c_codec cfg) v1 v'"
    by (auto simp: fill_response_def Let_def obind_eq_Ok)
  from inv_keeps [OF inv_accept_each [OF assms(1-3) 1(1)] 1(2)] show ?thesis .
qed

lemma inv_turn:
  assumes "\<And>b. known cfg S b \<Longrightarrow> blk_ok (c_nodeID cfg) D b" "node_inv cfg S D v st gs"
    and t: "dg_in (v_depgraph v) = b # rest" "process_turn (v_store v) b rest (v_depgraph v) = Some (Ok d)"
  shows "node_inv cfg S D (v\<lparr>v_depgraph := d\<rparr>) st gs"
  using assms(2)
proof (rule node_invE)
  fix a assume a: "dg_inv cfg S D a (merged gs) (inflight st) v" "a_last a = last_data gs" "chained cfg None gs" "stage_ok cfg (tip None gs) st v"
  have "stage_ok cfg (tip None gs) st (v\<lparr>v_depgraph := d\<rparr>)" using a(4) by (rule stage_ok_keeps) (simp add: keeps_chain_def)
  from node_invI [OF dg_inv_turn [OF assms(1) a(1) t] a(2,3) this] show ?thesis .
qed

lemma inv_build:
  assumes "node_inv cfg S D v Idle gs" "gen_build cfg v = Ok (g, v')"
  shows "node_inv cfg S D v' (Built g) gs"
  using assms(1)
proof (rule node_invE)
  fix a assume a: "dg_inv cfg S D a (merged gs) (inflight Idle) v" "a_last a = last_data gs" "chained cfg None gs" "stage_ok cfg (tip None gs) Idle v"
  note B = dg_inv_build [OF a(1) [unfolded inflight.simps] assms(2)]
  have t: "tip_ok (tip None gs) v" using a(4) by simp
  have q: "gen_ok cfg q" if "tip None gs = Some q" for q using chained_tip [OF a(3)] that by (auto simp: tip_def split: if_splits)
  have "stage_ok cfg (tip None gs) (Built g) v'" using tip_ok_keeps [OF t B(2)] build_chain [OF assms(2) t q] by simp
  then show ?thesis using B(1) a(2,3) by (intro node_invI) simp_all
qed

lemma inv_save:
  assumes "\<And>b. known cfg S b \<Longrightarrow> Node (bd_id b) \<noteq> c_nodeID cfg" "codec_ok (c_codec cfg)"
    and "node_inv cfg S D v (Built g) gs" "gen_store cfg g v = Ok v'"
  shows "node_inv cfg S D v' (Stored g) (gs @ [g])"
  using assms(3)
proof (rule node_invE)
  fix a assume a: "dg_inv cfg S D a (merged gs) (inflight (Built g)) v" "a_last a = last_data gs" "chained cfg None gs" "stage_ok cfg (tip None gs) (Built g) v"
  have g: "gen_ok cfg g" "links (tip None gs) g" using a(4) by simp_all
  then have d: "dep_Block ` set (bg_Deps (gn_graph g)) = bd_id ` set (gn_refs g)" "Node (bg_Block (gn_graph g)) = c_nodeID cfg"
    and r: "Round (bg_Block (gn_graph g)) = gn_round g" by (simp_all add: gen_ok_def Let_def image_image)
  from dg_inv_save [OF assms(1,2) a(1) [unfolded inflight.simps] assms(4) d] obtain a' where
    "dg_inv cfg S D a' (merged gs @ gn_refs g) [] v'" "a_last a' = Some (gn_round g, Hash (bg_Block (gn_graph g)), gn_blockRef g)"
    unfolding r by blast
  then show ?thesis using a(3) g by (intro node_invI [where a = a']) (simp_all add: chained_snoc last_data_def)
qed

lemma inv_included:
  assumes "node_inv cfg S D v (Stored g) gs"
  shows "node_inv cfg S D (gen_include g v) (Included g) gs"
  using assms
proof (rule node_invE)
  fix a assume a: "dg_inv cfg S D a (merged gs) (inflight (Stored g)) v" "a_last a = last_data gs" "chained cfg None gs" "stage_ok cfg (tip None gs) (Stored g) v"
  have "g \<in> set gs" using a(4) by (auto simp: tip_def split: if_splits)
  then have "bd_id ` set (gn_refs g) \<subseteq> bd_id ` set (merged gs)" by auto
  from dg_inv_include [OF a(1) this] a(2-4) show ?thesis by (intro node_invI) simp_all
qed

lemma inv_finish:
  assumes "node_inv cfg S D v (Included g) gs" "gen_finish g v = Some v'"
  shows "node_inv cfg S D v' Idle gs"
  using assms(1)
proof (rule node_invE)
  fix a assume a: "dg_inv cfg S D a (merged gs) (inflight (Included g)) v" "a_last a = last_data gs" "chained cfg None gs" "stage_ok cfg (tip None gs) (Included g) v"
  have v: "v_depgraph v' = v_depgraph v" "v_store v' = v_store v" "tip_ok (Some g) v'"
    using assms(2) by (auto simp: gen_finish_def tip_ok_def Let_def split: if_splits)
  have "dg_inv cfg S D a (merged gs) [] v'" using a(1) by (simp add: dg_inv_cong [OF v(1,2)])
  with a(2-4) v(3) show ?thesis by (intro node_invI) simp_all
qed

lemma loaded_tip:
  assumes "core (c_codec cfg) s a" "a_last a = map_option (\<lambda>g. (gn_round g, Hash (bg_Block (gn_graph g)), gn_blockRef g)) p"
    and "loadState cfg rt s = Some (Ok (v, gs))"
  shows "tip_ok p v"
proof -
  obtain k v0 where l: "loaded cfg rt s = Ok (k, v0)"
    and v: "v_round v = v_round v0" "v_prevhash v = v_prevhash v0" "v_prevref v = v_prevref v0"
    by (rule loadState_cases [OF assms(3)]) (use that in auto)
  from l obtain x where "or_default (0, [], None) (omap (\<lambda>(r, h, x). (r, h, Some x)) (getLastRoundData (c_codec cfg) s)) = Ok x"
    "v_round v0 = fst x" "v_prevhash v0 = fst (snd x)" "v_prevref v0 = snd (snd x)"
    by (auto simp: loaded_def obind_eq_Ok)
  with getLast_abs [OF assms(1)] assms(2) v show ?thesis
    by (cases p) (auto simp: tip_ok_def or_default_def found_def)
qed

lemma inv_restart:
  assumes "node_inv cfg S D v st gs" "loadState cfg rt (v_store v) = Some (Ok (v', bg))"
  shows "node_inv cfg S D v' Idle gs"
  using assms(1)
proof (rule node_invE)
  fix a assume a: "dg_inv cfg S D a (merged gs) (inflight st) v" "a_last a = last_data gs" "chained cfg None gs" "stage_ok cfg (tip None gs) st v"
  note I = dg_invD [OF a(1)]
  have "causal (c_nodeID cfg) {} (merged gs)" using I(5) by (simp add: causal_append)
  moreover have "\<forall>b \<in> set (merged gs). known cfg S b" using I(6) by simp
  ultimately have "dg_inv cfg S D a (merged gs) (inflight Idle) v'" using dg_inv_load [OF I(1-3) _ _ assms(2)] by simp
  moreover have "stage_ok cfg (tip None gs) Idle v'" using loaded_tip [OF I(1) a(2) [unfolded last_data_def] assms(2)] by simp
  ultimately show ?thesis using a(2,3) by (intro node_invI)
qed

lemmas inv_progress = keeps_fill_request keeps_callback keeps_Register keeps_writes keeps_unsent

lemma step_inv:
  assumes fair: "\<And>b. known cfg S b \<Longrightarrow> Node (bd_id b) \<noteq> c_nodeID cfg" and D: "\<And>b. known cfg S b \<Longrightarrow> blk_ok (c_nodeID cfg) D b"
    and c: "codec_ok (c_codec cfg)" and step: "bc_step cfg S n n'" and inv: "node_inv cfg S D (nd_svc n) (nd_stage n) (nd_made n)"
  shows "node_inv cfg S D (nd_svc n') (nd_stage n') (nd_made n')"
  using step
proof cases
  case (handle m v r)
  with inv_handle [OF c handle(2) inv] show ?thesis by simp
next
  case (filled bs peer rounds lat x v)
  with inv_filled [OF c filled(2) inv filled(3)] show ?thesis by simp
next
  case (turn b rest d)
  with inv_turn [OF D inv turn(2,3)] show ?thesis by simp
next
  case (build g v)
  with inv_build [OF inv [unfolded build(2)] build(3)] show ?thesis by simp
next
  case (save g v)
  with inv_save [OF fair c inv [unfolded save(2)] save(3)] show ?thesis by simp
next
  case (included g)
  with inv_included [OF inv [unfolded included(2)]] show ?thesis by simp
next
  case (finish g v)
  with inv_finish [OF inv [unfolded finish(2)] finish(3)] show ?thesis by simp
next
  case (restart rt v gs)
  with inv_restart [OF inv restart(2)] show ?thesis by simp
next
  case (unsent peer bs v)
  then show ?thesis using inv_keeps [OF inv] keeps_unsent by (auto simp: getUnsent_def Let_def omap_eq_Ok split: if_splits)
qed (simp_all add: inv_keeps [OF inv] inv_progress markSent_def set_rate_def)

lemma reach_inv:
  assumes c: "codec_ok (c_codec cfg)" and fair: "fair_blocks cfg S" and D: "\<And>b. known cfg S b \<Longrightarrow> blk_ok (c_nodeID cfg) D b"
    and "bc_reach cfg S n"
  shows "node_inv cfg S D (nd_svc n) (nd_stage n) (nd_made n)"
  using assms(4)
proof induction
  case (start rt v gs)
  have e: "core (c_codec cfg) new_bstore a_empty" by (rule repr_core [OF new_repr])
  have "dg_inv cfg S D a_empty [] [] v"
    by (rule dg_inv_load [OF e _ _ _ _ start]) (simp_all add: stored_ok_def incl_ids_def a_empty_def)
  moreover have "tip_ok None v" by (rule loaded_tip [OF e _ start]) (simp add: a_empty_def)
  ultimately have "node_inv cfg S D v Idle []"
    by (intro node_invI [where a = a_empty]) (simp_all add: last_data_def a_empty_def)
  then show ?case by simp
next
  case (later n n')
  have "Node (bd_id b) \<noteq> c_nodeID cfg" if "known cfg S b" for b using fair that by (simp add: fair_blocks_def)
  from step_inv [OF this D c later(2,3)] show ?case .
qed

lemma reach_facts:
  assumes "codec_ok (c_codec cfg)" "fair_blocks cfg S" "bc_reach cfg S n"
  obtains D a where "\<forall>b. known cfg S b \<longrightarrow> blk_ok (c_nodeID cfg) D b" "chained cfg None (nd_made n)"
    "dg_inv cfg S D a (merged (nd_made n)) (inflight (nd_stage n)) (nd_svc n)"
proof (rule fair_refs [OF assms(2)])
  fix D assume D: "\<And>b. known cfg S b \<Longrightarrow> blk_ok (c_nodeID cfg) D b"
  from reach_inv [OF assms(1,2) D assms(3)] D that show thesis by (blast elim: node_invE)
qed

end
