(* ===== verification/BcDemo.thy ===== *)
theory BcDemo
  imports BcNode
begin

text \<open>
  A small run of a broadcast node: node 1 receives the first block of node 2, works on it, and makes
  its first own block, which includes it. It shows that the hypotheses on runs can hold.
\<close>

section \<open>Configuration\<close>

text \<open>An encoder that knows two blocks, and a hash that appends bytes.\<close>

definition peer_block :: Block where
  "peer_block = \<lparr>bl_Node = 2, bl_Previous = None, bl_References = [], bl_Round = 1, bl_Transactions = None\<rparr>"

definition peer_ref :: SignedData where
  "peer_ref = (let d = 2 # 1 # 5 # replicate 12 0 in \<lparr>sd_Data = d, sd_Signature = d\<rparr>)"

definition peer_data :: blockData where
  "peer_data = \<lparr>bd_deps = [], bd_id = \<lparr>Hash = 5 # replicate 12 0, Node = 2, Round = 1\<rparr>, bd_prev = zero_BlockID, bd_ref = peer_ref\<rparr>"

definition peer_signed :: SignedData where
  "peer_signed = \<lparr>sd_Data = [5], sd_Signature = sd_Signature peer_ref\<rparr>"

definition first_block :: Block where
  "first_block = \<lparr>bl_Node = 1, bl_Previous = None, bl_References = [peer_ref], bl_Round = 1,
     bl_Transactions = Some \<lparr>txs_Count = 0, txs_Data = []\<rparr>\<rparr>"

definition pair_codec :: bcodec where
  "pair_codec = \<lparr>mSigned = mSigned demo_codec, uSigned = uSigned demo_codec,
     mBlock = (\<lambda>b. if b = peer_block then Some [5] else if b = first_block then Some [7] else None),
     uBlock = (\<lambda>d. if d = [5] then Some peer_block else if d = [7] then Some first_block else None),
     mRef = (\<lambda>r. if br_Node r \<in> {1, 2} \<and> br_Round r = 1 then Some (ucast (br_Node r) # ucast (br_Round r) # br_Hash r) else None),
     uRef = (\<lambda>d. case d of n # r # h \<Rightarrow> Some \<lparr>br_Hash = h, br_Node = ucast n, br_Round = ucast r\<rparr> | _ \<Rightarrow> None),
     csha = (\<lambda>d. d @ replicate 12 0)\<rparr>"

definition pair_cfg :: bcfg where
  "pair_cfg = \<lparr>c_codec = pair_codec, c_keys = [(1, (=)), (2, (=))], c_sign = id, c_nodeID = 1, c_peers = [2], c_totalNodes = 2,
     c_maxPayload = 10000, c_refSizeLimit = 1000, c_txSizeLimit = 200, uList = (\<lambda>p. Some [peer_signed]), mList = (\<lambda>bs. Some []),
     uGetBlocks = (\<lambda>p. None), uGetRounds = (\<lambda>p. None), mAck = (\<lambda>r. Some [])\<rparr>"

lemma pair_simps:
  "c_codec pair_cfg = pair_codec" "c_keys pair_cfg = [(1, (=)), (2, (=))]" "c_sign pair_cfg = id" "c_nodeID pair_cfg = 1"
  "c_peers pair_cfg = [2]" "c_refSizeLimit pair_cfg = 1000" "c_txSizeLimit pair_cfg = 200" "uList pair_cfg = (\<lambda>p. Some [peer_signed])"
  by (simp_all add: pair_cfg_def)

lemma pair_codec_ok: "codec_ok pair_codec"
  using demo_codec_ok by (simp add: codec_ok_def pair_codec_def)

lemma pair_marshals: "length (sd_Data x) < 256 \<Longrightarrow> \<exists>b. mSigned pair_codec x = Some b"
  by (simp add: pair_codec_def demo_codec_def)

lemma blocks_differ: "peer_block \<noteq> first_block"
  by (simp add: peer_block_def first_block_def)

lemma pair_mRef_law: "mRef pair_codec r = Some x \<Longrightarrow> uRef pair_codec x = Some r"
  by (cases r) (auto simp: pair_codec_def split: if_splits)

lemma peer_checked: "check_block pair_cfg peer_signed = Ok peer_data"
  by (simp add: check_block_def pair_simps peer_signed_def pair_codec_def peer_block_def peer_ref_def check_prev_def peer_data_def
      ref_id_def Let_def)

lemma pair_fair: "fair_blocks pair_cfg {peer_signed}"
  by (auto simp: fair_blocks_def known_def peer_checked pair_simps peer_data_def printable_def)

section \<open>The run\<close>

definition pair_start :: svc where
  "pair_start = \<lparr>v_cb = False, v_delivered = [], v_depgraph = new_depgraph 1,
     v_graph = New \<lparr>LastInterpreted = 0, Nodes = [1, 2], SelfID = 1, TotalNodes = 2\<rparr>, v_interpreted = 0,
     v_own = \<lparr>ob_data = [], ob_latest = 0\<rparr>, v_prevhash = [], v_prevref = None, v_received = [(2, \<lparr>latest = 0, sequence = 0\<rparr>)],
     v_round = 0, v_sent = [(2, 0)], v_store = new_bstore, v_tx = new_txbuf 200, v_txCountLimit = 10\<rparr>"

lemma pair_loaded: "loadState pair_cfg 10 new_bstore = Some (Ok (pair_start, []))"
proof -
  have e: "core c new_bstore a_empty" "repr c new_bstore a_empty" for c by (rule repr_core [OF new_repr], rule new_repr)
  have "getLastRoundData c new_bstore = Err (BsBadger ErrKeyNotFound)" for c
    using getLast_abs [OF e(1)] by (simp add: a_empty_def found_def)
  moreover have "getLastInterpreted new_bstore = Err (BsBadger ErrKeyNotFound)"
    using getProgress_abs(1) [OF e(2)] by (simp add: a_empty_def found_def)
  moreover have "getReceivedMap new_bstore = Err (BsBadger ErrKeyNotFound)" "getSentMap new_bstore = Err (BsBadger ErrKeyNotFound)"
    by (simp_all add: getReceivedMap_def getSentMap_def view_def new_bstore_def db_get_def db_simps)
  moreover have "getNotIncluded c new_bstore = Ok []" for c
    by (simp add: getNotIncluded_def view_def new_bstore_def iter_from_def)
  moreover have "graph_batches 1 0 100 new_bstore [] = Some ([], Ok ())"
    by (subst graph_batches.simps) (simp add: getBlockGraphs_def view_def new_bstore_def iter_from_def)
  ultimately show ?thesis
    by (simp add: loadState_def loaded_def or_default_def replayGraphChanges_def pair_start_def pair_simps) (simp add: pair_cfg_def)
qed

lemma pair_received:
  obtains s v where "bc_Handle pair_cfg \<lparr>msg_ID = 0, msg_Error = [], msg_Opcode = 2, msg_Payload = []\<rparr> pair_start =
      (v, Ok \<lparr>msg_ID = 0, msg_Error = [], msg_Opcode = 1, msg_Payload = []\<rparr>)"
    "v_store v = s" "v_depgraph v = dg_add peer_data (new_depgraph 1)" "v_round v = 0" "v_prevref v = None" "v_tx v = new_txbuf 200"
    "\<And>i. store_isIncluded i s = Ok False" "\<not> bs_closed s"
proof -
  have "mSigned pair_codec peer_signed \<noteq> None" by (simp add: pair_codec_def demo_codec_def peer_signed_def)
  then obtain s where s: "store_setBlock pair_codec (bd_id peer_data) peer_signed new_bstore = Ok s"
    using run_op_ok [of pair_codec "SetBlock (bd_id peer_data) peer_signed" new_bstore] by (auto simp: new_bstore_def)
  let ?v = "pair_start\<lparr>v_store := s, v_depgraph := dg_add peer_data (new_depgraph 1), v_received := rm_set 2 1 (v_received pair_start)\<rparr>"
  have "processBlock pair_cfg peer_signed pair_start = Ok (1, ?v)"
    using s by (simp add: processBlock_def peer_checked svc_setBlock_def pair_simps pair_start_def) (simp add: peer_data_def)
  then have "bc_Handle pair_cfg \<lparr>msg_ID = 0, msg_Error = [], msg_Opcode = 2, msg_Payload = []\<rparr> pair_start =
      (?v, Ok \<lparr>msg_ID = 0, msg_Error = [], msg_Opcode = 1, msg_Payload = []\<rparr>)"
    by (simp add: bc_Handle_def handleBroadcastList_def pair_simps bc_reply_def) (simp add: pair_cfg_def)
  moreover have c: "core pair_codec s (abs_op (SetBlock (bd_id peer_data) peer_signed) a_empty)"
    by (rule setBlock_core [OF s pair_codec_ok repr_core [OF new_repr]])
  then have "store_isIncluded i s = Ok False" for i by (simp add: isIncluded_abs a_empty_def)
  moreover have "\<not> bs_closed s" using c by (simp add: core_def)
  ultimately show thesis using that [of ?v s] by (simp add: pair_start_def)
qed

lemma release_Nil: "release s [] seen first d = Some (Ok d)"
  by (subst release.simps) simp

lemma pair_turn:
  assumes "\<And>i. store_isIncluded i s = Ok False"
  obtains d where "process_turn s peer_data [] (dg_add peer_data (new_depgraph 1)) = Some (Ok d)" "dg_blocks d = [peer_data]"
proof -
  let ?i = "bd_id peer_data"
  define d0 where "d0 = (prune_icache (dg_add peer_data (new_depgraph 1)))\<lparr>dg_in := []\<rparr>"
  have d0: "dg_tcache d0 = []" "dg_icache d0 = []" "dg_blocks d0 = []" "dg_await d0 = []"
    by (simp_all add: d0_def prune_icache_def new_depgraph_def dg_add_def Let_def)
  let ?d = "(markIncluded ?i (d0\<lparr>dg_icache := mput ?i False []\<rparr>))\<lparr>dg_blocks := [peer_data]\<rparr>"
  have "needs me peer_data = []" for me by (simp add: needs_def peer_data_def Valid_def)
  then have "dg_processBlock s peer_data d0 = Ok (True, ?d)"
    using d0 by (simp add: dg_processBlock_def dg_isIncluded_def assms Let_def markIncluded_def)
  moreover have "release s [?i] [(?i, True)] True ?d = Some (Ok (?d\<lparr>dg_await := []\<rparr>))"
    using d0 by (subst release.simps) (simp add: awaiting_def markIncluded_def Let_def release_Nil)
  ultimately show thesis using that by (simp add: process_turn_def d0_def [symmetric])
qed

lemma pair_built:
  assumes "v_depgraph v = d" "dg_blocks d = [peer_data]" "v_round v = 0" "v_prevref v = None" "v_tx v = new_txbuf 200"
  obtains g v' where "gen_build pair_cfg v = Ok (g, v')" "gn_refs g = [peer_data]" "v_store v' = v_store v"
    "length (sd_Data (gn_signed g)) < 256" "length (sd_Data (gn_blockRef g)) < 256"
proof -
  have "dg_getBlocks 1000 d = ([peer_data], d\<lparr>dg_blocks := []\<rparr>)"
    using assms(2) by (simp add: dg_getBlocks_def SignedData_Size_def peer_data_def peer_ref_def Let_def)
  moreover have "cut (new_txbuf 200) = Ok (\<lparr>txs_Count = 0, txs_Data = []\<rparr>, (new_txbuf 200)\<lparr>txCount := 0, txIdx := 0\<rparr>)"
    by (simp add: cut_def new_txbuf_def slice_def)
  moreover have "mBlock pair_codec \<lparr>bl_Node = 1, bl_Previous = None, bl_References = [peer_ref], bl_Round = 1,
      bl_Transactions = Some \<lparr>txs_Count = 0, txs_Data = []\<rparr>\<rparr> = Some [7]"
    using blocks_differ by (simp add: pair_codec_def first_block_def)
  moreover have "bd_ref peer_data = peer_ref" by (simp add: peer_data_def)
  moreover have "mRef pair_codec \<lparr>br_Hash = csha pair_codec [7], br_Node = 1, br_Round = 1\<rparr> = Some (1 # 1 # 7 # replicate 12 0)"
    by (simp add: pair_codec_def)
  ultimately have "\<exists>g v'. gen_build pair_cfg v = Ok (g, v') \<and> gn_refs g = [peer_data] \<and> v_store v' = v_store v \<and>
      length (sd_Data (gn_signed g)) < 256 \<and> length (sd_Data (gn_blockRef g)) < 256"
    by (simp add: gen_build_def pair_simps assms Let_def fatal_def)
  then show thesis using that by blast
qed

text \<open>The node reaches a state with one own block, which includes the block of the peer.\<close>

lemma pair_run: "\<exists>n g. bc_reach pair_cfg {peer_signed} n \<and> nd_made n = [g] \<and> gn_refs g = [peer_data]"
proof -
  let ?S = "{peer_signed}"
  let ?n = "\<lambda>v st gs. \<lparr>nd_svc = v, nd_stage = st, nd_made = gs\<rparr>"
  obtain s v where h: "bc_Handle pair_cfg \<lparr>msg_ID = 0, msg_Error = [], msg_Opcode = 2, msg_Payload = []\<rparr> pair_start =
      (v, Ok \<lparr>msg_ID = 0, msg_Error = [], msg_Opcode = 1, msg_Payload = []\<rparr>)"
    and v: "v_store v = s" "v_depgraph v = dg_add peer_data (new_depgraph 1)" "v_round v = 0" "v_prevref v = None" "v_tx v = new_txbuf 200"
    and s: "\<forall>i. store_isIncluded i s = Ok False" "\<not> bs_closed s"
    by (rule pair_received) blast
  obtain d where d: "process_turn s peer_data [] (dg_add peer_data (new_depgraph 1)) = Some (Ok d)" "dg_blocks d = [peer_data]"
    by (rule pair_turn) (use s(1) in blast)+
  obtain g v2 where g: "gen_build pair_cfg (v\<lparr>v_depgraph := d\<rparr>) = Ok (g, v2)" "gn_refs g = [peer_data]" "v_store v2 = s"
    "length (sd_Data (gn_signed g)) < 256" "length (sd_Data (gn_blockRef g)) < 256"
    by (rule pair_built [of "v\<lparr>v_depgraph := d\<rparr>" d]) (use v d(2) in simp_all)
  obtain x y where "mSigned pair_codec (gn_signed g) = Some x" "mSigned pair_codec (gn_blockRef g) = Some y"
    using pair_marshals g(4,5) by blast
  from setOwnBlock_ok [OF s(2) this] obtain s3 where "store_setOwnBlock pair_codec (gn_signed g) (gn_blockRef g) (gn_graph g) s = Ok s3"
    by blast
  then obtain v3 where v3: "gen_store pair_cfg g v2 = Ok v3"
    using g(3) by (simp add: gen_store_def svc_setOwnBlock_def pair_simps)
  have "bc_reach pair_cfg ?S (?n pair_start Idle [])" by (rule bc_reach.start [OF pair_loaded])
  moreover have "bc_step pair_cfg ?S (?n pair_start Idle []) (?n v Idle [])"
    using bc_step.handle [of pair_cfg _ ?S "?n pair_start Idle []", OF _ _, simplified, OF _ h] by (simp add: listed_def pair_simps)
  moreover have "bc_step pair_cfg ?S (?n v Idle []) (?n (v\<lparr>v_depgraph := d\<rparr>) Idle [])"
    using bc_step.turn [of "?n v Idle []" peer_data "[]" d pair_cfg ?S] v d(1) by (simp add: dg_add_def new_depgraph_def)
  moreover have "bc_step pair_cfg ?S (?n (v\<lparr>v_depgraph := d\<rparr>) Idle []) (?n v2 (Built g) [])"
    using bc_step.build [of "?n (v\<lparr>v_depgraph := d\<rparr>) Idle []" pair_cfg g v2 ?S] g(1) by simp
  moreover have "bc_step pair_cfg ?S (?n v2 (Built g) []) (?n v3 (Stored g) [g])"
    using bc_step.save [of "?n v2 (Built g) []" g pair_cfg v3 ?S] v3 by simp
  ultimately have "bc_reach pair_cfg ?S (?n v3 (Stored g) [g])" by (blast intro: bc_reach.later)
  with g(2) show ?thesis by (intro exI [of _ "?n v3 (Stored g) [g]"] exI [of _ g]) simp
qed

end
