(* ===== verification/BcChain.thy ===== *)
theory BcChain
  imports BcNode BcDemo
begin

text \<open>
  What the runs of a broadcast node guarantee: received blocks are included once, after everything
  they refer to; the own blocks form one chain, also across crashes; peers accept every own block and
  read from it the graph that the node interprets; and no received block is lost or waits in vain.
\<close>

section \<open>Own blocks and their checks\<close>

lemma chained_nth:
  assumes "chained cfg p gs" "k < length gs"
  shows "gen_ok cfg (gs ! k) \<and> links (if k = 0 then p else Some (gs ! (k - 1))) (gs ! k)"
  using assms
proof (induction gs arbitrary: p k)
  case (Cons g gs)
  show ?case
  proof (cases k)
    case (Suc j)
    with Cons.IH [of "Some g" j] Cons.prems show ?thesis by (cases j) simp_all
  qed (use Cons.prems in simp)
qed simp

lemma chained_rounds:
  assumes "chained cfg None gs" "k < length gs"
  shows "gn_round (gs ! k) = of_nat (Suc k)"
  using assms(2)
proof (induction k)
  case 0
  with chained_nth [OF assms(1), of 0] show ?case by (simp add: links_def)
next
  case (Suc k)
  with chained_nth [OF assms(1), of "Suc k"] show ?case by (simp add: links_def)
qed

text \<open>The laws of the message encoders and of the own signature.\<close>

definition bc_laws :: "bcfg \<Rightarrow> bool" where
  "bc_laws cfg \<longleftrightarrow> (\<forall>b x. mBlock (c_codec cfg) b = Some x \<longrightarrow> uBlock (c_codec cfg) x = Some b) \<and>
     (\<forall>r x. mRef (c_codec cfg) r = Some x \<longrightarrow> uRef (c_codec cfg) x = Some r) \<and>
     (\<exists>verify. map_of (c_keys cfg) (c_nodeID cfg) = Some verify \<and> (\<forall>x. verify x (c_sign cfg x)))"

lemma known_ref:
  assumes "known cfg S b" "bc_laws cfg"
  shows "\<exists>ref verify. uRef (c_codec cfg) (sd_Data (bd_ref b)) = Some ref \<and> map_of (c_keys cfg) (br_Node ref) = Some verify \<and>
    verify (sd_Data (bd_ref b)) (sd_Signature (bd_ref b)) \<and> ref_id ref = bd_id b"
proof -
  from assms(1) obtain sd where "check_block cfg sd = Ok b" by (auto simp: known_def)
  then show ?thesis
  proof (rule check_blockE)
    fix block verify enc prev j deps
    let ?r = "\<lparr>br_Hash = csha (c_codec cfg) (sd_Data sd), br_Node = bl_Node block, br_Round = bl_Round block\<rparr>"
    assume k: "map_of (c_keys cfg) (bl_Node block) = Some verify" "verify enc (sd_Signature sd)" and m: "mRef (c_codec cfg) ?r = Some enc"
      and b: "b = \<lparr>bd_deps = deps, bd_id = ref_id ?r, bd_prev = prev, bd_ref = \<lparr>sd_Data = enc, sd_Signature = sd_Signature sd\<rparr>\<rparr>"
    from m assms(2) have "uRef (c_codec cfg) enc = Some ?r" by (simp add: bc_laws_def)
    with k b show ?thesis by simp
  qed
qed

lemma refs_accepted:
  assumes "\<forall>b \<in> set bs. known cfg S b \<and> Node (bd_id b) \<noteq> node" "bc_laws cfg"
  shows "\<exists>j. ofold (check_ref cfg node) (map bd_ref bs) (i, acc) = Ok (j, acc @ map bd_id bs)"
  using assms(1)
proof (induction bs arbitrary: i acc)
  case (Cons b bs)
  from known_ref [OF _ assms(2)] Cons.prems obtain ref verify where r: "uRef (c_codec cfg) (sd_Data (bd_ref b)) = Some ref"
    "map_of (c_keys cfg) (br_Node ref) = Some verify" "verify (sd_Data (bd_ref b)) (sd_Signature (bd_ref b))" "ref_id ref = bd_id b"
    by (metis list.set_intros(1))
  have "br_Node ref \<noteq> node" using Cons.prems r(4) by (auto simp: ref_id_def dest: sym)
  with r have "check_ref cfg node (bd_ref b) (i, acc) = Ok (Suc i, acc @ [bd_id b])" by (simp add: check_ref_Ok)
  with Cons.IH [of "Suc i" "acc @ [bd_id b]"] Cons.prems show ?case by simp
qed simp

lemma own_block_accepted:
  assumes g: "gen_ok cfg g" "links p g" "\<And>q. p = Some q \<Longrightarrow> gen_ok cfg q" and laws: "bc_laws cfg"
    and refs: "\<forall>b \<in> set (gn_refs g). known cfg S b \<and> Node (bd_id b) \<noteq> c_nodeID cfg"
  shows "check_block cfg (gn_signed g) = Ok \<lparr>bd_deps = map bd_id (gn_refs g), bd_id = bg_Block (gn_graph g), bd_prev = bg_Prev (gn_graph g),
    bd_ref = gn_blockRef g\<rparr>"
proof -
  from laws obtain verify where v: "map_of (c_keys cfg) (c_nodeID cfg) = Some verify" "\<And>x. verify x (c_sign cfg x)" by (auto simp: bc_laws_def)
  from refs_accepted [OF refs laws, of 0 "[]"] obtain j where
    j: "ofold (check_ref cfg (c_nodeID cfg)) (map bd_ref (gn_refs g)) (0, []) = Ok (j, map bd_id (gn_refs g))" by auto
  have "check_prev cfg verify (gn_block g) = Ok (bg_Prev (gn_graph g))"
  proof (cases "gn_round g = 1")
    case True
    with g show ?thesis by (simp add: check_prev_def gen_ok_def links_def Let_def)
  next
    case False
    with g(2) obtain q where q: "p = Some q" by (cases p) (auto simp: links_def)
    from g(3) [OF q] laws have "uRef (c_codec cfg) (sd_Data (gn_blockRef q)) =
        Some \<lparr>br_Hash = csha (c_codec cfg) (sd_Data (gn_signed q)), br_Node = c_nodeID cfg, br_Round = gn_round q\<rparr>"
      by (simp add: gen_ok_def bc_laws_def Let_def)
    with False g(1,2) g(3) [OF q] q v(2) show ?thesis by (simp add: check_prev_def gen_ok_def links_def Let_def ref_id_def)
  qed
  moreover have "uBlock (c_codec cfg) (sd_Data (gn_signed g)) = Some (gn_block g)"
    using g(1) laws by (simp add: gen_ok_def bc_laws_def Let_def)
  moreover have "gn_blockRef g = \<lparr>sd_Data = sd_Data (gn_blockRef g), sd_Signature = sd_Signature (gn_signed g)\<rparr>"
    using g(1) by (simp add: gen_ok_def Let_def)
  ultimately show ?thesis
    using g(1) v j by (simp add: check_block_def gen_ok_def Let_def ref_id_def)
qed

lemma check_block_cong:
  assumes "c_codec cfg' = c_codec cfg" "c_keys cfg' = c_keys cfg"
  shows "check_block cfg' sd = check_block cfg sd"
  unfolding check_block_def check_prev_def check_ref_def [abs_def] assms ..

text \<open>A block that refers to a block of its own node is refused, so a node that includes one of its own
  blocks is no longer heard.\<close>

lemma check_refs_nodes:
  "ofold (check_ref cfg node) refs (k, acc) = Ok (j, deps) \<Longrightarrow> x \<in> set deps \<Longrightarrow> x \<in> set acc \<or> Node x \<noteq> node"
proof (induction refs arbitrary: k acc)
  case (Cons r refs)
  from Cons.prems(1) obtain ref where "br_Node ref \<noteq> node" "ofold (check_ref cfg node) refs (Suc k, acc @ [ref_id ref]) = Ok (j, deps)"
    by (auto simp: obind_eq_Ok check_ref_Ok)
  with Cons.IH Cons.prems(2) show ?case by (fastforce simp: ref_id_def)
qed simp

lemma same_node_refused:
  assumes "check_block cfg sd = Ok b" "i \<in> set (bd_deps b)"
  shows "Node i \<noteq> Node (bd_id b)"
  using assms(1) by (rule check_blockE) (use assms(2) check_refs_nodes [of cfg _ _ 0 "[]" _ _ i] in \<open>auto simp: ref_id_def\<close>)

section \<open>Properties\<close>

text \<open>\<^bold>\<open>C4\<close>: blocks are included once and in causal order. In every run of a node, with messages of
  peers, turns of the dependency graph and the steps of block production in any order, and with
  crashes and restarts anywhere, the blocks that its own blocks refer to, taken in order, contain no
  block twice, each comes after its previous block and all blocks of other nodes it refers to, and
  each passed the checks. It is assumed that decoding inverts encoding and that the peers' blocks are
  fair: no hash collision, hashes of printable length, no block of the node itself sent back.\<close>

theorem included_causally:
  assumes "codec_ok (c_codec cfg)" "fair_blocks cfg S" "bc_reach cfg S n"
  shows "causal (c_nodeID cfg) {} (merged (nd_made n)) \<and> (\<forall>b \<in> set (merged (nd_made n)). known cfg S b)"
proof -
  obtain D a where D: "\<forall>b. known cfg S b \<longrightarrow> blk_ok (c_nodeID cfg) D b"
    and a: "dg_inv cfg S D a (merged (nd_made n)) (inflight (nd_stage n)) (nd_svc n)" using assms(1-3) by (rule reach_facts)
  from dg_invD(5,6) [OF a] show ?thesis by (auto simp: causal_append)
qed

theorem included_causally_witness:
  "\<exists>n. bc_reach pair_cfg {peer_signed} n \<and> merged (nd_made n) = [peer_data] \<and>
     causal (c_nodeID pair_cfg) {} (merged (nd_made n)) \<and> (\<forall>b \<in> set (merged (nd_made n)). known pair_cfg {peer_signed} b)"
proof -
  from pair_run obtain n g where n: "bc_reach pair_cfg {peer_signed} n" "nd_made n = [g]" "gn_refs g = [peer_data]" by blast
  from included_causally [OF _ pair_fair n(1)] pair_codec_ok have "causal (c_nodeID pair_cfg) {} (merged (nd_made n)) \<and>
    (\<forall>b \<in> set (merged (nd_made n)). known pair_cfg {peer_signed} b)" by (simp add: pair_simps)
  with n show ?thesis by (intro exI [of _ n]) simp
qed

text \<open>\<^bold>\<open>C5\<close>: a node never contradicts itself. In every run, crashes and restarts included, the own blocks
  written to the store have the rounds 1, 2, 3 and so on without repetition, each carries the signed
  reference to the one before, and the graph given to the interpreter links to the one before.\<close>

theorem own_blocks_chained:
  assumes "codec_ok (c_codec cfg)" "fair_blocks cfg S" "bc_reach cfg S n" "k < length (nd_made n)"
  shows "gn_round (nd_made n ! k) = of_nat (Suc k) \<and>
    bg_Block (gn_graph (nd_made n ! k)) = \<lparr>Hash = csha (c_codec cfg) (sd_Data (gn_signed (nd_made n ! k))), Node = c_nodeID cfg, Round = of_nat (Suc k)\<rparr> \<and>
    bl_Previous (gn_block (nd_made n ! k)) = (if k = 0 then None else Some (gn_blockRef (nd_made n ! (k - 1)))) \<and>
    (Suc k < 2 ^ 64 \<longrightarrow> bg_Prev (gn_graph (nd_made n ! k)) = (if k = 0 then zero_BlockID else bg_Block (gn_graph (nd_made n ! (k - 1)))))"
proof -
  have c: "chained cfg None (nd_made n)" using assms(1-3) by (rule reach_facts)
  have r: "gn_round (nd_made n ! k) = of_nat (Suc k)" by (rule chained_rounds [OF c assms(4)])
  have g: "gen_ok cfg (nd_made n ! k)" and l: "links (if k = 0 then None else Some (nd_made n ! (k - 1))) (nd_made n ! k)"
    using chained_nth [OF c assms(4)] by blast+
  have one: "of_nat (Suc k) \<noteq> (1 :: u64)" if "Suc k < 2 ^ 64" "k \<noteq> 0"
  proof
    assume "of_nat (Suc k) = (1 :: u64)"
    then have "unat (of_nat (Suc k) :: u64) = 1" by (simp only: unat_1)
    with that show False by (subst (asm) unat_of_nat_small) (simp_all del: of_nat_Suc)
  qed
  have "bg_Block (gn_graph (nd_made n ! k)) = \<lparr>Hash = csha (c_codec cfg) (sd_Data (gn_signed (nd_made n ! k))), Node = c_nodeID cfg, Round = of_nat (Suc k)\<rparr>"
    using g by (simp add: gen_ok_def Let_def r del: of_nat_Suc)
  moreover have "bl_Previous (gn_block (nd_made n ! k)) = (if k = 0 then None else Some (gn_blockRef (nd_made n ! (k - 1))))"
    using l by (simp add: links_def)
  moreover have "bg_Prev (gn_graph (nd_made n ! k)) = (if k = 0 then zero_BlockID else bg_Block (gn_graph (nd_made n ! (k - 1))))" if "Suc k < 2 ^ 64"
    using l one [OF that] unfolding links_def r by (cases "k = 0") simp_all
  ultimately show ?thesis using r by blast
qed

theorem own_blocks_chained_witness:
  "\<exists>n. bc_reach pair_cfg {peer_signed} n \<and> length (nd_made n) = 1 \<and> gn_round (nd_made n ! 0) = 1 \<and>
     bl_Previous (gn_block (nd_made n ! 0)) = None"
proof -
  from pair_run obtain n g where n: "bc_reach pair_cfg {peer_signed} n" "nd_made n = [g]" by blast
  from own_blocks_chained [OF _ pair_fair n(1), of 0] pair_codec_ok n(2) have "gn_round (nd_made n ! 0) = 1 \<and>
    bl_Previous (gn_block (nd_made n ! 0)) = None" by (simp add: pair_simps)
  with n show ?thesis by (intro exI [of _ n]) simp
qed

text \<open>\<^bold>\<open>C9\<close>: peers accept what the node makes. Every own block of a run passes the checks of any node with
  the same keys and encoders, which reads from it exactly the graph that the node itself interprets:
  its identifier, its previous block and its references. It is assumed in addition that decoding
  inverts encoding for blocks and references and that the node's key verifies its signatures.\<close>

theorem own_blocks_accepted:
  assumes "codec_ok (c_codec cfg)" "bc_laws cfg" "fair_blocks cfg S" "bc_reach cfg S n" "g \<in> set (nd_made n)"
    and "c_codec cfg' = c_codec cfg" "c_keys cfg' = c_keys cfg"
  shows "check_block cfg' (gn_signed g) = Ok \<lparr>bd_deps = map dep_Block (bg_Deps (gn_graph g)), bd_id = bg_Block (gn_graph g),
    bd_prev = bg_Prev (gn_graph g), bd_ref = gn_blockRef g\<rparr>"
proof -
  obtain D a where a: "dg_inv cfg S D a (merged (nd_made n)) (inflight (nd_stage n)) (nd_svc n)" and c: "chained cfg None (nd_made n)"
    using assms(1,3,4) by (rule reach_facts)
  from assms(5) obtain k where k: "k < length (nd_made n)" "g = nd_made n ! k" by (auto simp: in_set_conv_nth)
  have g: "gen_ok cfg g" and l: "links (if k = 0 then None else Some (nd_made n ! (k - 1))) g"
    using chained_nth [OF c k(1)] k(2) by simp_all
  have refs: "\<forall>b \<in> set (gn_refs g). known cfg S b \<and> Node (bd_id b) \<noteq> c_nodeID cfg"
    using dg_invD(6) [OF a] assms(3,5) by (auto simp: fair_blocks_def)
  have "gen_ok cfg q" if "(if k = 0 then None else Some (nd_made n ! (k - 1))) = Some q" for q
    using that k(1) chained_nth [OF c, of "k - 1"] by (auto split: if_splits)
  from own_block_accepted [OF g l this assms(2) refs]
  have "check_block cfg (gn_signed g) = Ok \<lparr>bd_deps = map bd_id (gn_refs g), bd_id = bg_Block (gn_graph g), bd_prev = bg_Prev (gn_graph g),
    bd_ref = gn_blockRef g\<rparr>" by simp
  moreover have "map dep_Block (bg_Deps (gn_graph g)) = map bd_id (gn_refs g)" using g by (simp add: gen_ok_def Let_def)
  ultimately show ?thesis by (simp only: check_block_cong [OF assms(6,7)])
qed

lemma pair_laws: "bc_laws pair_cfg"
proof -
  have "uBlock pair_codec x = Some b" if "mBlock pair_codec b = Some x" for b x
    using that blocks_differ by (auto simp: pair_codec_def split: if_splits)
  then show ?thesis using pair_mRef_law by (auto simp: bc_laws_def pair_simps)
qed

theorem own_blocks_accepted_witness:
  "\<exists>n g. bc_reach pair_cfg {peer_signed} n \<and> g \<in> set (nd_made n) \<and> bg_Deps (gn_graph g) \<noteq> [] \<and>
     check_block pair_cfg (gn_signed g) = Ok \<lparr>bd_deps = map dep_Block (bg_Deps (gn_graph g)), bd_id = bg_Block (gn_graph g),
       bd_prev = bg_Prev (gn_graph g), bd_ref = gn_blockRef g\<rparr>"
proof -
  from pair_run obtain n g where n: "bc_reach pair_cfg {peer_signed} n" "nd_made n = [g]" "gn_refs g = [peer_data]" by blast
  have c: "codec_ok (c_codec pair_cfg)" by (simp add: pair_simps pair_codec_ok)
  obtain D a where "chained pair_cfg None (nd_made n)" using c pair_fair n(1) by (rule reach_facts)
  then have "bg_Deps (gn_graph g) \<noteq> []" using n(2,3) by (simp add: gen_ok_def Let_def)
  with own_blocks_accepted [OF c pair_laws pair_fair n(1), of g pair_cfg] n(1,2) show ?thesis
    by (intro exI [of _ n] exI [of _ g]) simp
qed

text \<open>\<^bold>\<open>C10\<close>: no received block is lost or waits in vain. In every reachable state, a turn of the
  dependency graph on the next block returns without crashing; a waiting block misses a reference
  that is neither included nor queued; and every block that was stored is in the input, waiting,
  queued or included.\<close>

theorem received_blocks_tracked:
  assumes "codec_ok (c_codec cfg)" "fair_blocks cfg S" "bc_reach cfg S n" "d = v_depgraph (nd_svc n)"
    and "Q = bd_id ` set (merged (nd_made n) @ inflight (nd_stage n) @ dg_blocks d)"
  shows "(\<forall>b rest. dg_in d = b # rest \<longrightarrow> (\<exists>d'. process_turn (v_store (nd_svc n)) b rest d = Some (Ok d'))) \<and>
    (\<forall>i b. map_of (dg_pending d) i = Some b \<longrightarrow> i \<in> Q \<or> (\<exists>x \<in> set (needs (c_nodeID cfg) b). x \<notin> Q)) \<and>
    (\<forall>i. map_of (bs_db (v_store (nd_svc n))) (includedKey i) \<noteq> None \<longrightarrow> i \<in> bd_id ` set (dg_in d) \<union> dom (map_of (dg_pending d)) \<union> Q)"
proof -
  obtain D a where D: "\<forall>b. known cfg S b \<longrightarrow> blk_ok (c_nodeID cfg) D b"
    and a: "dg_inv cfg S D a (merged (nd_made n)) (inflight (nd_stage n)) (nd_svc n)" using assms(1-3) by (rule reach_facts)
  note I = dg_invD [OF a]
  have Q: "placed (merged (nd_made n)) (inflight (nd_stage n)) (nd_svc n) = Q" by (simp only: placed_def assms(4,5))
  note idle = I(4) [unfolded Q, folded assms(4)]
  have "\<exists>d'. process_turn (v_store (nd_svc n)) b rest d = Some (Ok d')" if "dg_in d = b # rest" for b rest
  proof -
    have "known cfg S b" by (rule I(6)) (use that assms(4) in simp)
    with D have "blk_ok (c_nodeID cfg) D b" by blast
    from process_turn_spec [OF idle this, of rest] show ?thesis by blast
  qed
  moreover have "i \<in> Q \<or> (\<exists>x \<in> set (needs (c_nodeID cfg) b). x \<notin> Q)" if "map_of (dg_pending d) i = Some b" for i b
  proof -
    have "wait_inv (c_nodeID cfg) D Q [] (awaiting d) (map_of (dg_pending d))" and st: "stuck_or D Q {} {} d"
      using idle by (simp_all add: idle_inv_def loop_inv_def)
    from wait_invD(1) [OF this(1) that] stuck_orD [OF st, of i] that show ?thesis by (auto simp: blk_ok_def has_missing_def)
  qed
  moreover have "a_incl a i \<noteq> None" if "map_of (bs_db (v_store (nd_svc n))) (includedKey i) \<noteq> None" for i
    using I(1) that by (auto simp: core_def repr_incl_def Let_def)
  ultimately show ?thesis using I(7) [unfolded Q, folded assms(4)] by blast
qed

theorem received_blocks_tracked_witness:
  "\<exists>n Q. bc_reach pair_cfg {peer_signed} n \<and> bd_id peer_data \<in> Q \<and>
     (\<forall>i. map_of (bs_db (v_store (nd_svc n))) (includedKey i) \<noteq> None \<longrightarrow>
        i \<in> bd_id ` set (dg_in (v_depgraph (nd_svc n))) \<union> dom (map_of (dg_pending (v_depgraph (nd_svc n)))) \<union> Q)"
proof -
  from pair_run obtain n g where n: "bc_reach pair_cfg {peer_signed} n" "nd_made n = [g]" "gn_refs g = [peer_data]" by blast
  define Q where "Q = bd_id ` set (merged (nd_made n) @ inflight (nd_stage n) @ dg_blocks (v_depgraph (nd_svc n)))"
  have "codec_ok (c_codec pair_cfg)" by (simp add: pair_simps pair_codec_ok)
  from received_blocks_tracked [OF this pair_fair n(1) refl Q_def]
  have "\<forall>i. map_of (bs_db (v_store (nd_svc n))) (includedKey i) \<noteq> None \<longrightarrow>
     i \<in> bd_id ` set (dg_in (v_depgraph (nd_svc n))) \<union> dom (map_of (dg_pending (v_depgraph (nd_svc n)))) \<union> Q" by (elim conjE)
  moreover have "bd_id peer_data \<in> Q" by (simp add: Q_def n(2,3))
  ultimately show ?thesis using n(1) by blast
qed

end
