(* ===== verification/Keys.thy ===== *)
theory Keys
  imports Prelude
begin

text \<open>
  The keys of a node (\<open>internal/crypto/signature\<close>): algorithms, key pairs and their serialised
  forms. The curve itself (\<open>golang.org/x/crypto/ed25519\<close>) is a parameter: a function that signs
  with a private key and one that verifies with a public key. As its documentation says, it panics
  on a private key that is not 64 bytes long and on a public key that is not 32 bytes long.
\<close>

type_synonym Algorithm = byte

definition Ed25519 :: Algorithm where
  "Ed25519 = 1"

definition Algorithm_String :: "Algorithm \<Rightarrow> gostring" where
  "Algorithm_String s = (if s = Ed25519 then gostr ''ed25519'' else [])"

datatype key_err = UnknownAlgorithm gostring | KeyLength nat | GenerateFailed

definition AlgorithmFromString :: "gostring \<Rightarrow> (key_err, Algorithm) outcome" where
  "AlgorithmFromString s =
     (if s = Algorithm_String Ed25519 then Ok Ed25519 else Err (UnknownAlgorithm s))"

record ed25519KeyPair =
  kp_pub :: bytes
  kp_priv :: bytes

text \<open>The generator returns the public and the private key, or fails when the system has no
  randomness.\<close>

definition GenKeyPair :: "(bytes \<times> bytes) option \<Rightarrow> Algorithm \<Rightarrow> (key_err, ed25519KeyPair) outcome" where
  "GenKeyPair generated s =
     (if s = Ed25519 then
        (case generated of
           None \<Rightarrow> Err GenerateFailed
         | Some (pub, priv) \<Rightarrow> Ok \<lparr>kp_pub = pub, kp_priv = priv\<rparr>)
      else Err (UnknownAlgorithm (Algorithm_String s)))"

definition LoadKeyPair :: "Algorithm \<Rightarrow> bytes \<Rightarrow> (key_err, ed25519KeyPair) outcome" where
  "LoadKeyPair s value =
     (if s = Ed25519 then
        if length value \<noteq> 96 then Err (KeyLength (length value))
        else Ok \<lparr>kp_pub = take 32 value, kp_priv = drop 32 value\<rparr>
      else Err (UnknownAlgorithm (Algorithm_String s)))"

definition LoadPrivateKey :: "Algorithm \<Rightarrow> bytes \<Rightarrow> (key_err, bytes) outcome" where
  "LoadPrivateKey s value =
     (if s = Ed25519 then
        if length value \<noteq> 64 then Err (KeyLength (length value)) else Ok value
      else Err (UnknownAlgorithm (Algorithm_String s)))"

definition LoadPublicKey :: "Algorithm \<Rightarrow> bytes \<Rightarrow> (key_err, bytes) outcome" where
  "LoadPublicKey s value =
     (if s = Ed25519 then
        if length value \<noteq> 32 then Err (KeyLength (length value)) else Ok value
      else Err (UnknownAlgorithm (Algorithm_String s)))"

text \<open>The builtin \<open>copy\<close> to a slice that starts at an index: it stops at the shorter end.\<close>

definition copy_at :: "nat \<Rightarrow> bytes \<Rightarrow> bytes \<Rightarrow> bytes" where
  "copy_at i src dst = take i dst @ take (length dst - i) src @ drop (i + length src) dst"

definition KeyPair_Value :: "ed25519KeyPair \<Rightarrow> bytes" where
  "KeyPair_Value k = copy_at 32 (kp_priv k) (copy_at 0 (kp_pub k) (replicate 96 0))"

definition Sign :: "(bytes \<Rightarrow> bytes \<Rightarrow> bytes) \<Rightarrow> bytes \<Rightarrow> bytes \<Rightarrow> ('e, bytes) outcome" where
  "Sign ed_sign priv data = (if length priv \<noteq> 64 then Panic ExplicitPanic else Ok (ed_sign priv data))"

definition Verify :: "(bytes \<Rightarrow> bytes \<Rightarrow> bytes \<Rightarrow> bool) \<Rightarrow> bytes \<Rightarrow> bytes \<Rightarrow> bytes \<Rightarrow> ('e, bool) outcome" where
  "Verify ed_verify pub data sig = (if length pub \<noteq> 32 then Panic ExplicitPanic else Ok (ed_verify pub data sig))"

section \<open>Laws\<close>

lemma Algorithm_String_inverse: "AlgorithmFromString s = Ok a \<Longrightarrow> Algorithm_String a = s"
  by (simp add: AlgorithmFromString_def split: if_splits)

lemma load_value: "LoadKeyPair s value = Ok k \<Longrightarrow> KeyPair_Value k = value"
  by (auto simp: LoadKeyPair_def KeyPair_Value_def copy_at_def split: if_splits)

lemma value_load:
  assumes "length (kp_pub k) = 32" "length (kp_priv k) = 64"
  shows "LoadKeyPair Ed25519 (KeyPair_Value k) = Ok k"
  using assms by (simp add: LoadKeyPair_def KeyPair_Value_def copy_at_def)

text \<open>A key that was loaded has the length the curve needs.\<close>

lemma loaded_key_signs:
  assumes "LoadPrivateKey s value = Ok priv"
  shows "Sign ed_sign priv data = Ok (ed_sign value data)"
  using assms by (simp add: LoadPrivateKey_def Sign_def split: if_splits)

lemma loaded_key_verifies:
  assumes "LoadPublicKey s value = Ok pub"
  shows "Verify ed_verify pub data sig = Ok (ed_verify value data sig)"
  using assms by (simp add: LoadPublicKey_def Verify_def split: if_splits)

lemma loaded_pair_works:
  assumes "LoadKeyPair s value = Ok k"
  shows "Sign ed_sign (kp_priv k) data = Ok (ed_sign (drop 32 value) data)"
    and "Verify ed_verify (kp_pub k) data sig = Ok (ed_verify (take 32 value) data sig)"
  using assms by (auto simp: LoadKeyPair_def Sign_def Verify_def split: if_splits)

end
