(* ===== verification/Base64.thy ===== *)
theory Base64
  imports Prelude
begin

text \<open>
  \<open>base64.StdEncoding\<close> of the standard library, which the HTTP interfaces, the checker and the
  publisher use for identifiers and signatures. Decoding skips line breaks and, as some callers
  drop the error and use the bytes, the model returns what was decoded before the error.
\<close>

text \<open>Upper case letters, lower case letters, digits, \<open>+\<close> and \<open>/\<close>.\<close>

definition b64_codes :: "nat list" where
  "b64_codes = [65..<91] @ [97..<123] @ [48..<58] @ [43, 47]"

definition b64_alphabet :: gostring where
  "b64_alphabet = map of_nat b64_codes"

definition b64_char :: "nat \<Rightarrow> byte" where
  "b64_char i = b64_alphabet ! (i mod 64)"

definition b64_val :: "byte \<Rightarrow> nat option" where
  "b64_val c = map_of (zip b64_alphabet [0..<64]) c"

abbreviation (input) padChar :: byte where "padChar \<equiv> 61"

fun EncodeToString :: "bytes \<Rightarrow> gostring" where
  "EncodeToString [] = []"
| "EncodeToString [a] = (let v = unat a * 16 in [b64_char (v div 64), b64_char v, padChar, padChar])"
| "EncodeToString [a, b] =
     (let v = (unat a * 256 + unat b) * 4 in
      [b64_char (v div 4096), b64_char (v div 64), b64_char v, padChar])"
| "EncodeToString (a # b # c # bs) =
     (let v = unat a * 65536 + unat b * 256 + unat c in
      b64_char (v div 262144) # b64_char (v div 4096) # b64_char (v div 64) # b64_char v # EncodeToString bs)"

text \<open>The flag is false for a non-nil error.\<close>

fun b64_quanta :: "gostring \<Rightarrow> bytes \<times> bool" where
  "b64_quanta (c0 # c1 # c2 # c3 # cs) =
     (case (b64_val c0, b64_val c1) of
        (Some v0, Some v1) \<Rightarrow>
          (case b64_val c2 of
             None \<Rightarrow>
               if c2 = padChar \<and> c3 = padChar then ([of_nat ((v0 * 64 + v1) div 16)], cs = []) else ([], False)
           | Some v2 \<Rightarrow>
               let v = (v0 * 64 + v1) * 64 + v2 in
               (case b64_val c3 of
                  None \<Rightarrow>
                    if c3 = padChar then ([of_nat (v div 1024), of_nat (v div 4)], cs = []) else ([], False)
                | Some v3 \<Rightarrow>
                    let w = v * 64 + v3; (bs, ok) = b64_quanta cs in
                    (of_nat (w div 65536) # of_nat (w div 256) # of_nat w # bs, ok)))
      | _ \<Rightarrow> ([], False))"
| "b64_quanta cs = ([], cs = [])"

definition DecodeString :: "gostring \<Rightarrow> bytes \<times> bool" where
  "DecodeString s = b64_quanta (filter (\<lambda>c. c \<noteq> 10 \<and> c \<noteq> 13) s)"

section \<open>Round trip\<close>

lemma codes_facts:
  "distinct b64_codes" "length b64_codes = 64"
  "x \<in> set b64_codes \<Longrightarrow> x < 256 \<and> x \<noteq> 10 \<and> x \<noteq> 13 \<and> x \<noteq> 61"
  by (auto simp: b64_codes_def simp del: upt_rec_numeral)

lemma alphabet_facts:
  "distinct b64_alphabet" "length b64_alphabet = 64"
  "c \<in> set b64_alphabet \<Longrightarrow> c \<noteq> 10 \<and> c \<noteq> 13 \<and> c \<noteq> padChar"
proof -
  have u: "unat (of_nat x :: byte) = x" if "x \<in> set b64_codes" for x
    using codes_facts(3) [OF that] by (intro unat_of_nat_small) simp
  then have "inj_on (of_nat :: nat \<Rightarrow> byte) (set b64_codes)" by (metis inj_onI)
  then show "distinct b64_alphabet" by (simp add: b64_alphabet_def distinct_map codes_facts)
  show "length b64_alphabet = 64" by (simp add: b64_alphabet_def codes_facts)
  assume "c \<in> set b64_alphabet"
  then obtain x where x: "x \<in> set b64_codes" "c = of_nat x" by (auto simp: b64_alphabet_def)
  then have "unat c = x" using u by simp
  moreover have "unat (10 :: byte) = 10" "unat (13 :: byte) = 13" "unat (61 :: byte) = 61" by simp_all
  ultimately show "c \<noteq> 10 \<and> c \<noteq> 13 \<and> c \<noteq> padChar" using codes_facts(3) [OF x(1)] by metis
qed

lemma b64_char_in: "b64_char i \<in> set b64_alphabet"
  by (simp add: b64_char_def alphabet_facts)

lemma b64_char_plain [simp]: "b64_char i \<noteq> 10" "b64_char i \<noteq> 13" "b64_char i \<noteq> padChar"
  using alphabet_facts(3) [OF b64_char_in [of i]] by simp_all

lemma b64_val_char [simp]: "b64_val (b64_char i) = Some (i mod 64)"
  unfolding b64_val_def b64_char_def
  using map_of_zip_nth [OF _ alphabet_facts(1), of "[0..<64]" "i mod 64"] by (simp add: alphabet_facts)

lemma b64_val_pad [simp]: "b64_val padChar = None"
proof -
  have "padChar \<notin> set b64_alphabet" using alphabet_facts(3) by blast
  then have "padChar \<notin> fst ` set (zip b64_alphabet [0..<64])" by (auto dest: set_zip_leftD simp del: upt_rec_numeral)
  then show ?thesis unfolding b64_val_def by (simp only: map_of_eq_None_iff not_False_eq_True)
qed

lemma encode_plain: "list_all (\<lambda>c. c \<noteq> 10 \<and> c \<noteq> 13) (EncodeToString bs)"
  by (induction bs rule: EncodeToString.induct) (simp_all add: Let_def)

text \<open>The digits of a number to the base 64 give it back.\<close>

lemma digit_last: "v div 64 * 64 + v mod 64 = v" for v :: nat
  by simp

lemma mult_numerals: "64 * 64 = (4096 :: nat)" "64 * 4096 = (262144 :: nat)"
  by simp_all

lemma digits_2:
  assumes "v < 4096"
  shows "v div 64 mod 64 * 64 + v mod 64 = (v :: nat)"
proof -
  have "v div 64 < 64" using assms by (simp add: div_less_iff_less_mult)
  then have "v div 64 mod 64 = v div 64" by (rule mod_less)
  then show ?thesis by (simp only: digit_last)
qed

lemma digits_3:
  assumes "v < 262144"
  shows "(v div 4096 mod 64 * 64 + v div 64 mod 64) * 64 + v mod 64 = (v :: nat)"
proof -
  have "v div 64 < 4096" using assms by (simp add: div_less_iff_less_mult)
  from digits_2 [OF this] have "v div 4096 mod 64 * 64 + v div 64 mod 64 = v div 64"
    by (simp only: div_mult2_eq [symmetric] mult_numerals)
  then show ?thesis by (simp only: digit_last)
qed

lemma digits_4:
  assumes "v < 16777216"
  shows "((v div 262144 mod 64 * 64 + v div 4096 mod 64) * 64 + v div 64 mod 64) * 64 + v mod 64 = (v :: nat)"
proof -
  have "v div 64 < 262144" using assms by (simp add: div_less_iff_less_mult)
  from digits_3 [OF this] have "(v div 262144 mod 64 * 64 + v div 4096 mod 64) * 64 + v div 64 mod 64 = v div 64"
    by (simp only: div_mult2_eq [symmetric] mult_numerals)
  then show ?thesis by (simp only: digit_last)
qed

lemma byte_of_nat: "of_nat (unat a + 256 * k) = (a :: byte)"
proof -
  have "(of_nat 256 :: byte) = 0" by simp
  then have "(of_nat (256 * k) :: byte) = 0" by (simp only: of_nat_mult mult_zero_left)
  then show ?thesis by (simp only: of_nat_add) simp
qed

lemmas quanta_simps = b64_quanta.simps(1) b64_val_char b64_val_pad option.case prod.case Let_def

lemma quanta_2:
  "v < 4096 \<Longrightarrow> b64_quanta [b64_char (v div 64), b64_char v, padChar, padChar] = ([of_nat (v div 16)], True)"
  by (simp only: quanta_simps digits_2 simp_thms if_True)

lemma quanta_3:
  "v < 262144 \<Longrightarrow> b64_quanta [b64_char (v div 4096), b64_char (v div 64), b64_char v, padChar] =
     ([of_nat (v div 1024), of_nat (v div 4)], True)"
  by (simp only: quanta_simps digits_3 simp_thms if_True)

lemma quanta_4:
  "v < 16777216 \<Longrightarrow> b64_quanta cs = (bs, ok) \<Longrightarrow>
     b64_quanta (b64_char (v div 262144) # b64_char (v div 4096) # b64_char (v div 64) # b64_char v # cs) =
     (of_nat (v div 65536) # of_nat (v div 256) # of_nat v # bs, ok)"
  by (simp only: quanta_simps digits_4)

lemma quanta_encode: "b64_quanta (EncodeToString bs) = (bs, True)"
proof (induction bs rule: EncodeToString.induct)
  case (2 a)
  define v where "v = unat a * 16"
  have "v < 4096" using unat_lt_8 [of a] by (simp add: v_def)
  moreover have "of_nat (v div 16) = a" by (simp add: v_def)
  moreover have "EncodeToString [a] = [b64_char (v div 64), b64_char v, padChar, padChar]"
    by (simp only: EncodeToString.simps Let_def v_def)
  ultimately show ?case by (simp only: quanta_2)
next
  case (3 a b)
  define v where "v = (unat a * 256 + unat b) * 4"
  have v: "v < 262144" using unat_lt_8 [of a] unat_lt_8 [of b] by (simp add: v_def)
  have q: "v div 4 = unat b + 256 * unat a" by (simp add: v_def)
  then have "v div 4 div 256 = unat a" using unat_lt_8 [of b] by simp
  then have "v div 1024 = unat a" by (simp only: div_mult2_eq [symmetric]) simp
  then have "of_nat (v div 1024) = a" by simp
  moreover have "of_nat (v div 4) = b" by (simp only: q byte_of_nat)
  moreover have "EncodeToString [a, b] = [b64_char (v div 4096), b64_char (v div 64), b64_char v, padChar]"
    by (simp only: EncodeToString.simps Let_def v_def)
  ultimately show ?case by (simp only: quanta_3 v)
next
  case (4 a b c bs)
  define v where "v = unat a * 65536 + unat b * 256 + unat c"
  note lt = unat_lt_8 [of a] unat_lt_8 [of b] unat_lt_8 [of c]
  have v: "v < 16777216" using lt by (simp add: v_def)
  have q: "v div 256 = unat b + 256 * unat a" using lt by (simp add: v_def)
  then have "v div 256 div 256 = unat a" using lt by simp
  then have "v div 65536 = unat a" by (simp only: div_mult2_eq [symmetric]) simp
  then have "of_nat (v div 65536) = a" by simp
  moreover have "of_nat (v div 256) = b" by (simp only: q byte_of_nat)
  moreover have w: "v = unat c + 256 * (unat b + 256 * unat a)" by (simp add: v_def)
  have "of_nat v = c" by (subst w) (rule byte_of_nat)
  moreover have "EncodeToString (a # b # c # bs) =
      b64_char (v div 262144) # b64_char (v div 4096) # b64_char (v div 64) # b64_char v # EncodeToString bs"
    by (simp only: EncodeToString.simps Let_def v_def)
  moreover have "b64_quanta (EncodeToString bs) = (bs, True)" using 4 by simp
  ultimately show ?case by (simp only: quanta_4 v)
qed simp

lemma base64_roundtrip: "DecodeString (EncodeToString bs) = (bs, True)"
proof -
  have "filter (\<lambda>c. c \<noteq> 10 \<and> c \<noteq> 13) (EncodeToString bs) = EncodeToString bs"
    using encode_plain [of bs] by (simp add: list_all_iff filter_id_conv)
  then show ?thesis by (simp add: DecodeString_def quanta_encode)
qed

lemma EncodeToString_inj: "EncodeToString a = EncodeToString b \<longleftrightarrow> a = b"
  by (metis base64_roundtrip prod.inject)

end
