(* ===== verification/Checker.thy ===== *)
theory Checker
  imports Base64 Keys SbacPhases
begin

text \<open>
  The checker service (\<open>checker/typecheck.go\<close>, \<open>checker/run.go\<close>, \<open>checker/checker.go\<close>): it type
  checks the traces of a transaction, runs the contract checker of every trace and signs the
  transaction. The signatures are the evidence that the first consensus of a transaction asks for.

  What a contract answers is a function of the arguments of the call (the containers are not part
  of the repository); the goroutines of \<open>run\<close> only report whether one of them fails. Protobuf
  encoding and the curve are parameters.
\<close>

section \<open>Type checking\<close>

datatype idstate = active | inactive

record statedata =
  sd_state :: idstate
  sd_contract :: gostring

type_synonym idmap = "(bytes, statedata) gomap"

definition b64 :: "bytes \<Rightarrow> gostring" where
  "b64 data = EncodeToString data"

datatype type_err =
    MissingContractID
  | MissingProcedure
  | OutputCount gostring gostring nat nat
  | InactiveInput gostring gostring gostring
  | ReferencedInput gostring gostring gostring gostring
  | InactiveReference gostring gostring gostring

definition tc_input :: "Trace \<Rightarrow> bytes \<Rightarrow> idmap \<Rightarrow> (type_err, idmap) outcome" where
  "tc_input trace v ids =
     (case map_of ids v of
        Some sd \<Rightarrow>
          if sd_state sd = inactive then Err (InactiveInput (ContractID trace) (Procedure trace) (b64 v))
          else if sd_state sd = active then
            Err (ReferencedInput (ContractID trace) (Procedure trace) (b64 v) (sd_contract sd))
          else Ok (mput v (sd\<lparr>sd_state := inactive\<rparr>) ids)
      | None \<Rightarrow> Ok (mput v \<lparr>sd_state = inactive, sd_contract = ContractID trace\<rparr> ids))"

definition tc_reference :: "Trace \<Rightarrow> bytes \<Rightarrow> idmap \<Rightarrow> (type_err, idmap) outcome" where
  "tc_reference trace v ids =
     (case map_of ids v of
        Some sd \<Rightarrow>
          if sd_state sd = inactive then Err (InactiveReference (ContractID trace) (Procedure trace) (b64 v)) else Ok ids
      | None \<Rightarrow> Ok (mput v \<lparr>sd_state = active, sd_contract = ContractID trace\<rparr> ids))"

text \<open>The body of the loop after the dependencies.\<close>

definition tc_trace :: "Trace \<Rightarrow> idmap \<Rightarrow> (type_err, idmap) outcome" where
  "tc_trace trace ids =
     (if length (ContractID trace) = 0 then Err MissingContractID
      else if length (Procedure trace) = 0 then Err MissingProcedure
      else if length (OutputObjects trace) \<noteq> length (InputObjects trace) then
        Err (OutputCount (ContractID trace) (Procedure trace) (length (InputObjects trace)) (length (OutputObjects trace)))
      else
        obind (ofold (tc_input trace) (InputObjectVersionIDs trace) ids)
          (ofold (tc_reference trace) (InputReferenceVersionIDs trace)))"

lemma size_Dependencies: "size_list size (Dependencies t) < size t"
  by (cases t) simp

text \<open>The map is shared with the recursive calls, so it is threaded through them.\<close>

function typeCheck :: "idmap \<Rightarrow> Trace list \<Rightarrow> (type_err, idmap) outcome" where
  "typeCheck ids [] = Ok ids"
| "typeCheck ids (trace # traces) =
     obind (if length (Dependencies trace) > 0 then typeCheck ids (Dependencies trace) else Ok ids) (\<lambda>ids.
     obind (tc_trace trace ids) (\<lambda>ids. typeCheck ids traces))"
  by pat_completeness auto
termination
  using size_Dependencies by (relation "measure (size_list size \<circ> snd)") (auto simp: less_Suc_eq trans_less_add1)

definition TypeCheck :: "Transaction \<Rightarrow> (type_err, unit) outcome" where
  "TypeCheck tx = omap (\<lambda>_. ()) (typeCheck [] (Traces tx))"

section \<open>Running the checkers\<close>

record Checker =
  chk_ContractID :: gostring
  chk_Name :: gostring
  chk_Check :: "bytes list \<Rightarrow> bytes list \<Rightarrow> bytes list \<Rightarrow> OutputObject list \<Rightarrow> bytes list \<Rightarrow> Trace list \<Rightarrow> bool"

type_synonym checkersMap = "(gostring, (gostring, Checker) gomap) gomap"

record checkerTracePair =
  ctp_Checker :: Checker
  ctp_Trace :: Trace

datatype run_err = UnknownContract gostring | UnknownProcedure gostring gostring

function aggregate :: "checkersMap \<Rightarrow> Trace list \<Rightarrow> (run_err, checkerTracePair list) outcome" where
  "aggregate checkers [] = Ok []"
| "aggregate checkers (t # traces) =
     (case map_of checkers (ContractID t) of
        None \<Rightarrow> Err (UnknownContract (ContractID t))
      | Some m \<Rightarrow>
          (case map_of m (Procedure t) of
             None \<Rightarrow> Err (UnknownProcedure (Procedure t) (ContractID t))
           | Some checker \<Rightarrow>
               obind (aggregate checkers (Dependencies t)) (\<lambda>newpairs.
               obind (aggregate checkers traces) (\<lambda>ctpairs.
                 Ok (\<lparr>ctp_Checker = checker, ctp_Trace = t\<rparr> # newpairs @ ctpairs)))))"
  by pat_completeness auto
termination
  using size_Dependencies by (relation "measure (size_list size \<circ> snd)") (auto simp: less_Suc_eq trans_less_add1)

definition call_checker :: "checkerTracePair \<Rightarrow> bool" where
  "call_checker v =
     (let t = ctp_Trace v in
      chk_Check (ctp_Checker v) (InputObjects t) (InputReferences t) (Parameters t) (OutputObjects t) (Returns t) (Dependencies t))"

definition run_checkers :: "checkersMap \<Rightarrow> Transaction \<Rightarrow> (run_err, bool) outcome" where
  "run_checkers checkers tx = obind (aggregate checkers (Traces tx)) (\<lambda>ctpairs. Ok (list_all call_checker ctpairs))"

section \<open>The service\<close>

record checkerService =
  cs_checkers :: checkersMap
  cs_privkey :: bytes

datatype checker_err = TypeError type_err | RunError run_err | UnmarshalError | MarshalError | UnknownOpcode u32

text \<open>What the service calls outside the repository: a request without a transaction is decoded to
  one with a nil pointer.\<close>

record checker_libs =
  unmarshalRequest :: "bytes \<Rightarrow> Transaction option option"
  marshalTransaction :: "Transaction option \<Rightarrow> bytes \<times> bool"
  marshalResponse :: "bool \<times> bytes \<Rightarrow> bytes option"
  ed_sign :: "bytes \<Rightarrow> bytes \<Rightarrow> bytes"

definition Check :: "checkerService \<Rightarrow> Transaction option \<Rightarrow> (checker_err, bool) outcome" where
  "Check s tx =
     (case tx of
        None \<Rightarrow> Panic NilDereference
      | Some tx \<Rightarrow>
          obind (oerr TypeError (typeCheck [] (Traces tx))) (\<lambda>_. oerr RunError (run_checkers (cs_checkers s) tx)))"

definition CheckAndSign :: "checker_libs \<Rightarrow> checkerService \<Rightarrow> Transaction option \<Rightarrow> (checker_err, bool \<times> bytes) outcome" where
  "CheckAndSign l s tx =
     obind (Check s tx) (\<lambda>ok.
       case marshalTransaction l tx of
         (_, True) \<Rightarrow> Err MarshalError
       | (txbytes, False) \<Rightarrow> obind (Sign (ed_sign l) (cs_privkey s) txbytes) (\<lambda>sig. Ok (ok, sig)))"

abbreviation (input) Opcode_CHECK :: u32 where "Opcode_CHECK \<equiv> 1"

definition checker_check :: "checker_libs \<Rightarrow> checkerService \<Rightarrow> bytes \<Rightarrow> u64 \<Rightarrow> (checker_err, Message) outcome" where
  "checker_check l s payload msgID =
     (case unmarshalRequest l payload of
        None \<Rightarrow> Err UnmarshalError
      | Some tx \<Rightarrow>
          obind (Check s tx) (\<lambda>ok.
            case marshalTransaction l tx of
              (_, True) \<Rightarrow> Err MarshalError
            | (txbytes, False) \<Rightarrow>
                obind (Sign (ed_sign l) (cs_privkey s) txbytes) (\<lambda>sig.
                  case marshalResponse l (ok, sig) of
                    None \<Rightarrow> Err MarshalError
                  | Some resbytes \<Rightarrow>
                      Ok \<lparr>msg_ID = msgID, msg_Error = [], msg_Opcode = Opcode_CHECK, msg_Payload = resbytes\<rparr>)))"

definition checker_Handle :: "checker_libs \<Rightarrow> checkerService \<Rightarrow> Message \<Rightarrow> (checker_err, Message) outcome" where
  "checker_Handle l s m =
     (if msg_Opcode m = Opcode_CHECK then checker_check l s (msg_Payload m) (msg_ID m)
      else Err (UnknownOpcode (msg_Opcode m)))"

definition add_checker :: "Checker \<Rightarrow> checkersMap \<Rightarrow> checkersMap" where
  "add_checker c checkers =
     (case map_of checkers (chk_ContractID c) of
        Some m \<Rightarrow> mput (chk_ContractID c) (mput (chk_Name c) c m) checkers
      | None \<Rightarrow> mput (chk_ContractID c) [(chk_Name c, c)] checkers)"

datatype new_err = KeyError key_err | Base32Error

text \<open>Base-32 decoding of the configured key is a parameter.\<close>

definition checker_New ::
    "(gostring \<Rightarrow> bytes option) \<Rightarrow> Checker list \<Rightarrow> gostring \<Rightarrow> gostring \<Rightarrow> (new_err, checkerService) outcome" where
  "checker_New b32_decode cs keyType private =
     (let checkers = fold add_checker cs [] in
      obind (oerr KeyError (AlgorithmFromString keyType)) (\<lambda>algorithm.
        case b32_decode private of
          None \<Rightarrow> Err Base32Error
        | Some privKeybytes \<Rightarrow>
            obind (oerr KeyError (LoadPrivateKey algorithm privKeybytes)) (\<lambda>privkey.
              Ok \<lparr>cs_checkers = checkers, cs_privkey = privkey\<rparr>)))"

section \<open>Laws of type checking\<close>

text \<open>A trace after its dependencies, in the order of type checking.\<close>

fun flat_trace :: "Trace \<Rightarrow> Trace list" where
  "flat_trace (Trace cid pr ins refs outs params rets deps inos inrefs) =
     concat (map flat_trace deps) @ [Trace cid pr ins refs outs params rets deps inos inrefs]"

definition all_traces :: "Trace list \<Rightarrow> Trace list" where
  "all_traces ts = concat (map flat_trace ts)"

lemma all_traces_Nil [simp]: "all_traces [] = []"
  by (simp add: all_traces_def)

lemma all_traces_Cons: "all_traces (t # ts) = all_traces (Dependencies t) @ t # all_traces ts"
  by (cases t) (simp add: all_traces_def)

lemma typeCheck_eq: "typeCheck ids ts = ofold tc_trace (all_traces ts) ids"
proof (induction ids ts rule: typeCheck.induct)
  case (2 ids trace traces)
  have "(if length (Dependencies trace) > 0 then typeCheck ids (Dependencies trace) else Ok ids) =
      ofold tc_trace (all_traces (Dependencies trace)) ids"
    using 2(1) by simp
  then show ?case
    using 2(2) by (simp add: all_traces_Cons ofold_append cong: obind_cong)
qed simp

text \<open>The identifiers seen as inputs and those seen as references only.\<close>

definition inputs_seen :: "idmap \<Rightarrow> bytes set" where
  "inputs_seen ids = {v. \<exists>sd. map_of ids v = Some sd \<and> sd_state sd = inactive}"

definition refs_seen :: "idmap \<Rightarrow> bytes set" where
  "refs_seen ids = {v. \<exists>sd. map_of ids v = Some sd \<and> sd_state sd = active}"

lemma not_inactive: "x \<noteq> inactive \<longleftrightarrow> x = active"
  by (cases x) simp_all

lemma tc_input_Ok:
  "tc_input t v ids = Ok ids' \<longleftrightarrow> v \<notin> inputs_seen ids \<union> refs_seen ids \<and>
     ids' = mput v \<lparr>sd_state = inactive, sd_contract = ContractID t\<rparr> ids"
  by (auto simp: tc_input_def inputs_seen_def refs_seen_def not_inactive split: option.splits)

lemma tc_input_seen:
  assumes "tc_input t v ids = Ok ids'"
  shows "inputs_seen ids' = insert v (inputs_seen ids)" "refs_seen ids' = refs_seen ids"
  using assms by (auto simp: tc_input_Ok inputs_seen_def refs_seen_def gomap_simps)

lemma tc_reference_Ok: "is_ok (tc_reference t v ids) \<longleftrightarrow> v \<notin> inputs_seen ids"
  by (auto simp: tc_reference_def inputs_seen_def split: option.splits)

lemma tc_reference_seen:
  assumes "tc_reference t v ids = Ok ids'"
  shows "inputs_seen ids' = inputs_seen ids" "refs_seen ids' = insert v (refs_seen ids)"
  using assms by (auto simp: tc_reference_def inputs_seen_def refs_seen_def gomap_simps not_inactive split: option.splits if_splits)

lemma inputs_Ok:
  "is_ok (ofold (tc_input t) vs ids) \<longleftrightarrow> distinct vs \<and> set vs \<inter> (inputs_seen ids \<union> refs_seen ids) = {}"
proof (induction vs arbitrary: ids)
  case (Cons v vs)
  show ?case
  proof (cases "tc_input t v ids")
    case (Ok ids')
    then have "v \<notin> inputs_seen ids \<union> refs_seen ids" by (simp add: tc_input_Ok)
    then show ?thesis using Ok Cons.IH [of ids'] tc_input_seen [OF Ok] by auto
  qed (use tc_input_Ok [of t v ids] in auto)
qed simp

lemma inputs_seen_after:
  assumes "ofold (tc_input t) vs ids = Ok ids'"
  shows "inputs_seen ids' = inputs_seen ids \<union> set vs \<and> refs_seen ids' = refs_seen ids"
  using assms
proof (induction vs arbitrary: ids)
  case (Cons v vs)
  then obtain ids1 where 1: "tc_input t v ids = Ok ids1" "ofold (tc_input t) vs ids1 = Ok ids'"
    by (auto simp: outcome_simps)
  from Cons.IH [OF 1(2)] tc_input_seen [OF 1(1)] show ?case by simp
qed simp

lemma references_Ok: "is_ok (ofold (tc_reference t) vs ids) \<longleftrightarrow> set vs \<inter> inputs_seen ids = {}"
proof (induction vs arbitrary: ids)
  case (Cons v vs)
  show ?case
  proof (cases "tc_reference t v ids")
    case (Ok ids')
    then have "v \<notin> inputs_seen ids" using tc_reference_Ok [of t v ids] by simp
    then show ?thesis using Ok Cons.IH [of ids'] tc_reference_seen [OF Ok] by auto
  qed (use tc_reference_Ok [of t v ids] in auto)
qed simp

lemma references_seen_after:
  assumes "ofold (tc_reference t) vs ids = Ok ids'"
  shows "inputs_seen ids' = inputs_seen ids \<and> refs_seen ids' = refs_seen ids \<union> set vs"
  using assms
proof (induction vs arbitrary: ids)
  case (Cons v vs)
  then obtain ids1 where 1: "tc_reference t v ids = Ok ids1" "ofold (tc_reference t) vs ids1 = Ok ids'"
    by (auto simp: outcome_simps)
  from Cons.IH [OF 1(2)] tc_reference_seen [OF 1(1)] show ?case by simp
qed simp

definition trace_shape :: "Trace \<Rightarrow> bool" where
  "trace_shape t \<longleftrightarrow> ContractID t \<noteq> [] \<and> Procedure t \<noteq> [] \<and> length (OutputObjects t) = length (InputObjects t)"

lemma tc_trace_Ok:
  "is_ok (tc_trace t ids) \<longleftrightarrow> trace_shape t \<and> distinct (InputObjectVersionIDs t) \<and>
     set (InputObjectVersionIDs t) \<inter> (inputs_seen ids \<union> refs_seen ids) = {} \<and>
     set (InputReferenceVersionIDs t) \<inter> (inputs_seen ids \<union> set (InputObjectVersionIDs t)) = {}"
proof (cases "trace_shape t")
  case True
  then have eq: "tc_trace t ids = obind (ofold (tc_input t) (InputObjectVersionIDs t) ids)
      (ofold (tc_reference t) (InputReferenceVersionIDs t))"
    by (simp add: tc_trace_def trace_shape_def)
  show ?thesis
  proof (cases "ofold (tc_input t) (InputObjectVersionIDs t) ids")
    case (Ok ids')
    then show ?thesis
      using True inputs_Ok [of t "InputObjectVersionIDs t" ids] inputs_seen_after [OF Ok]
      by (simp add: eq references_Ok)
  qed (use True inputs_Ok [of t "InputObjectVersionIDs t" ids] in \<open>auto simp: eq\<close>)
qed (auto simp: tc_trace_def trace_shape_def)

lemma tc_trace_seen:
  assumes "tc_trace t ids = Ok ids'"
  shows "inputs_seen ids' = inputs_seen ids \<union> set (InputObjectVersionIDs t) \<and>
    refs_seen ids' = refs_seen ids \<union> set (InputReferenceVersionIDs t)"
proof -
  from assms obtain ids1 where "ofold (tc_input t) (InputObjectVersionIDs t) ids = Ok ids1"
    "ofold (tc_reference t) (InputReferenceVersionIDs t) ids1 = Ok ids'"
    by (auto simp: tc_trace_def outcome_simps split: if_splits)
  then show ?thesis using inputs_seen_after references_seen_after by blast
qed

definition trace_inputs :: "Trace list \<Rightarrow> bytes list" where
  "trace_inputs ts = concat (map InputObjectVersionIDs ts)"

definition trace_refs :: "Trace list \<Rightarrow> bytes list" where
  "trace_refs ts = concat (map InputReferenceVersionIDs ts)"

lemma seen_sets:
  assumes "A \<inter> (U \<union> R) = {}" "B \<inter> (U \<union> A) = {}"
  shows "X \<inter> ((U \<union> A) \<union> (R \<union> B) \<union> Y) = {} \<and> Y \<inter> (U \<union> A) = {} \<longleftrightarrow>
    A \<inter> X = {} \<and> (A \<union> X) \<inter> (U \<union> R \<union> (B \<union> Y)) = {} \<and> (B \<union> Y) \<inter> U = {}"
  using assms by blast

lemma traces_Ok:
  "is_ok (ofold tc_trace ts ids) \<longleftrightarrow> list_all trace_shape ts \<and> distinct (trace_inputs ts) \<and>
     set (trace_inputs ts) \<inter> (inputs_seen ids \<union> refs_seen ids \<union> set (trace_refs ts)) = {} \<and>
     set (trace_refs ts) \<inter> inputs_seen ids = {}"
proof (induction ts arbitrary: ids)
  case (Cons t ts)
  have split: "trace_inputs (t # ts) = InputObjectVersionIDs t @ trace_inputs ts"
    "trace_refs (t # ts) = InputReferenceVersionIDs t @ trace_refs ts"
    by (simp_all add: trace_inputs_def trace_refs_def)
  show ?case
  proof (cases "is_ok (tc_trace t ids)")
    case True
    then obtain ids' where ids': "tc_trace t ids = Ok ids'" by (auto simp: is_ok_iff)
    from True have t: "trace_shape t" "distinct (InputObjectVersionIDs t)"
      "set (InputObjectVersionIDs t) \<inter> (inputs_seen ids \<union> refs_seen ids) = {}"
      "set (InputReferenceVersionIDs t) \<inter> (inputs_seen ids \<union> set (InputObjectVersionIDs t)) = {}"
      by (simp_all only: tc_trace_Ok)
    have "is_ok (ofold tc_trace (t # ts) ids) = is_ok (ofold tc_trace ts ids')" by (simp add: ids')
    then show ?thesis
      using t(1,2) seen_sets [OF t(3,4), of "set (trace_inputs ts)" "set (trace_refs ts)"]
      by (simp only: Cons.IH tc_trace_seen [OF ids'] split list.pred_inject set_append distinct_append simp_thms) blast
  next
    case False
    then have "\<not> is_ok (ofold tc_trace (t # ts) ids)" by (cases "tc_trace t ids") simp_all
    moreover have "\<not> (list_all trace_shape (t # ts) \<and> distinct (trace_inputs (t # ts)) \<and>
        set (trace_inputs (t # ts)) \<inter> (inputs_seen ids \<union> refs_seen ids \<union> set (trace_refs (t # ts))) = {} \<and>
        set (trace_refs (t # ts)) \<inter> inputs_seen ids = {})"
      using False unfolding tc_trace_Ok split by auto
    ultimately show ?thesis by blast
  qed
qed (simp add: trace_inputs_def trace_refs_def)

text \<open>What type checking accepts.\<close>

definition well_typed :: "Transaction \<Rightarrow> bool" where
  "well_typed tx \<longleftrightarrow> (let ts = all_traces (Traces tx) in
     list_all trace_shape ts \<and> distinct (trace_inputs ts) \<and> set (trace_inputs ts) \<inter> set (trace_refs ts) = {})"

lemma seen_Nil [simp]: "inputs_seen [] = {}" "refs_seen [] = {}"
  by (simp_all add: inputs_seen_def refs_seen_def)

lemma typeCheck_Ok: "is_ok (typeCheck [] (Traces tx)) \<longleftrightarrow> well_typed tx"
  by (simp add: typeCheck_eq traces_Ok well_typed_def Let_def)

section \<open>Laws of running\<close>

definition find_checker :: "checkersMap \<Rightarrow> gostring \<Rightarrow> gostring \<Rightarrow> Checker option" where
  "find_checker checkers cid name = Option.bind (map_of checkers cid) (\<lambda>m. map_of m name)"

definition trace_checker :: "checkersMap \<Rightarrow> Trace \<Rightarrow> Checker option" where
  "trace_checker checkers t = find_checker checkers (ContractID t) (Procedure t)"

lemma aggregate_Cons:
  "aggregate checkers (t # ts) = Ok ps \<longleftrightarrow>
     (\<exists>c ps1 ps2. trace_checker checkers t = Some c \<and> aggregate checkers (Dependencies t) = Ok ps1 \<and>
        aggregate checkers ts = Ok ps2 \<and> ps = \<lparr>ctp_Checker = c, ctp_Trace = t\<rparr> # ps1 @ ps2)"
  by (auto simp: trace_checker_def find_checker_def outcome_simps split: option.splits)

lemma aggregate_Ok: "is_ok (aggregate checkers ts) \<longleftrightarrow> list_all (\<lambda>t. trace_checker checkers t \<noteq> None) (all_traces ts)"
proof (induction checkers ts rule: aggregate.induct)
  case (2 checkers t traces)
  show ?case
  proof (cases "trace_checker checkers t")
    case None
    then have "\<not> is_ok (aggregate checkers (t # traces))" unfolding is_ok_iff aggregate_Cons by simp
    then show ?thesis using None by (simp add: all_traces_Cons)
  next
    case (Some c)
    then obtain m where m: "map_of checkers (ContractID t) = Some m" "map_of m (Procedure t) = Some c"
      by (auto simp: trace_checker_def find_checker_def split: Option.bind_splits)
    have "is_ok (aggregate checkers (t # traces)) \<longleftrightarrow>
        is_ok (aggregate checkers (Dependencies t)) \<and> is_ok (aggregate checkers traces)"
      unfolding is_ok_iff aggregate_Cons using Some by blast
    moreover have "is_ok (aggregate checkers (Dependencies t)) \<longleftrightarrow>
        list_all (\<lambda>t. trace_checker checkers t \<noteq> None) (all_traces (Dependencies t))"
      by (rule 2(1) [OF m])
    moreover have "is_ok (aggregate checkers traces) \<longleftrightarrow>
        list_all (\<lambda>t. trace_checker checkers t \<noteq> None) (all_traces traces)"
      if "is_ok (aggregate checkers (Dependencies t))"
      using 2(2) [OF m] that unfolding is_ok_iff by blast
    ultimately show ?thesis using Some by (auto simp: all_traces_Cons)
  qed
qed simp

text \<open>Every trace of the tree is paired with its checker.\<close>

lemma aggregate_pairs:
  assumes "aggregate checkers ts = Ok ps"
  shows "set ps = (\<lambda>t. \<lparr>ctp_Checker = the (trace_checker checkers t), ctp_Trace = t\<rparr>) ` set (all_traces ts)"
  using assms
proof (induction checkers ts arbitrary: ps rule: aggregate.induct)
  case (2 checkers t traces)
  then obtain c ps1 ps2 where c: "trace_checker checkers t = Some c" "aggregate checkers (Dependencies t) = Ok ps1"
    "aggregate checkers traces = Ok ps2" "ps = \<lparr>ctp_Checker = c, ctp_Trace = t\<rparr> # ps1 @ ps2"
    unfolding aggregate_Cons by blast
  then obtain m where m: "map_of checkers (ContractID t) = Some m" "map_of m (Procedure t) = Some c"
    by (auto simp: trace_checker_def find_checker_def split: Option.bind_splits)
  from 2(1) [OF m c(2)] 2(2) [OF m c(2,3)] show ?case
    by (simp add: c all_traces_Cons image_Un)
qed simp

definition trace_passes :: "checkersMap \<Rightarrow> Trace \<Rightarrow> bool" where
  "trace_passes checkers t =
     (case trace_checker checkers t of
        None \<Rightarrow> False
      | Some c \<Rightarrow> call_checker \<lparr>ctp_Checker = c, ctp_Trace = t\<rparr>)"

lemma run_checkers_Ok:
  "run_checkers checkers tx = Ok ok \<longleftrightarrow>
     list_all (\<lambda>t. trace_checker checkers t \<noteq> None) (all_traces (Traces tx)) \<and>
     ok = list_all (trace_passes checkers) (all_traces (Traces tx))"
proof (cases "is_ok (aggregate checkers (Traces tx))")
  case True
  then obtain ps where ps: "aggregate checkers (Traces tx) = Ok ps" by (auto simp: is_ok_iff)
  have known: "list_all (\<lambda>t. trace_checker checkers t \<noteq> None) (all_traces (Traces tx))"
    using True by (simp only: aggregate_Ok)
  have "list_all call_checker ps = list_all (trace_passes checkers) (all_traces (Traces tx))"
    using known unfolding list_all_iff aggregate_pairs [OF ps] by (auto simp: trace_passes_def split: option.splits)
  then show ?thesis using known by (auto simp: run_checkers_def ps)
next
  case False
  then have "run_checkers checkers tx \<noteq> Ok ok" by (auto simp: run_checkers_def outcome_simps)
  then show ?thesis using False by (simp only: aggregate_Ok simp_thms)
qed

text \<open>
  \<^bold>\<open>C11\<close>. The checker accepts a transaction exactly when, over all traces and their dependencies at
  any depth, every trace names a contract and a procedure and has as many outputs as inputs, no
  object is an input twice, no object is both an input and a reference, and every trace passes the
  checker registered for its contract and procedure.
\<close>

theorem check_accepts:
  "Check s (Some tx) = Ok True \<longleftrightarrow>
     (let ts = all_traces (Traces tx) in
      list_all trace_shape ts \<and> distinct (trace_inputs ts) \<and> set (trace_inputs ts) \<inter> set (trace_refs ts) = {} \<and>
      list_all (trace_passes (cs_checkers s)) ts)"
proof -
  have "Check s (Some tx) = Ok True \<longleftrightarrow> is_ok (typeCheck [] (Traces tx)) \<and> run_checkers (cs_checkers s) tx = Ok True"
    by (auto simp: Check_def outcome_simps)
  moreover have "list_all (trace_passes (cs_checkers s)) ts \<Longrightarrow>
      list_all (\<lambda>t. trace_checker (cs_checkers s) t \<noteq> None) ts" for ts
    by (auto simp: list_all_iff trace_passes_def split: option.splits)
  ultimately show ?thesis
    by (auto simp: typeCheck_Ok well_typed_def run_checkers_Ok Let_def)
qed

section \<open>Evidence\<close>

text \<open>Whoever gets a signature has a well-typed transaction of known contracts; the flag says
  whether the contracts accept it, but it is not part of what is signed.\<close>

lemma CheckAndSign_Ok:
  "CheckAndSign l s (Some tx) = Ok (ok, sig) \<longleftrightarrow>
     well_typed tx \<and> list_all (\<lambda>t. trace_checker (cs_checkers s) t \<noteq> None) (all_traces (Traces tx)) \<and>
     ok = list_all (trace_passes (cs_checkers s)) (all_traces (Traces tx)) \<and>
     (\<exists>txbytes. marshalTransaction l (Some tx) = (txbytes, False) \<and> Sign (ed_sign l) (cs_privkey s) txbytes = (Ok sig :: (checker_err, _) outcome))"
proof -
  have "Check s (Some tx) = Ok ok \<longleftrightarrow> well_typed tx \<and> run_checkers (cs_checkers s) tx = Ok ok" for ok
    unfolding typeCheck_Ok [symmetric] by (auto simp: Check_def outcome_simps)
  then show ?thesis
    by (auto simp: CheckAndSign_def outcome_simps run_checkers_Ok split: prod.splits bool.splits)
qed

text \<open>
  \<^bold>\<open>C12\<close>. A transaction that the contracts reject is signed all the same: if the node runs the checker
  with its signing key, then the signature that comes with the negative answer is evidence with
  which the first consensus of this node accepts the transaction.
\<close>

theorem rejected_transaction_gets_evidence:
  assumes "well_typed tx" and "list_all (\<lambda>t. trace_checker (cs_checkers s) t \<noteq> None) (all_traces (Traces tx))"
    and "\<not> list_all (trace_passes (cs_checkers s)) (all_traces (Traces tx))"
    and "marshalTransaction l = marshalTx e" and "snd (marshalTx e (Some tx)) = False"
    and "length (cs_privkey s) = 64"
    and "map_of (pubkeys e) (nodeID e) = Some verify" and "\<And>data. verify data (ed_sign l (cs_privkey s) data)"
    and "ct_Tx d = Some tx"
  shows "\<exists>sig. CheckAndSign l s (Some tx) = Ok (False, sig) \<and>
    onConsensusEvent e (d\<lparr>ct_Evidences := [(nodeID e, sig)]\<rparr>) = Ok StateConsensusAccepted"
proof -
  obtain txbytes where tx: "marshalTx e (Some tx) = (txbytes, False)"
    using assms(5) by (cases "marshalTx e (Some tx)") simp
  let ?sig = "ed_sign l (cs_privkey s) txbytes"
  have "CheckAndSign l s (Some tx) = Ok (False, ?sig)"
    unfolding CheckAndSign_Ok using assms(1-4,6) tx by (simp add: Sign_def)
  moreover have "onConsensusEvent e (d\<lparr>ct_Evidences := [(nodeID e, ?sig)]\<rparr>) = Ok StateConsensusAccepted"
    using assms(7-9) tx by (simp add: onConsensusEvent_def verifyEvidenceSignature_def)
  ultimately show ?thesis by blast
qed

text \<open>A contract that refuses everything.\<close>

definition strict_checker :: Checker where
  "strict_checker = \<lparr>chk_ContractID = [1], chk_Name = [2], chk_Check = (\<lambda>ins refs ps outs rets deps. False)\<rparr>"

definition strict_service :: checkerService where
  "strict_service = \<lparr>cs_checkers = add_checker strict_checker [], cs_privkey = replicate 64 0\<rparr>"

definition strict_tx :: Transaction where
  "strict_tx = \<lparr>Traces = [Trace [1] [2] [[1]] [[9]] [\<lparr>oo_Labels = [], oo_Object = [5]\<rparr>] [] [] [] [[6]] [[7]]]\<rparr>"

definition strict_libs :: checker_libs where
  "strict_libs = \<lparr>unmarshalRequest = (\<lambda>b. Some (Some strict_tx)), marshalTransaction = marshalTx demo_env,
     marshalResponse = (\<lambda>r. Some (snd r)), ed_sign = (\<lambda>key data. data)\<rparr>"

theorem rejected_transaction_gets_evidence_witness:
  "\<exists>sig. CheckAndSign strict_libs strict_service (Some strict_tx) = Ok (False, sig) \<and>
    onConsensusEvent demo_env \<lparr>ct_TxID = [7], ct_Tx = Some strict_tx, ct_Evidences = [(1, sig)],
      ct_Op = ConsensusOp_Consensus1, ct_Initiator = 3\<rparr> = Ok StateConsensusAccepted"
proof -
  let ?d = "\<lparr>ct_TxID = [7], ct_Tx = Some strict_tx, ct_Evidences = [], ct_Op = ConsensusOp_Consensus1, ct_Initiator = 3\<rparr>"
  let ?t = "Trace [1] [2] [[1]] [[9]] [\<lparr>oo_Labels = [], oo_Object = [5]\<rparr>] [] [] [] [[6]] [[7]]"
  have ts: "all_traces (Traces strict_tx) = [?t]" by (simp add: strict_tx_def all_traces_def)
  have typed: "well_typed strict_tx"
    by (simp add: well_typed_def ts trace_shape_def trace_inputs_def trace_refs_def)
  have c: "trace_checker (cs_checkers strict_service) ?t = Some strict_checker"
    by (simp add: trace_checker_def find_checker_def strict_service_def add_checker_def strict_checker_def)
  then have fails: "\<not> trace_passes (cs_checkers strict_service) ?t"
    by (simp add: trace_passes_def call_checker_def strict_checker_def)
  have key: "map_of (pubkeys demo_env) (nodeID demo_env) = Some (\<lambda>m sig. True)" by (simp add: demo_env_def)
  show ?thesis
    using rejected_transaction_gets_evidence [of strict_tx strict_service strict_libs demo_env "\<lambda>m sig. True" ?d] typed c fails key
    by (simp add: ts strict_libs_def strict_service_def demo_env_def)
qed

text \<open>A request without a transaction, e.g. an empty payload, stops the node.\<close>

lemma empty_request_panics:
  assumes "unmarshalRequest l (msg_Payload m) = Some None" and "msg_Opcode m = Opcode_CHECK"
  shows "checker_Handle l s m = Panic NilDereference"
  using assms by (simp add: checker_Handle_def checker_check_def Check_def)

section \<open>Registration\<close>

lemma find_add_checker:
  "find_checker (add_checker c checkers) cid name =
     (if cid = chk_ContractID c \<and> name = chk_Name c then Some c else find_checker checkers cid name)"
  by (cases "map_of checkers (chk_ContractID c)") (simp_all add: find_checker_def add_checker_def gomap_simps)

text \<open>The last checker registered for a contract and a procedure is the one that runs.\<close>

lemma registered_checkers:
  "find_checker (fold add_checker cs checkers) cid name =
     (case find (\<lambda>c. chk_ContractID c = cid \<and> chk_Name c = name) (rev cs) of
        Some c \<Rightarrow> Some c
      | None \<Rightarrow> find_checker checkers cid name)"
proof (induction cs rule: rev_induct)
  case (snoc c cs)
  then show ?case by (simp add: find_add_checker split: option.splits)
qed simp

text \<open>A service that starts can sign.\<close>

lemma new_service_signs:
  assumes "checker_New b32_decode cs keyType private = Ok s"
  shows "Sign curve (cs_privkey s) data = Ok (curve (cs_privkey s) data)"
proof -
  from assms obtain alg key where "LoadPrivateKey alg key = Ok (cs_privkey s)"
    by (auto simp: checker_New_def Let_def obind_eq_Ok oerr_eq_Ok split: option.splits)
  then show ?thesis by (auto simp: LoadPrivateKey_def Sign_def split: if_splits)
qed

end
