(* ===== verification/NetConn.thy ===== *)
theory NetConn
  imports ServiceMsg
begin

text \<open>
  The framing of messages on a connection (\<open>network/conn.go\<close>): a length in four bytes, then the
  payload. The socket is the environment: what it will deliver is a list of chunks and errors, one
  per successful or failing call of \<open>Read\<close>, a chunk that is longer than the buffer staying for the next
  call; how much it takes of a \<open>Write\<close> is a list of answers, after which it takes everything. The
  chunks may be empty and cut the stream anywhere, deadlines that pass are errors. Protobuf
  encoding is done by the callers.
\<close>

datatype io_err = EOF | Timeout | ConnFailed

datatype read_event = Data bytes | ReadErr io_err
datatype write_event = Takes nat | WriteErr io_err

datatype conn_err = IOErr io_err | SizeOverflow | SizeExceeds nat | MarshalErr | UnmarshalErr

record Conn =
  nc_buf :: bytes
  nc_in :: "read_event list"
  nc_writes :: "write_event list"
  nc_out :: bytes
  nc_closed :: bool
  nc_lastID :: u64

section \<open>Reading\<close>

fun conn_Read :: "nat \<Rightarrow> read_event list \<Rightarrow> bytes \<times> io_err option \<times> read_event list" where
  "conn_Read k [] = ([], Some EOF, [])"
| "conn_Read k (ReadErr e # ins) = ([], Some e, ins)"
| "conn_Read k (Data d # ins) = (take k d, None, if length d \<le> k then ins else Data (drop k d) # ins)"

lemma conn_Read_progress:
  "conn_Read k ins = (d, None, ins') \<Longrightarrow> 0 < k \<Longrightarrow>
     length d \<le> k \<and> (length d > 0 \<and> length ins' \<le> length ins \<or> length ins' < length ins)"
  by (cases "(k, ins)" rule: conn_Read.cases) (auto split: if_splits)

text \<open>The loop that fills \<open>buf[..stop]\<close> up to \<open>stop\<close>, \<open>need\<close> bytes of which are missing.\<close>

function read_loop :: "nat \<Rightarrow> nat \<Rightarrow> bytes \<Rightarrow> read_event list \<Rightarrow> io_err option \<times> bytes \<times> read_event list" where
  "read_loop stop need buf ins =
     (if need > 0 then
        (case conn_Read need ins of
           (d, None, ins') \<Rightarrow>
             read_loop stop (need - length d)
               (take (stop - need) buf @ d @ drop (stop - need + length d) buf) ins'
         | (d, Some e, ins') \<Rightarrow> (Some e, buf, ins'))
      else (None, buf, ins))"
  by pat_completeness auto
termination
proof (relation "measure (\<lambda>(stop, need, buf, ins). need + length ins)", goal_cases)
  case (2 stop need buf ins d y e ins')
  then have "conn_Read need ins = (d, None, ins')" by simp
  from conn_Read_progress [OF this 2(1)] show ?case by (simp del: length_greater_0_conv) linarith
qed simp

declare read_loop.simps [simp del]

definition close_conn :: "Conn \<Rightarrow> Conn" where
  "close_conn c = c\<lparr>nc_closed := True\<rparr>"

definition grow_buf :: "nat \<Rightarrow> bytes \<Rightarrow> bytes" where
  "grow_buf n buf = (if length buf < n then replicate n 0 else buf)"

text \<open>The part after the header. The buffer that was made for the payload stays with the connection,
  also when the payload does not arrive and the connection is closed.\<close>

definition read_body :: "nat \<Rightarrow> u32 \<Rightarrow> bytes \<Rightarrow> read_event list \<Rightarrow> Conn \<Rightarrow> (conn_err, bytes) outcome \<times> Conn" where
  "read_body limit u buf ins c =
     (if sint u < 0 then (Err SizeOverflow, close_conn (c\<lparr>nc_buf := buf, nc_in := ins\<rparr>))
      else if nat (sint u) > limit then (Err (SizeExceeds (nat (sint u))), close_conn (c\<lparr>nc_buf := buf, nc_in := ins\<rparr>))
      else
        (case read_loop (nat (sint u)) (nat (sint u)) (grow_buf (nat (sint u)) buf) ins of
           (Some e, buf, ins) \<Rightarrow> (Err (IOErr e), close_conn (c\<lparr>nc_buf := buf, nc_in := ins\<rparr>))
         | (None, buf, ins) \<Rightarrow> (Ok (take (nat (sint u)) buf), c\<lparr>nc_buf := buf, nc_in := ins\<rparr>)))"

definition readPayload :: "nat \<Rightarrow> Conn \<Rightarrow> (conn_err, bytes) outcome \<times> Conn" where
  "readPayload limit c =
     (if nc_closed c then (Err (IOErr ConnFailed), close_conn c)
      else case read_loop 4 4 (nc_buf c) (nc_in c) of
        (Some e, buf, ins) \<Rightarrow> (Err (IOErr e), close_conn (c\<lparr>nc_buf := buf, nc_in := ins\<rparr>))
      | (None, buf, ins) \<Rightarrow>
          (case Uint32 buf of
             Err e \<Rightarrow> (Err e, c)
           | Panic r \<Rightarrow> (Panic r, c)
           | Ok u \<Rightarrow> read_body limit u buf ins c))"

text \<open>\<open>ReadHello\<close> and \<open>ReadMessage\<close> decode the payload.\<close>

definition read_pb :: "(bytes \<Rightarrow> 'a option) \<Rightarrow> nat \<Rightarrow> Conn \<Rightarrow> (conn_err, 'a) outcome \<times> Conn" where
  "read_pb unmarshal limit c =
     (let (r, c') = readPayload limit c in
      (obind r (\<lambda>payload. case unmarshal payload of None \<Rightarrow> Err UnmarshalErr | Some x \<Rightarrow> Ok x), c'))"

section \<open>Writing\<close>

fun conn_Write :: "bytes \<Rightarrow> write_event list \<Rightarrow> nat \<times> io_err option \<times> write_event list" where
  "conn_Write p [] = (length p, None, [])"
| "conn_Write p (WriteErr e # ws) = (0, Some e, ws)"
| "conn_Write p (Takes n # ws) = (min n (length p), None, ws)"

function write_loop :: "bytes \<Rightarrow> write_event list \<Rightarrow> bytes \<Rightarrow> io_err option \<times> write_event list \<times> bytes" where
  "write_loop p ws out =
     (if p \<noteq> [] then
        (case conn_Write p ws of
           (n, None, ws') \<Rightarrow> write_loop (drop n p) ws' (out @ take n p)
         | (n, Some e, ws') \<Rightarrow> (Some e, ws', out))
      else (None, ws, out))"
  by pat_completeness auto
termination
proof (relation "measure (\<lambda>(p, ws, out). length p + length ws)", goal_cases)
  case (2 p ws out n y e ws')
  then show ?case by (cases "(p, ws)" rule: conn_Write.cases) auto
qed simp

declare write_loop.simps [simp del]

text \<open>The header is put together in the buffer of the connection.\<close>

definition WritePayload :: "bytes option \<Rightarrow> nat \<Rightarrow> Conn \<Rightarrow> (conn_err, unit) outcome \<times> Conn" where
  "WritePayload pb limit c =
     (case pb of
        None \<Rightarrow> (Err MarshalErr, close_conn c)
      | Some payload \<Rightarrow>
          let size = length payload in
          if size > limit then (Err (SizeExceeds size), close_conn c)
          else if nc_closed c then (Err (IOErr ConnFailed), close_conn c)
          else if length (nc_buf c) < 4 then (Panic IndexOutOfRange, c)
          else
            let hdr = PutUint32 (of_nat size);
                c = c\<lparr>nc_buf := hdr @ drop 4 (nc_buf c)\<rparr> in
            (case write_loop hdr (nc_writes c) (nc_out c) of
               (Some e, ws, out) \<Rightarrow> (Err (IOErr e), close_conn (c\<lparr>nc_out := out, nc_writes := ws\<rparr>))
             | (None, ws, out) \<Rightarrow>
                 (case write_loop payload ws out of
                    (Some e, ws, out) \<Rightarrow> (Err (IOErr e), close_conn (c\<lparr>nc_out := out, nc_writes := ws\<rparr>))
                  | (None, ws, out) \<Rightarrow> (Ok (), c\<lparr>nc_out := out, nc_writes := ws\<rparr>))))"

text \<open>The identifier comes from a counter of the process.\<close>

definition WriteRequest ::
    "(Message \<Rightarrow> bytes option) \<Rightarrow> Message \<Rightarrow> nat \<Rightarrow> u64 \<Rightarrow> Conn \<Rightarrow> (conn_err, u64) outcome \<times> u64 \<times> Conn" where
  "WriteRequest marshal msg limit atomicid c =
     (let id = atomicid + 1;
          (r, c') = WritePayload (marshal (msg\<lparr>msg_ID := id\<rparr>)) limit (c\<lparr>nc_lastID := nc_lastID c + 1\<rparr>) in
      (omap (\<lambda>_. id) r, id, c'))"

definition AbnormalError :: "conn_err \<Rightarrow> bool" where
  "AbnormalError e = (e \<noteq> IOErr EOF \<and> e \<noteq> IOErr Timeout)"

definition NewConn :: "read_event list \<Rightarrow> write_event list \<Rightarrow> Conn" where
  "NewConn ins ws = \<lparr>nc_buf = replicate 1024 0, nc_in = ins, nc_writes = ws, nc_out = [], nc_closed = False, nc_lastID = 0\<rparr>"

section \<open>The byte stream\<close>

fun event_data :: "read_event \<Rightarrow> bytes" where
  "event_data (Data d) = d"
| "event_data (ReadErr e) = []"

fun is_data :: "read_event \<Rightarrow> bool" where
  "is_data (Data d) = True"
| "is_data (ReadErr e) = False"

definition stream :: "read_event list \<Rightarrow> bytes" where
  "stream ins = concat (map event_data ins)"

lemma stream_simps [simp]:
  "stream [] = []" "stream (Data d # ins) = d @ stream ins" "stream (ReadErr e # ins) = stream ins"
  by (simp_all add: stream_def)

lemma patched_take: "i \<le> length b \<Longrightarrow> take (i + length d) (take i b @ d @ xs) = take i b @ d"
  by simp

lemma patched_drop: "i \<le> length b \<Longrightarrow> i + length d \<le> j \<Longrightarrow> drop j (take i b @ d @ drop (i + length d) b) = drop j b"
  by simp

text \<open>Without errors the loop gets the next bytes of the stream, however it is cut.\<close>

lemma read_loop_Ok:
  assumes "list_all is_data ins" "need \<le> length (stream ins)" "need \<le> stop" "stop \<le> length buf"
  shows "\<exists>ins'. read_loop stop need buf ins = (None, take (stop - need) buf @ take need (stream ins) @ drop stop buf, ins') \<and>
    list_all is_data ins' \<and> stream ins' = drop need (stream ins)"
  using assms
proof (induction stop need buf ins rule: read_loop.induct)
  case (1 stop need buf ins)
  show ?case
  proof (cases "need > 0")
    case True
    then obtain d rest where ins: "ins = Data d # rest"
      using 1(2,3) by (cases "(need, ins)" rule: conn_Read.cases) auto
    let ?d = "take need d" and ?ins = "if length d \<le> need then rest else Data (drop need d) # rest"
    let ?buf = "take (stop - need) buf @ ?d @ drop (stop - need + length ?d) buf"
    have r: "conn_Read need ins = (?d, None, ?ins)" by (simp add: ins)
    have s: "stream ?ins = drop (length ?d) (stream ins)" by (simp add: ins)
    have "\<exists>ins'. read_loop stop (need - length ?d) ?buf ?ins =
        (None, take (stop - (need - length ?d)) ?buf @ take (need - length ?d) (stream ?ins) @ drop stop ?buf, ins') \<and>
      list_all is_data ins' \<and> stream ins' = drop (need - length ?d) (stream ?ins)"
    proof (rule 1(1) [OF True r [symmetric] refl refl])
      show "list_all is_data ?ins" using 1(2) ins by simp
      show "need - length ?d \<le> length (stream ?ins)" unfolding s using 1(3) by simp
    qed (use 1(4,5) in auto)
    then obtain ins' where ins': "read_loop stop (need - length ?d) ?buf ?ins =
        (None, take (stop - (need - length ?d)) ?buf @ take (need - length ?d) (stream ?ins) @ drop stop ?buf, ins')"
      "list_all is_data ins'" "stream ins' = drop (need - length ?d) (stream ?ins)" by blast
    have d: "length ?d \<le> need" by simp
    then have i: "stop - (need - length ?d) = stop - need + length ?d" "stop - need + length ?d \<le> stop" "stop - need \<le> length buf"
      using 1(4,5) by linarith+
    have "take (stop - (need - length ?d)) ?buf = take (stop - need) buf @ ?d"
      unfolding i(1) by (rule patched_take [OF i(3)])
    moreover have "?d @ take (need - length ?d) (stream ?ins) = take need (stream ins)" by (simp add: ins)
    moreover have "drop stop ?buf = drop stop buf" by (rule patched_drop [OF i(3,2)])
    moreover have "drop (need - length ?d) (stream ?ins) = drop need (stream ins)"
      unfolding s by (simp add: min_def)
    ultimately show ?thesis
      using ins' True by (subst read_loop.simps) (simp add: r)
  qed (use 1(2,5) in \<open>simp add: read_loop.simps\<close>)
qed


section \<open>Frames\<close>

definition frame :: "bytes \<Rightarrow> bytes" where
  "frame p = PutUint32 (of_nat (length p)) @ p"

definition conn_ready :: "Conn \<Rightarrow> bool" where
  "conn_ready c \<longleftrightarrow> \<not> nc_closed c \<and> 4 \<le> length (nc_buf c) \<and> list_all is_data (nc_in c)"

lemma sint_of_size: "n < 2 ^ 31 \<Longrightarrow> sint (of_nat n :: u32) = int n"
  by (simp add: signed_of_nat signed_take_bit_int_eq_self)

lemma readPayload_frame:
  assumes "conn_ready c" "stream (nc_in c) = frame p @ rest" "length p \<le> limit" "length p < 2 ^ 31"
  shows "\<exists>c'. readPayload limit c = (Ok p, c') \<and> conn_ready c' \<and> stream (nc_in c') = rest"
proof -
  let ?h = "PutUint32 (of_nat (length p))"
  obtain ins where ins: "read_loop 4 4 (nc_buf c) (nc_in c) = (None, ?h @ drop 4 (nc_buf c), ins)"
    "list_all is_data ins" "stream ins = p @ rest"
    using read_loop_Ok [of "nc_in c" 4 4 "nc_buf c"] assms(1,2) by (auto simp: conn_ready_def frame_def)
  define buf where "buf = grow_buf (length p) (?h @ drop 4 (nc_buf c))"
  have len: "length p \<le> length buf" "4 \<le> length buf" using assms(1) by (auto simp: buf_def grow_buf_def conn_ready_def)
  obtain ins' where ins': "read_loop (length p) (length p) buf ins = (None, p @ drop (length p) buf, ins')"
    "list_all is_data ins'" "stream ins' = rest"
    using read_loop_Ok [of ins "length p" "length p" buf] ins(2,3) len by auto
  have u: "Uint32 (?h @ drop 4 (nc_buf c)) = (Ok (of_nat (length p)) :: (conn_err, u32) outcome)" by (simp add: le_simps)
  have "readPayload limit c = (Ok p, c\<lparr>nc_buf := p @ drop (length p) buf, nc_in := ins'\<rparr>)"
    using assms(1,3) ins(1) ins'(1)
    by (simp add: readPayload_def read_body_def conn_ready_def u sint_of_size [OF assms(4)] buf_def [symmetric])
  moreover have "conn_ready (c\<lparr>nc_buf := p @ drop (length p) buf, nc_in := ins'\<rparr>)"
    using assms(1) ins'(2) len by (simp add: conn_ready_def)
  ultimately show ?thesis using ins'(3) by auto
qed

fun takes :: "write_event \<Rightarrow> bool" where
  "takes (Takes n) = True"
| "takes (WriteErr e) = False"

lemma write_loop_Ok:
  assumes "list_all takes ws"
  shows "\<exists>ws'. write_loop p ws out = (None, ws', out @ p) \<and> list_all takes ws'"
  using assms
proof (induction p ws out rule: write_loop.induct)
  case (1 p ws out)
  show ?case
  proof (cases "p = []")
    case False
    from 1(2) obtain n ws' where w: "conn_Write p ws = (n, None, ws')" "list_all takes ws'"
      by (cases "(p, ws)" rule: conn_Write.cases) auto
    from 1(1) [OF False w(1) [symmetric] refl refl w(2)] show ?thesis
      using False w(1) by (subst write_loop.simps) simp
  qed (use 1(2) in \<open>simp add: write_loop.simps\<close>)
qed

definition write_ready :: "Conn \<Rightarrow> bool" where
  "write_ready c \<longleftrightarrow> \<not> nc_closed c \<and> 4 \<le> length (nc_buf c) \<and> list_all takes (nc_writes c)"

lemma WritePayload_frame:
  assumes "write_ready c" "length p \<le> limit"
  shows "\<exists>c'. WritePayload (Some p) limit c = (Ok (), c') \<and> write_ready c' \<and> nc_out c' = nc_out c @ frame p"
proof -
  let ?h = "PutUint32 (of_nat (length p))"
  obtain ws where ws: "write_loop ?h (nc_writes c) (nc_out c) = (None, ws, nc_out c @ ?h)" "list_all takes ws"
    using write_loop_Ok assms(1) unfolding write_ready_def by blast
  obtain ws' where ws': "write_loop p ws (nc_out c @ ?h) = (None, ws', nc_out c @ ?h @ p)" "list_all takes ws'"
    using write_loop_Ok [OF ws(2), of p "nc_out c @ ?h"] by auto
  show ?thesis
    using assms ws ws' by (simp add: WritePayload_def write_ready_def frame_def Let_def)
qed

section \<open>Sequences of messages\<close>

fun read_many :: "('c \<Rightarrow> ('e, 'm) outcome \<times> 'c) \<Rightarrow> nat \<Rightarrow> 'c \<Rightarrow> ('e, 'm list) outcome \<times> 'c" where
  "read_many read 0 c = (Ok [], c)"
| "read_many read (Suc n) c =
     (case read c of
        (Ok p, c') \<Rightarrow> (let (r, c'') = read_many read n c' in (omap ((#) p) r, c''))
      | (Err e, c') \<Rightarrow> (Err e, c')
      | (Panic r, c') \<Rightarrow> (Panic r, c'))"

fun write_many :: "('m \<Rightarrow> 'c \<Rightarrow> ('e, unit) outcome \<times> 'c) \<Rightarrow> 'm list \<Rightarrow> 'c \<Rightarrow> ('e, unit) outcome \<times> 'c" where
  "write_many put [] c = (Ok (), c)"
| "write_many put (p # ps) c =
     (case put p c of
        (Ok _, c') \<Rightarrow> write_many put ps c'
      | (Err e, c') \<Rightarrow> (Err e, c')
      | (Panic r, c') \<Rightarrow> (Panic r, c'))"

text \<open>What a reader and a writer of messages promise over the encoding they share.\<close>

locale message_reader =
  fixes read :: "'c \<Rightarrow> ('e, 'm) outcome \<times> 'c"
    and incoming :: "'c \<Rightarrow> bytes" and ready :: "'c \<Rightarrow> bool"
    and fits :: "'m \<Rightarrow> bool" and enc :: "'m \<Rightarrow> bytes"
  assumes read_next: "ready c \<Longrightarrow> incoming c = enc p @ rest \<Longrightarrow> fits p \<Longrightarrow>
    \<exists>c'. read c = (Ok p, c') \<and> ready c' \<and> incoming c' = rest"
begin

lemma read_frames:
  assumes "ready c" "incoming c = concat (map enc ps) @ rest" "list_all fits ps"
  shows "\<exists>c'. read_many read (length ps) c = (Ok ps, c') \<and> ready c' \<and> incoming c' = rest"
  using assms
proof (induction ps arbitrary: c)
  case (Cons p ps)
  then obtain c1 where c1: "read c = (Ok p, c1)" "ready c1" "incoming c1 = concat (map enc ps) @ rest"
    using read_next [of c p "concat (map enc ps) @ rest"] by auto
  then obtain c2 where "read_many read (length ps) c1 = (Ok ps, c2)" "ready c2" "incoming c2 = rest"
    using Cons by auto
  then show ?case using c1(1) by simp
qed simp

end

locale message_writer =
  fixes put :: "'m \<Rightarrow> 'w \<Rightarrow> ('f, unit) outcome \<times> 'w"
    and sent :: "'w \<Rightarrow> bytes" and wready :: "'w \<Rightarrow> bool"
    and fits :: "'m \<Rightarrow> bool" and enc :: "'m \<Rightarrow> bytes"
  assumes write_next: "wready c \<Longrightarrow> fits p \<Longrightarrow> \<exists>c'. put p c = (Ok (), c') \<and> wready c' \<and> sent c' = sent c @ enc p"
begin

lemma write_frames:
  assumes "wready c" "list_all fits ps"
  shows "\<exists>c'. write_many put ps c = (Ok (), c') \<and> wready c' \<and> sent c' = sent c @ concat (map enc ps)"
  using assms
proof (induction ps arbitrary: c)
  case (Cons p ps)
  then obtain c1 where c1: "put p c = (Ok (), c1)" "wready c1" "sent c1 = sent c @ enc p"
    using write_next [of c p] by auto
  then obtain c2 where "write_many put ps c1 = (Ok (), c2)" "wready c2" "sent c2 = sent c1 @ concat (map enc ps)"
    using Cons.IH [OF c1(2)] Cons.prems(2) by auto
  then show ?case using c1 by simp
qed simp

end

locale channel = message_reader read incoming ready fits enc + message_writer put sent wready fits enc
  for read :: "'c \<Rightarrow> ('e, 'm) outcome \<times> 'c" and incoming ready fits enc
    and put :: "'m \<Rightarrow> 'w \<Rightarrow> ('f, unit) outcome \<times> 'w" and sent wready
begin

text \<open>What is written is read, in order and without a byte more.\<close>

lemma transmits:
  assumes "wready w" "list_all fits ps" "ready r" "write_many put ps w = (Ok (), w')"
    and "sent w' = sent w @ bytes" "incoming r = bytes @ rest"
  shows "\<exists>r'. read_many read (length ps) r = (Ok ps, r') \<and> ready r' \<and> incoming r' = rest"
proof -
  have "sent w' = sent w @ concat (map enc ps)" using write_frames [OF assms(1,2)] assms(4) by auto
  then have "incoming r = concat (map enc ps) @ rest" using assms(5,6) by simp
  from read_frames [OF assms(3) this assms(2)] show ?thesis .
qed

end

text \<open>A frame that fits the limit of both sides; the sign bit of the length must stay clear.\<close>

definition fits_limit :: "nat \<Rightarrow> bytes \<Rightarrow> bool" where
  "fits_limit limit p \<longleftrightarrow> length p \<le> limit \<and> length p < 2 ^ 31"

interpretation conn: channel "readPayload limit" "\<lambda>c. stream (nc_in c)" conn_ready "fits_limit limit" frame
  "\<lambda>p. WritePayload (Some p) limit" nc_out write_ready
proof unfold_locales
  show "\<exists>c'. readPayload limit c = (Ok p, c') \<and> conn_ready c' \<and> stream (nc_in c') = rest"
    if "conn_ready c" "stream (nc_in c) = frame p @ rest" "fits_limit limit p" for c p rest
    using that by (intro readPayload_frame) (simp_all add: fits_limit_def)
  show "\<exists>c'. WritePayload (Some p) limit c = (Ok (), c') \<and> write_ready c' \<and> nc_out c' = nc_out c @ frame p"
    if "write_ready c" "fits_limit limit p" for c p
    using that by (intro WritePayload_frame) (simp_all add: fits_limit_def)
qed

text \<open>
  \<^bold>\<open>C25\<close>. Payloads of at most the limit and less than 2^31 bytes that are written to a connection are
  read from the other end, one by one, in order and unchanged, however the sockets cut what is
  written and read into pieces, and nothing of what follows them is consumed.
\<close>

theorem messages_transmitted:
  assumes "list_all (\<lambda>p. length p \<le> limit \<and> length p < 2 ^ 31) ps"
    and "list_all takes ws" and "list_all is_data ins"
    and "\<And>out. write_many (\<lambda>p. WritePayload (Some p) limit) ps (NewConn [] ws) = (Ok (), out) \<Longrightarrow> stream ins = nc_out out @ rest"
  shows "\<exists>c. read_many (readPayload limit) (length ps) (NewConn ins []) = (Ok ps, c) \<and> stream (nc_in c) = rest"
proof -
  have fits: "list_all (fits_limit limit) ps" using assms(1) by (simp add: fits_limit_def [abs_def])
  have w: "write_ready (NewConn [] ws)" using assms(2) by (simp add: write_ready_def NewConn_def)
  have r: "conn_ready (NewConn ins [])" using assms(3) by (simp add: conn_ready_def NewConn_def)
  obtain out where out: "write_many (\<lambda>p. WritePayload (Some p) limit) ps (NewConn [] ws) = (Ok (), out)"
    "nc_out out = nc_out (NewConn [] ws) @ concat (map frame ps)"
    using conn.write_frames [OF w fits] by blast
  have "stream (nc_in (NewConn ins [])) = concat (map frame ps) @ rest"
    using assms(4) [OF out(1)] out(2) by (simp add: NewConn_def)
  from conn.read_frames [OF r this fits] show ?thesis by auto
qed

theorem messages_transmitted_witness:
  "\<exists>c. read_many (readPayload 5) 2 (NewConn [Data [1, 0], Data [], Data [0, 0, 7, 2], Data [0, 0, 0, 8, 9, 3]] []) = (Ok [[7], [8, 9]], c) \<and>
     stream (nc_in c) = [3]"
proof -
  have f: "frame [7] = [1, 0, 0, 0, 7]" "frame [8, 9] = [2, 0, 0, 0, 8, 9]"
    by (simp_all add: frame_def PutUint32_def putLE_def upt_conv_Cons)
  have "\<exists>out. write_many (\<lambda>p. WritePayload (Some p) 5) [[7], [8, 9]] (NewConn [] [Takes 3, Takes 0]) = (Ok (), out) \<and>
      nc_out out = frame [7] @ frame [8, 9]"
    using conn.write_frames [of "NewConn [] [Takes 3, Takes 0]" 5 "[[7], [8, 9]]"]
    by (simp add: write_ready_def NewConn_def fits_limit_def) blast
  then have out: "stream [Data [1, 0], Data [], Data [0, 0, 7, 2], Data [0, 0, 0, 8, 9, 3]] = nc_out out @ [3]"
    if "write_many (\<lambda>p. WritePayload (Some p) 5) [[7], [8, 9]] (NewConn [] [Takes 3, Takes 0]) = (Ok (), out)" for out
    using that f by auto
  have len: "length [[7 :: byte], [8, 9]] = 2" by simp
  have "\<exists>c. read_many (readPayload 5) (length [[7 :: byte], [8, 9]])
      (NewConn [Data [1, 0], Data [], Data [0, 0, 7, 2], Data [0, 0, 0, 8, 9, 3]] []) = (Ok [[7], [8, 9]], c) \<and> stream (nc_in c) = [3]"
    by (rule messages_transmitted [OF _ _ _ out]) simp_all
  then show ?thesis by (simp only: len)
qed

section \<open>Bounds\<close>




section \<open>The shared buffer\<close>

text \<open>The payload that is returned is a slice of the buffer that \<open>WritePayload\<close> puts its header
  into: a write before the payload is decoded replaces its first four bytes.\<close>

lemma payload_in_buffer:
  assumes "readPayload limit c = (Ok p, c')"
  shows "take (length p) (nc_buf c') = p"
proof -
  from assms obtain u buf ins where "read_body limit u buf ins c = (Ok p, c')"
    by (auto simp: readPayload_def split: if_splits option.splits outcome.splits prod.splits)
  then obtain n where "p = take n (nc_buf c')"
    by (auto simp: read_body_def split: if_splits option.splits outcome.splits prod.splits)
  then show ?thesis by (simp add: min_def)
qed

lemma write_overwrites_payload:
  assumes "readPayload limit c = (Ok p, c')" and "WritePayload (Some q) limit' c' = (Ok (), c'')" and "4 \<le> length p"
  shows "take (length p) (nc_buf c'') = PutUint32 (of_nat (length q)) @ drop 4 p"
proof -
  have "nc_buf c'' = PutUint32 (of_nat (length q)) @ drop 4 (nc_buf c')"
    using assms(2) by (auto simp: WritePayload_def Let_def split: if_splits option.splits outcome.splits prod.splits)
  moreover have "take (length p - 4) (drop 4 (nc_buf c')) = drop 4 p"
    by (subst payload_in_buffer [OF assms(1), symmetric]) (simp add: drop_take)
  ultimately show ?thesis using assms(3) by simp
qed

end
