(* ===== verification/Conns.thy ===== *)
theory Conns
  imports NetConn "HOL-Library.Multiset"
begin

text \<open>
  The connections a client keeps to the nodes of the network (\<open>internal/conns/cache.go\<close>,
  \<open>internal/conns/pool.go\<close>): requests get an identifier, wait for the answer that carries it, and are
  sent again under a new identifier when no answer came for three seconds. Dialling and signing the
  greeting are I/O: the new connection and the encoded greeting are arguments. Times are integers.
\<close>

section \<open>State\<close>

type_synonym AckID = "u64 \<times> u64"

record 'cb PendingAck =
  pa_nodeID :: u64
  pa_msg :: Message
  pa_sentAt :: int
  pa_timeout :: int
  pa_cb :: "'cb option"

text \<open>Callbacks are names; the calls are recorded with the arguments. The mutexes of \<open>cmu\<close> are only
  represented by their number.\<close>

record 'cb cache =
  ca_conns :: "(u64, Conn) gomap"
  ca_total :: nat
  ca_maxPayload :: nat
  ca_pendingAcks :: "(AckID, 'cb PendingAck) gomap"
  ca_called :: "('cb \<times> u64 \<times> Message) list"

definition addPendingAck :: "u64 \<Rightarrow> Message \<Rightarrow> int \<Rightarrow> u64 \<Rightarrow> 'cb option \<Rightarrow> int \<Rightarrow> 'cb cache \<Rightarrow> 'cb cache" where
  "addPendingAck node msg timeout rid cb now c =
     c\<lparr>ca_pendingAcks := mput (node, rid)
         \<lparr>pa_nodeID = node, pa_msg = msg, pa_sentAt = now, pa_timeout = timeout, pa_cb = cb\<rparr> (ca_pendingAcks c)\<rparr>"

definition processAckMessage :: "u64 \<Rightarrow> Message \<Rightarrow> 'cb cache \<Rightarrow> 'cb cache" where
  "processAckMessage node msg c =
     (case map_of (ca_pendingAcks c) (node, msg_ID msg) of
        None \<Rightarrow> c
      | Some m \<Rightarrow>
          c\<lparr>ca_called := ca_called c @ (case pa_cb m of None \<Rightarrow> [] | Some cb \<Rightarrow> [(cb, pa_nodeID m, msg)]),
            ca_pendingAcks := mdel (node, msg_ID msg) (ca_pendingAcks c)\<rparr>)"

text \<open>\<open>sendHello\<close> writes the greeting, whose encoding or signing may fail.\<close>

definition sendHello :: "bytes option \<Rightarrow> nat \<Rightarrow> Conn \<Rightarrow> (conn_err, unit) outcome \<times> Conn" where
  "sendHello hello maxPayload conn = WritePayload hello maxPayload conn"

definition ca_dial :: "(Conn \<times> bytes option) option \<Rightarrow> u64 \<Rightarrow> 'cb cache \<Rightarrow> Conn option \<times> 'cb cache" where
  "ca_dial dialled node c =
     (case map_of (ca_conns c) node of
        Some cc \<Rightarrow> (Some cc, c)
      | None \<Rightarrow>
          (case dialled of
             None \<Rightarrow> (None, c)
           | Some (conn, hello) \<Rightarrow>
               (case sendHello hello (ca_maxPayload c) conn of
                  (Ok _, conn') \<Rightarrow> (Some conn', c\<lparr>ca_conns := mput node conn' (ca_conns c)\<rparr>)
                | _ \<Rightarrow> (None, c))))"

definition ca_release :: "u64 \<Rightarrow> 'cb cache \<Rightarrow> 'cb cache" where
  "ca_release node c = c\<lparr>ca_conns := mdel node (ca_conns c)\<rparr>"

text \<open>One attempt of \<open>WriteRequest\<close>: \<open>Ok None\<close> when it failed and the method calls itself again.\<close>

definition write_attempt ::
    "(Message \<Rightarrow> bytes option) \<Rightarrow> (Conn \<times> bytes option) option \<Rightarrow> u64 \<Rightarrow> Message \<Rightarrow> u64 \<times> 'cb cache \<Rightarrow>
     (u64 option \<times> u64 \<times> 'cb cache) may_panic" where
  "write_attempt marshal dialled node msg st =
     (let (atomicid, c) = st in
      if ca_total c \<le> unat (node - 1) then Panic IndexOutOfRange
      else case ca_dial dialled node c of
        (None, c) \<Rightarrow> Ok (None, atomicid, ca_release node c)
      | (Some mc, c) \<Rightarrow>
          (case WriteRequest marshal msg (ca_maxPayload c) atomicid mc of
             (Ok rid, atomicid, mc) \<Rightarrow> Ok (Some rid, atomicid, c\<lparr>ca_conns := mput node mc (ca_conns c)\<rparr>)
           | (Err e, atomicid, mc) \<Rightarrow> Ok (None, atomicid, ca_release node c)
           | (Panic r, atomicid, mc) \<Rightarrow> Panic r))"

text \<open>The whole method, for the results of the calls of \<open>Dial\<close>; \<open>None\<close> when it still tries.\<close>

fun cache_WriteRequest ::
    "(Message \<Rightarrow> bytes option) \<Rightarrow> (Conn \<times> bytes option) option list \<Rightarrow> u64 \<Rightarrow> Message \<Rightarrow> int \<Rightarrow> bool \<Rightarrow> 'cb option \<Rightarrow> int \<Rightarrow>
     u64 \<times> 'cb cache \<Rightarrow> (u64 \<times> u64 \<times> 'cb cache) may_panic option" where
  "cache_WriteRequest marshal [] node msg timeout ack cb now st = None"
| "cache_WriteRequest marshal (d # ds) node msg timeout ack cb now st =
     (case write_attempt marshal d node msg st of
        Panic r \<Rightarrow> Some (Panic r)
      | Err e \<Rightarrow> Some (Err e)
      | Ok (None, st') \<Rightarrow> cache_WriteRequest marshal ds node msg timeout ack cb now st'
      | Ok (Some rid, atomicid, c) \<Rightarrow>
          Some (Ok (rid, atomicid, if ack then addPendingAck node (msg\<lparr>msg_ID := rid\<rparr>) timeout rid cb now c else c)))"

text \<open>The scan of \<open>retryRequests\<close>: what is three seconds old is taken out and sent again.\<close>

definition expired :: "int \<Rightarrow> 'cb PendingAck \<Rightarrow> bool" where
  "expired now v \<longleftrightarrow> now - pa_sentAt v \<ge> 3000000000"

definition retry_scan :: "int \<Rightarrow> 'cb cache \<Rightarrow> 'cb PendingAck list \<times> 'cb cache" where
  "retry_scan now c =
     (map snd (filter (\<lambda>(k, v). expired now v) (ca_pendingAcks c)),
      c\<lparr>ca_pendingAcks := filter (\<lambda>(k, v). \<not> expired now v) (ca_pendingAcks c)\<rparr>)"

text \<open>A turn of \<open>readAckMessage\<close>: what it reads, if anything, is handled by a goroutine of its own. An
  error is dropped, but reading has closed the connection.\<close>

definition readAck_turn :: "(bytes \<Rightarrow> Message option) \<Rightarrow> u64 \<Rightarrow> 'cb cache \<Rightarrow> Message option \<times> 'cb cache" where
  "readAck_turn unmarshal node c =
     (case map_of (ca_conns c) node of
        None \<Rightarrow> (None, c)
      | Some cc \<Rightarrow>
          let (r, cc') = read_pb unmarshal (ca_maxPayload c) cc in
          (ok_val r, c\<lparr>ca_conns := mput node cc' (ca_conns c)\<rparr>))"

definition NewCache :: "nat \<Rightarrow> nat \<Rightarrow> 'cb cache" where
  "NewCache totalNodes maxPayload =
     \<lparr>ca_conns = [], ca_total = totalNodes, ca_maxPayload = maxPayload, ca_pendingAcks = [], ca_called = []\<rparr>"

section \<open>Pool\<close>

record 'cb pool =
  po_i :: nat
  po_size :: nat
  po_conns :: "'cb cache list"

definition Borrow :: "'cb pool \<Rightarrow> (nat \<times> 'cb pool) may_panic" where
  "Borrow p =
     (if po_i p < length (po_conns p) then
        Ok (po_i p, p\<lparr>po_i := (if po_i p + 1 \<ge> po_size p then 0 else po_i p + 1)\<rparr>)
      else Panic IndexOutOfRange)"

definition MessageAckPending :: "'cb pool \<Rightarrow> nat" where
  "MessageAckPending p = fold (\<lambda>c cnt. cnt + length (ca_pendingAcks c)) (po_conns p) 0"

definition NewPool :: "nat \<Rightarrow> nat \<Rightarrow> nat \<Rightarrow> 'cb pool" where
  "NewPool n totalNodes maxPayload = \<lparr>po_i = 0, po_size = n, po_conns = replicate n (NewCache totalNodes maxPayload)\<rparr>"

fun borrows :: "nat \<Rightarrow> 'cb pool \<Rightarrow> (nat list \<times> 'cb pool) may_panic" where
  "borrows 0 p = Ok ([], p)"
| "borrows (Suc n) p = obind (Borrow p) (\<lambda>(i, p). omap (\<lambda>(js, p). (i # js, p)) (borrows n p))"

text \<open>Borrowing hands out the caches in turn.\<close>

lemma borrows_in_turn:
  assumes "po_size p = length (po_conns p)" "po_i p < po_size p"
  shows "\<exists>p'. borrows n p = Ok (map (\<lambda>k. (po_i p + k) mod po_size p) [0..<n], p')"
  using assms
proof (induction n arbitrary: p)
  case (Suc n)
  let ?j = "if po_i p + 1 \<ge> po_size p then 0 else po_i p + 1"
  have j: "?j = (po_i p + 1) mod po_size p"
  proof (cases "po_i p + 1 = po_size p")
    case False
    then show ?thesis using Suc.prems(2) by simp
  qed simp
  have "?j < po_size p" unfolding j using Suc.prems(2) by simp
  then obtain p' where "borrows n (p\<lparr>po_i := ?j\<rparr>) = Ok (map (\<lambda>k. (?j + k) mod po_size p) [0..<n], p')"
    using Suc.IH [of "p\<lparr>po_i := ?j\<rparr>"] Suc.prems(1) by auto
  moreover have "(?j + k) mod po_size p = (po_i p + Suc k) mod po_size p" for k
    unfolding j by (simp add: mod_add_left_eq)
  ultimately have "borrows (Suc n) p = Ok (po_i p # map (\<lambda>k. (po_i p + Suc k) mod po_size p) [0..<n], p')"
    using Suc.prems by (simp add: Borrow_def)
  moreover have "map (\<lambda>k. (po_i p + k) mod po_size p) [0..<Suc n] =
      po_i p # map (\<lambda>k. (po_i p + Suc k) mod po_size p) [0..<n]"
    using Suc.prems(2) by (simp add: upt_conv_Cons map_Suc_upt [symmetric] del: upt_Suc)
  ultimately show ?case by auto
qed simp

section \<open>Requests of concurrent callers\<close>

text \<open>
  The goroutines that use a cache: callers of \<open>WriteRequest\<close> with \<open>ack\<close>, the reader that handles an
  answer, and the goroutine that sends old requests again. A call is a sequence of attempts; after
  the successful one the request is on the wire under its identifier, but it waits for the answer
  only from the next step on, so that the answer may come too early. \<open>sy_todo\<close> are the calls between
  attempts, \<open>sy_registering\<close> those between the write and \<open>addPendingAck\<close>, \<open>sy_submitted\<close> records the calls
  of clients. The counter of identifiers is shared with all other connections of the process.
\<close>

record 'cb request =
  rq_nodeID :: u64
  rq_msg :: Message
  rq_timeout :: int
  rq_cb :: "'cb option"

definition redo_request :: "'cb PendingAck \<Rightarrow> 'cb request" where
  "redo_request v = \<lparr>rq_nodeID = pa_nodeID v, rq_msg = pa_msg v, rq_timeout = pa_timeout v, rq_cb = pa_cb v\<rparr>"

record 'cb conns_sys =
  sy_cache :: "'cb cache"
  sy_atomicid :: u64
  sy_todo :: "'cb request list"
  sy_registering :: "(u64 \<times> 'cb request) list"
  sy_submitted :: "'cb request list"

inductive conns_step :: "(Message \<Rightarrow> bytes option) \<Rightarrow> 'cb conns_sys \<Rightarrow> 'cb conns_sys \<Rightarrow> bool" for marshal where
  call: "conns_step marshal s (s\<lparr>sy_todo := sy_todo s @ [r], sy_submitted := sy_submitted s @ [r]\<rparr>)"
| attempt_fails:
    "r \<in> set (sy_todo s) \<Longrightarrow>
     write_attempt marshal dialled (rq_nodeID r) (rq_msg r) (sy_atomicid s, sy_cache s) = Ok (None, aid, c) \<Longrightarrow>
     conns_step marshal s (s\<lparr>sy_atomicid := aid, sy_cache := c\<rparr>)"
| sent:
    "r \<in> set (sy_todo s) \<Longrightarrow>
     write_attempt marshal dialled (rq_nodeID r) (rq_msg r) (sy_atomicid s, sy_cache s) = Ok (Some rid, aid, c) \<Longrightarrow>
     conns_step marshal s (s\<lparr>sy_atomicid := aid, sy_cache := c, sy_todo := remove1 r (sy_todo s),
       sy_registering := sy_registering s @ [(rid, r)]\<rparr>)"
| register:
    "(rid, r) \<in> set (sy_registering s) \<Longrightarrow>
     conns_step marshal s (s\<lparr>sy_registering := remove1 (rid, r) (sy_registering s),
       sy_cache := addPendingAck (rq_nodeID r) ((rq_msg r)\<lparr>msg_ID := rid\<rparr>) (rq_timeout r) rid (rq_cb r) now (sy_cache s)\<rparr>)"
| poll:
    "readAck_turn unmarshal node (sy_cache s) = (m, c) \<Longrightarrow> conns_step marshal s (s\<lparr>sy_cache := c\<rparr>)"
| answer: "conns_step marshal s (s\<lparr>sy_cache := processAckMessage node msg (sy_cache s)\<rparr>)"
| retry:
    "retry_scan now (sy_cache s) = (redolist, c) \<Longrightarrow>
     conns_step marshal s (s\<lparr>sy_cache := c, sy_todo := sy_todo s @ map redo_request redolist\<rparr>)"
| other_connection: "conns_step marshal s (s\<lparr>sy_atomicid := sy_atomicid s + 1\<rparr>)"

text \<open>Runs with their number of steps.\<close>

inductive conns_run :: "(Message \<Rightarrow> bytes option) \<Rightarrow> nat \<Rightarrow> 'cb conns_sys \<Rightarrow> bool" for marshal where
  start: "conns_run marshal 0 \<lparr>sy_cache = NewCache nodes maxPayload, sy_atomicid = 0, sy_todo = [], sy_registering = [], sy_submitted = []\<rparr>"
| step: "conns_run marshal n s \<Longrightarrow> conns_step marshal s s' \<Longrightarrow> conns_run marshal (Suc n) s'"

subsection \<open>Invariant\<close>

definition cb_bag :: "'cb option list \<Rightarrow> 'cb multiset" where
  "cb_bag cbs = mset (List.map_filter (\<lambda>x. x) cbs)"

lemma cb_bag_simps [simp]:
  "cb_bag [] = {#}" "cb_bag (xs @ ys) = cb_bag xs + cb_bag ys"
  "cb_bag (None # xs) = cb_bag xs" "cb_bag (Some cb # xs) = add_mset cb (cb_bag xs)"
  by (simp_all add: cb_bag_def map_filter_def)

lemma cb_bag_Cons: "cb_bag (x # xs) = cb_bag [x] + cb_bag xs"
  by (cases x) simp_all

lemma cb_bag_remove1:
  assumes "x \<in> set xs"
  shows "cb_bag (map f xs) = cb_bag [f x] + cb_bag (map f (remove1 x xs))"
  using assms
proof (induction xs)
  case (Cons y ys)
  show ?case
  proof (cases "y = x")
    case True
    then show ?thesis using cb_bag_Cons [of "f x" "map f ys"] by simp
  next
    case False
    then show ?thesis
      using Cons cb_bag_Cons [of "f y" "map f ys"] cb_bag_Cons [of "f y" "map f (remove1 x ys)"] by simp
  qed
qed simp

text \<open>The callbacks that still wait, in the places a request can be.\<close>

definition waiting :: "'cb conns_sys \<Rightarrow> 'cb multiset" where
  "waiting s = cb_bag (map rq_cb (sy_todo s)) + cb_bag (map (\<lambda>(rid, r). rq_cb r) (sy_registering s)) +
     cb_bag (map (\<lambda>(k, v). pa_cb v) (ca_pendingAcks (sy_cache s)))"

definition called :: "'cb conns_sys \<Rightarrow> 'cb multiset" where
  "called s = mset (map fst (ca_called (sy_cache s)))"

definition submitted :: "'cb conns_sys \<Rightarrow> 'cb multiset" where
  "submitted s = cb_bag (map rq_cb (sy_submitted s))"

definition ids_used :: "'cb conns_sys \<Rightarrow> u64 list" where
  "ids_used s = map (\<lambda>(k, v). snd k) (ca_pendingAcks (sy_cache s)) @ map fst (sy_registering s)"

definition conns_inv :: "nat \<Rightarrow> 'cb conns_sys \<Rightarrow> bool" where
  "conns_inv n s \<longleftrightarrow> unat (sy_atomicid s) \<le> n \<and> distinct (ids_used s) \<and> (\<forall>i \<in> set (ids_used s). i \<le> sy_atomicid s) \<and>
     mwf (ca_pendingAcks (sy_cache s)) \<and> waiting s + called s = submitted s"

lemma write_attempt_keeps:
  assumes "write_attempt marshal dialled node msg (a, c) = Ok (x, a', c')"
  shows "ca_pendingAcks c' = ca_pendingAcks c" "ca_called c' = ca_called c"
    "a' = a \<and> x = None \<or> a' = a + 1 \<and> (x = None \<or> x = Some a')"
proof -
  obtain mc c1 where d: "ca_dial dialled node c = (mc, c1)" by (cases "ca_dial dialled node c")
  then have c1: "ca_pendingAcks c1 = ca_pendingAcks c" "ca_called c1 = ca_called c"
    by (auto simp: ca_dial_def split: option.splits prod.splits outcome.splits)
  have "ca_pendingAcks c' = ca_pendingAcks c1 \<and> ca_called c' = ca_called c1 \<and>
      (a' = a \<and> x = None \<or> a' = a + 1 \<and> (x = None \<or> x = Some a'))"
  proof (cases mc)
    case None
    then show ?thesis using assms d by (auto simp: write_attempt_def ca_release_def split: if_splits)
  next
    case (Some m)
    obtain r c2 where w: "WritePayload (marshal (msg\<lparr>msg_ID := a + 1\<rparr>)) (ca_maxPayload c1) (m\<lparr>nc_lastID := nc_lastID m + 1\<rparr>) = (r, c2)"
      by (cases "WritePayload (marshal (msg\<lparr>msg_ID := a + 1\<rparr>)) (ca_maxPayload c1) (m\<lparr>nc_lastID := nc_lastID m + 1\<rparr>)")
    show ?thesis
      using assms d Some w
      by (cases r) (auto simp: write_attempt_def WriteRequest_def ca_release_def Let_def split: if_splits)
  qed
  then show "ca_pendingAcks c' = ca_pendingAcks c" "ca_called c' = ca_called c"
    "a' = a \<and> x = None \<or> a' = a + 1 \<and> (x = None \<or> x = Some a')" using c1 by auto
qed

lemma mput_new: "k \<notin> fst ` set m \<Longrightarrow> mput k v m = m @ [(k, v)]"
  by (induction m) auto

lemma mdel_remove1:
  assumes "mwf m" "map_of m k = Some v"
  shows "(k, v) \<in> set m" "mdel k m = remove1 (k, v) m"
proof -
  show "(k, v) \<in> set m" using assms(2) by (rule map_of_SomeD)
  show "mdel k m = remove1 (k, v) m"
    using assms
  proof (induction m)
    case (Cons e m)
    show ?case
    proof (cases "fst e = k")
      case True
      then have "k \<notin> fst ` set m" using Cons.prems(1) by auto
      then show ?thesis using True Cons.prems(2) by (cases e) (simp add: mdel_notin)
    qed (use Cons in \<open>cases e; auto\<close>)
  qed simp
qed

lemma cb_bag_partition: "cb_bag (map f xs) = cb_bag (map f (filter P xs)) + cb_bag (map f (filter (\<lambda>x. \<not> P x) xs))"
proof (induction xs)
  case (Cons x xs)
  then show ?case
    using cb_bag_Cons [of "f x" "map f xs"] cb_bag_Cons [of "f x" "map f (filter P xs)"]
      cb_bag_Cons [of "f x" "map f (filter (\<lambda>x. \<not> P x) xs)"]
    by (simp add: ac_simps)
qed simp

lemma distinct_sub_bag:
  assumes "mset xs \<subseteq># mset ys" "distinct ys"
  shows "distinct xs" "set xs \<subseteq> set ys"
proof -
  obtain zs where "mset ys = mset (xs @ zs)"
    using assms(1) by (metis ex_mset mset_append mset_subset_eq_exists_conv)
  then show "distinct xs" using assms(2) mset_eq_imp_distinct_iff by fastforce
  show "set xs \<subseteq> set ys" using assms(1) by (rule set_mset_mono [of "mset xs" "mset ys", simplified])
qed

lemma conns_invD:
  assumes "conns_inv n s"
  shows "unat (sy_atomicid s) \<le> n" "distinct (ids_used s)" "\<And>i. i \<in> set (ids_used s) \<Longrightarrow> i \<le> sy_atomicid s"
    "mwf (ca_pendingAcks (sy_cache s))" "waiting s + called s = submitted s"
  using assms unfolding conns_inv_def by blast+

text \<open>Steps that use no new identifier keep what the invariant says of identifiers.\<close>

lemma conns_inv_ids:
  assumes "conns_inv n s" "mset (ids_used s') \<subseteq># mset (ids_used s)"
    and "sy_atomicid s \<le> sy_atomicid s'" "unat (sy_atomicid s') \<le> Suc n"
    and "mwf (ca_pendingAcks (sy_cache s'))" "waiting s' + called s' = submitted s'"
  shows "conns_inv (Suc n) s'"
proof -
  note d = distinct_sub_bag [OF assms(2) conns_invD(2) [OF assms(1)]]
  have "i \<le> sy_atomicid s'" if "i \<in> set (ids_used s')" for i
    using conns_invD(3) [OF assms(1)] d(2) that assms(3) by (meson order_trans subsetD)
  then show ?thesis using d(1) assms(4-6) unfolding conns_inv_def by blast
qed

text \<open>The effect of a step on the bags of callbacks.\<close>

lemma inv_call:
  assumes "conns_inv n s"
  shows "conns_inv (Suc n) (s\<lparr>sy_todo := sy_todo s @ [r], sy_submitted := sy_submitted s @ [r]\<rparr>)" (is "conns_inv _ ?s")
proof (rule conns_inv_ids [OF assms])
  have "waiting ?s = waiting s + cb_bag [rq_cb r]" "called ?s = called s" "submitted ?s = submitted s + cb_bag [rq_cb r]"
    by (simp_all add: waiting_def called_def submitted_def)
  then show "waiting ?s + called ?s = submitted ?s" using conns_invD(5) [OF assms] by (simp add: ac_simps)
qed (use conns_invD [OF assms] in \<open>simp_all add: ids_used_def\<close>)

lemma inv_counter:
  assumes "conns_inv n s" "Suc n < 2 ^ 64" "a = sy_atomicid s \<or> a = sy_atomicid s + 1"
  shows "unat a \<le> Suc n" "sy_atomicid s \<le> a" "a = sy_atomicid s + 1 \<Longrightarrow> sy_atomicid s < a"
proof -
  have n: "unat (sy_atomicid s) \<le> n" by (rule conns_invD(1) [OF assms(1)])
  then have "unat (sy_atomicid s + 1) = unat (sy_atomicid s) + 1"
    using assms(2) by (simp add: unat_word_ariths)
  then show "unat a \<le> Suc n" "sy_atomicid s \<le> a" "a = sy_atomicid s + 1 \<Longrightarrow> sy_atomicid s < a"
    using n assms(3) by (auto simp: word_le_nat_alt word_less_nat_alt)
qed

lemma inv_attempt_fails:
  assumes "conns_inv n s" "Suc n < 2 ^ 64"
    "write_attempt marshal dialled node msg (sy_atomicid s, sy_cache s) = Ok (None, aid, c)"
  shows "conns_inv (Suc n) (s\<lparr>sy_atomicid := aid, sy_cache := c\<rparr>)" (is "conns_inv _ ?s")
proof -
  note k = write_attempt_keeps [OF assms(3)]
  have "aid = sy_atomicid s \<or> aid = sy_atomicid s + 1" using k(3) by blast
  note a = inv_counter(1,2) [OF assms(1,2) this]
  have "ids_used ?s = ids_used s" "waiting ?s = waiting s" "called ?s = called s" "submitted ?s = submitted s"
    using k(1,2) by (simp_all add: ids_used_def waiting_def called_def submitted_def)
  then show ?thesis
    using conns_invD(4,5) [OF assms(1)] a k(1) by (intro conns_inv_ids [OF assms(1)]) simp_all
qed

lemma inv_sent:
  assumes "conns_inv n s" "Suc n < 2 ^ 64" "r \<in> set (sy_todo s)"
    "write_attempt marshal dialled node msg (sy_atomicid s, sy_cache s) = Ok (Some rid, aid, c)"
  shows "conns_inv (Suc n) (s\<lparr>sy_atomicid := aid, sy_cache := c, sy_todo := remove1 r (sy_todo s),
    sy_registering := sy_registering s @ [(rid, r)]\<rparr>)" (is "conns_inv _ ?s")
proof -
  note k = write_attempt_keeps [OF assms(4)]
  have rid: "aid = sy_atomicid s + 1" "rid = aid" using k(3) by auto
  then have a: "unat aid \<le> Suc n" "sy_atomicid s < aid" using inv_counter [OF assms(1,2)] by auto
  have used: "i < aid" if "i \<in> set (ids_used s)" for i
    using conns_invD(3) [OF assms(1) that] a(2) by (rule order_le_less_trans)
  have ids: "ids_used ?s = ids_used s @ [aid]" using k(1) rid(2) by (simp add: ids_used_def)
  have "waiting s = waiting ?s"
    using k(1) cb_bag_remove1 [OF assms(3), of rq_cb] by (simp add: waiting_def ac_simps)
  moreover have "called ?s = called s" "submitted ?s = submitted s" using k(2) by (simp_all add: called_def submitted_def)
  ultimately have "waiting ?s + called ?s = submitted ?s" using conns_invD(5) [OF assms(1)] by simp
  moreover have "distinct (ids_used ?s)" unfolding ids using used conns_invD(2) [OF assms(1)] by auto
  moreover have "i \<le> aid" if "i \<in> set (ids_used ?s)" for i using that used unfolding ids by (auto simp: less_imp_le)
  ultimately show ?thesis
    using a(1) k(1) conns_invD(4) [OF assms(1)] by (simp add: conns_inv_def)
qed

lemma inv_register:
  assumes "conns_inv n s" "(rid, r) \<in> set (sy_registering s)"
  shows "conns_inv (Suc n) (s\<lparr>sy_registering := remove1 (rid, r) (sy_registering s),
    sy_cache := addPendingAck (rq_nodeID r) ((rq_msg r)\<lparr>msg_ID := rid\<rparr>) (rq_timeout r) rid (rq_cb r) now (sy_cache s)\<rparr>)" (is "conns_inv _ ?s")
proof -
  let ?p = "ca_pendingAcks (sy_cache s)" and ?g = "sy_registering s"
  let ?v = "\<lparr>pa_nodeID = rq_nodeID r, pa_msg = (rq_msg r)\<lparr>msg_ID := rid\<rparr>, pa_sentAt = now, pa_timeout = rq_timeout r, pa_cb = rq_cb r\<rparr>"
  have "rid \<in> fst ` set ?g" using assms(2) by force
  then have new: "(rq_nodeID r, rid) \<notin> fst ` set ?p"
    using conns_invD(2) [OF assms(1)] by (force simp: ids_used_def)
  have p: "ca_pendingAcks (sy_cache ?s) = ?p @ [((rq_nodeID r, rid), ?v)]"
    using mput_new [OF new] by (simp add: addPendingAck_def)
  have "mset ?g = add_mset (rid, r) (mset (remove1 (rid, r) ?g))" using assms(2) by simp
  then have g: "mset (map fst ?g) = add_mset rid (mset (map fst (remove1 (rid, r) ?g)))"
    by (metis fst_conv image_mset_add_mset mset_map)
  have "mset (ids_used ?s) = mset (ids_used s)" using p g by (simp add: ids_used_def)
  moreover have "waiting s = waiting ?s"
    using cb_bag_remove1 [OF assms(2), of "\<lambda>(rid, r). rq_cb r"] p by (simp add: waiting_def ac_simps)
  moreover have "called ?s = called s" "submitted ?s = submitted s"
    by (simp_all add: called_def submitted_def addPendingAck_def)
  moreover have "mwf (ca_pendingAcks (sy_cache ?s))"
    using conns_invD(4) [OF assms(1)] by (simp add: addPendingAck_def)
  ultimately show ?thesis
    using conns_invD(1,5) [OF assms(1)] by (intro conns_inv_ids [OF assms(1)]) simp_all
qed

lemma inv_poll:
  assumes "conns_inv n s" "readAck_turn unmarshal node (sy_cache s) = (m, c)"
  shows "conns_inv (Suc n) (s\<lparr>sy_cache := c\<rparr>)" (is "conns_inv _ ?s")
proof -
  have c: "ca_pendingAcks c = ca_pendingAcks (sy_cache s)" "ca_called c = ca_called (sy_cache s)"
    using assms(2) by (auto simp: readAck_turn_def Let_def split: option.splits prod.splits)
  then have "ids_used ?s = ids_used s" "waiting ?s = waiting s" "called ?s = called s" "submitted ?s = submitted s"
    by (simp_all add: ids_used_def waiting_def called_def submitted_def)
  then show ?thesis
    using conns_invD(1,4,5) [OF assms(1)] c(1) by (intro conns_inv_ids [OF assms(1)]) simp_all
qed

text \<open>The reader polls with a timeout of a second; when no answer comes in that time the connection
  is closed, so that the next request fails once and dials again.\<close>

lemma idle_poll_closes:
  assumes "map_of (ca_conns c) node = Some cc" "\<not> nc_closed cc" "nc_in cc = ReadErr Timeout # ins"
  shows "\<exists>c' cc'. readAck_turn unmarshal node c = (None, c') \<and> map_of (ca_conns c') node = Some cc' \<and> nc_closed cc'"
proof -
  have "read_loop 4 4 (nc_buf cc) (nc_in cc) = (Some Timeout, nc_buf cc, ins)"
    unfolding assms(3) by (subst read_loop.simps) simp
  then have "readPayload (ca_maxPayload c) cc = (Err (IOErr Timeout), close_conn (cc\<lparr>nc_in := ins\<rparr>))"
    using assms(2) by (simp add: readPayload_def)
  then show ?thesis
    using assms(1) by (simp add: readAck_turn_def read_pb_def gomap_simps close_conn_def)
qed

lemma inv_answer:
  assumes "conns_inv n s"
  shows "conns_inv (Suc n) (s\<lparr>sy_cache := processAckMessage node msg (sy_cache s)\<rparr>)" (is "conns_inv _ ?s")
proof (cases "map_of (ca_pendingAcks (sy_cache s)) (node, msg_ID msg)")
  case None
  then have "?s = s" by (simp add: processAckMessage_def)
  then show ?thesis using conns_inv_ids [OF assms, of s] conns_invD [OF assms] by simp
next
  case (Some m)
  let ?p = "ca_pendingAcks (sy_cache s)" and ?k = "(node, msg_ID msg)"
  note d = mdel_remove1 [OF conns_invD(4) [OF assms] Some]
  have p: "ca_pendingAcks (sy_cache ?s) = remove1 (?k, m) ?p" using Some d(2) by (simp add: processAckMessage_def)
  have "mset (ids_used ?s) \<subseteq># mset (ids_used s)"
    using p by (simp add: ids_used_def processAckMessage_def Some image_mset_subseteq_mono)
  moreover have "waiting s + called s = waiting ?s + called ?s"
    using cb_bag_remove1 [OF d(1), of "\<lambda>(k, v). pa_cb v"] p Some
    by (cases "pa_cb m") (simp_all add: waiting_def called_def processAckMessage_def ac_simps)
  moreover have "submitted ?s = submitted s" by (simp add: submitted_def)
  moreover have "mwf (ca_pendingAcks (sy_cache ?s))"
    using conns_invD(4) [OF assms] Some by (simp add: processAckMessage_def)
  ultimately show ?thesis using conns_invD(1,5) [OF assms] by (intro conns_inv_ids [OF assms]) simp_all
qed

lemma inv_retry:
  assumes "conns_inv n s" "retry_scan now (sy_cache s) = (redolist, c)"
  shows "conns_inv (Suc n) (s\<lparr>sy_cache := c, sy_todo := sy_todo s @ map redo_request redolist\<rparr>)" (is "conns_inv _ ?s")
proof -
  let ?p = "ca_pendingAcks (sy_cache s)" and ?old = "\<lambda>(k, v). expired now v"
  have redo: "redolist = map snd (filter ?old ?p)" and p: "ca_pendingAcks (sy_cache ?s) = filter (\<lambda>e. \<not> ?old e) ?p"
    and c: "ca_called c = ca_called (sy_cache s)"
    using assms(2) by (auto simp: retry_scan_def case_prod_unfold)
  have "mset (ids_used ?s) \<subseteq># mset (ids_used s)"
    using p by (simp add: ids_used_def image_mset_subseteq_mono)
  moreover have "map rq_cb (map redo_request redolist) = map (\<lambda>(k, v). pa_cb v) (filter ?old ?p)"
    by (simp add: redo redo_request_def case_prod_unfold)
  then have "waiting ?s = waiting s"
    using cb_bag_partition [of "\<lambda>(k, v). pa_cb v" ?p ?old] p by (simp add: waiting_def ac_simps)
  moreover have "called ?s = called s" "submitted ?s = submitted s" using c by (simp_all add: called_def submitted_def)
  moreover have "mwf (ca_pendingAcks (sy_cache ?s))"
    using conns_invD(4) [OF assms(1)] unfolding p by (rule distinct_map_filter)
  ultimately show ?thesis using conns_invD(1,5) [OF assms(1)] by (intro conns_inv_ids [OF assms(1)]) simp_all
qed

lemma conns_run_inv:
  assumes "conns_run marshal n s" "n < 2 ^ 64"
  shows "conns_inv n s"
  using assms
proof (induction rule: conns_run.induct)
  case (start nodes maxPayload)
  then show ?case
    by (simp add: conns_inv_def ids_used_def waiting_def called_def submitted_def NewCache_def)
next
  case (step n s s')
  then have inv: "conns_inv n s" and n: "Suc n < 2 ^ 64" by simp_all
  from step(2) show ?case
  proof cases
    case other_connection
    have "ids_used s' = ids_used s" "waiting s' = waiting s" "called s' = called s" "submitted s' = submitted s"
      by (simp_all add: other_connection ids_used_def waiting_def called_def submitted_def)
    then show ?thesis
      using inv_counter(1,2) [OF inv n, of "sy_atomicid s'"] conns_invD(4,5) [OF inv]
      by (intro conns_inv_ids [OF inv]) (simp_all add: other_connection)
  qed (use inv n in \<open>auto intro: inv_call inv_attempt_fails inv_sent inv_register inv_poll inv_answer inv_retry\<close>)
qed

text \<open>
  \<^bold>\<open>C13\<close>. Whatever attempts fail, answers come late, twice or unasked, and requests are sent again, in
  any interleaving of the callers, the reader and the retries: the callbacks of the requests that
  clients made are exactly those that were called and those of requests that still wait, each as
  often as it was handed over. No callback is lost and none is called twice for a request.
\<close>

theorem callbacks_called_once:
  assumes "conns_run marshal n s" and "n < 2 ^ 64"
  shows "submitted s = called s + waiting s"
  using conns_invD(5) [OF conns_run_inv [OF assms]] by (simp add: ac_simps)

lemma first_attempt_succeeds:
  assumes "length (the (marshal (msg\<lparr>msg_ID := 1\<rparr>))) \<le> 10" "marshal (msg\<lparr>msg_ID := 1\<rparr>) \<noteq> None"
  shows "\<exists>c. write_attempt marshal (Some (NewConn [] [], Some [])) 1 msg (0, NewCache 1 10) = Ok (Some 1, 1, c)"
proof -
  obtain b where b: "marshal (msg\<lparr>msg_ID := 1\<rparr>) = Some b" "length b \<le> 10" using assms by auto
  have "write_ready (NewConn [] [])" by (simp add: write_ready_def NewConn_def)
  then obtain c1 where c1: "WritePayload (Some []) 10 (NewConn [] []) = (Ok (), c1)" "write_ready c1"
    using WritePayload_frame [of "NewConn [] []" "[]" 10] by auto
  then have "write_ready (c1\<lparr>nc_lastID := nc_lastID c1 + 1\<rparr>)" by (simp add: write_ready_def)
  then obtain c2 where "WritePayload (Some b) 10 (c1\<lparr>nc_lastID := nc_lastID c1 + 1\<rparr>) = (Ok (), c2)"
    using WritePayload_frame b(2) by blast
  then show ?thesis
    using c1(1) b(1) by (simp add: write_attempt_def ca_dial_def sendHello_def NewCache_def WriteRequest_def Let_def)
qed

theorem callbacks_called_once_witness:
  "\<exists>s :: nat conns_sys. conns_run (\<lambda>m. Some [7]) 4 s \<and> called s = {#5#} \<and> submitted s = called s + waiting s"
proof -
  let ?m = "\<lambda>m :: Message. Some [7 :: byte]"
  let ?msg = "\<lparr>msg_ID = 0, msg_Error = [], msg_Opcode = 1, msg_Payload = []\<rparr> :: Message"
  let ?r = "\<lparr>rq_nodeID = 1, rq_msg = ?msg, rq_timeout = 0, rq_cb = Some 5\<rparr> :: nat request"
  let ?s0 = "\<lparr>sy_cache = NewCache 1 10, sy_atomicid = 0, sy_todo = [], sy_registering = [], sy_submitted = []\<rparr> :: nat conns_sys"
  let ?s1 = "?s0\<lparr>sy_todo := sy_todo ?s0 @ [?r], sy_submitted := sy_submitted ?s0 @ [?r]\<rparr>"
  obtain c where c: "write_attempt ?m (Some (NewConn [] [], Some [])) 1 ?msg (0, NewCache 1 10 :: nat cache) = Ok (Some 1, 1, c)"
    using first_attempt_succeeds [of ?m ?msg] by auto
  note k = write_attempt_keeps(1,2) [OF c]
  let ?s2 = "?s1\<lparr>sy_atomicid := 1, sy_cache := c, sy_todo := remove1 ?r (sy_todo ?s1), sy_registering := sy_registering ?s1 @ [(1, ?r)]\<rparr>"
  let ?s3 = "?s2\<lparr>sy_registering := remove1 (1, ?r) (sy_registering ?s2),
    sy_cache := addPendingAck (rq_nodeID ?r) ((rq_msg ?r)\<lparr>msg_ID := 1\<rparr>) (rq_timeout ?r) 1 (rq_cb ?r) 0 (sy_cache ?s2)\<rparr>"
  let ?s4 = "?s3\<lparr>sy_cache := processAckMessage 1 (?msg\<lparr>msg_ID := 1\<rparr>) (sy_cache ?s3)\<rparr>"
  have "conns_run ?m 0 ?s0" by (rule start)
  then have "conns_run ?m (Suc 0) ?s1" by (rule step) (rule call)
  then have "conns_run ?m (Suc (Suc 0)) ?s2"
    by (rule step) (rule sent [where dialled = "Some (NewConn [] [], Some [])"], simp_all add: c [simplified])
  then have "conns_run ?m (Suc (Suc (Suc 0))) ?s3" by (rule step) (rule register, simp)
  then have run: "conns_run ?m (Suc (Suc (Suc (Suc 0)))) ?s4" by (rule step) (rule answer)
  have four: "Suc (Suc (Suc (Suc 0))) = 4" by simp
  have run4: "conns_run ?m 4 ?s4" using run unfolding four .
  have "called ?s4 = {#5#}"
    using k by (simp add: called_def processAckMessage_def addPendingAck_def NewCache_def)
  then show ?thesis using run4 callbacks_called_once [OF run4] by (intro exI [of _ ?s4]) simp
qed

end
