(* ===== verification/Pubsub.thy ===== *)
theory Pubsub
  imports NetConn Base64
begin

text \<open>
  The publisher of new objects: the server (\<open>pubsub/pubsub.go\<close>), the connections to subscribers
  (\<open>pubsub/internal/internal.go\<close>) and the fan-out to web sockets (\<open>pubsub/api/service.go\<close>).
  Sockets are as in the theory of connections; JSON encoding is a parameter. Listening and the
  announcement of the port are I/O.
\<close>

record Payload =
  pl_Labels :: "gostring list"
  pl_NodeID :: u64
  pl_ObjectID :: gostring
  pl_Success :: bool

section \<open>Connections\<close>

record ps_Conn =
  pc_buf :: bytes
  pc_in :: "read_event list"
  pc_writes :: "write_event list"
  pc_out :: bytes
  pc_closed :: bool

definition pc_close :: "ps_Conn \<Rightarrow> ps_Conn" where
  "pc_close c = c\<lparr>pc_closed := True\<rparr>"

datatype ps_err = PsIO io_err | JSONErr

text \<open>An error of the socket: a timeout or the end of the stream is no error, and the connection
  stays open; anything else closes it.\<close>

definition ps_soft :: "io_err \<Rightarrow> bool" where
  "ps_soft e = (e = Timeout \<or> e = EOF)"

definition ps_body :: "(bytes \<Rightarrow> Payload option) \<Rightarrow> u32 \<Rightarrow> bytes \<Rightarrow> ps_Conn \<Rightarrow> (ps_err, Payload option) outcome \<times> ps_Conn" where
  "ps_body json u buf c =
     (if sint u < 0 then (Panic IndexOutOfRange, c)
      else
        (case read_loop (nat (sint u)) (nat (sint u)) (grow_buf (nat (sint u)) buf) (pc_in c) of
           (Some e, buf, ins) \<Rightarrow>
             let c = c\<lparr>pc_buf := buf, pc_in := ins\<rparr> in
             if ps_soft e then (Ok None, c) else (Err (PsIO e), pc_close c)
         | (None, buf, ins) \<Rightarrow>
             let c = c\<lparr>pc_buf := buf, pc_in := ins\<rparr> in
             (case json (take (nat (sint u)) buf) of None \<Rightarrow> (Err JSONErr, c) | Some p \<Rightarrow> (Ok (Some p), c))))"

definition ps_Read :: "(bytes \<Rightarrow> Payload option) \<Rightarrow> ps_Conn \<Rightarrow> (ps_err, Payload option) outcome \<times> ps_Conn" where
  "ps_Read json c =
     (if pc_closed c then (Err (PsIO ConnFailed), pc_close c)
      else case read_loop 4 4 (pc_buf c) (pc_in c) of
        (Some e, buf, ins) \<Rightarrow>
          let c = c\<lparr>pc_buf := buf, pc_in := ins\<rparr> in
          if ps_soft e then (Ok None, c) else (Err (PsIO e), pc_close c)
      | (None, buf, ins) \<Rightarrow>
          let c = c\<lparr>pc_buf := buf, pc_in := ins\<rparr> in
          (case Uint32 buf of
             Ok u \<Rightarrow> ps_body json u buf c
           | Err e \<Rightarrow> (Err e, c)
           | Panic r \<Rightarrow> (Panic r, c)))"

definition ps_Write :: "bytes \<Rightarrow> ps_Conn \<Rightarrow> (ps_err, unit) outcome \<times> ps_Conn" where
  "ps_Write payload c =
     (if pc_closed c then (Err (PsIO ConnFailed), pc_close c)
      else case write_loop (PutUint32 (of_nat (length payload)) @ payload) (pc_writes c) (pc_out c) of
        (None, ws, out) \<Rightarrow> (Ok (), c\<lparr>pc_writes := ws, pc_out := out\<rparr>)
      | (Some e, ws, out) \<Rightarrow>
          let c = c\<lparr>pc_writes := ws, pc_out := out\<rparr> in
          if ps_soft e then (Ok (), c) else (Err (PsIO e), pc_close c))"

definition ps_NewConn :: "read_event list \<Rightarrow> write_event list \<Rightarrow> ps_Conn" where
  "ps_NewConn ins ws = \<lparr>pc_buf = replicate 1024 0, pc_in = ins, pc_writes = ws, pc_out = [], pc_closed = False\<rparr>"

section \<open>Server\<close>

text \<open>Notifiers are functions; what they were called with is recorded.\<close>

record 'n server =
  ps_nodeID :: u64
  ps_conns :: "(gostring, ps_Conn) gomap"
  ps_notifiers :: "'n list"
  ps_notified :: "('n \<times> Payload) list"

definition RegisterNotifier :: "'n \<Rightarrow> 'n server \<Rightarrow> 'n server" where
  "RegisterNotifier n s = s\<lparr>ps_notifiers := ps_notifiers s @ [n]\<rparr>"

definition ps_handleConnection :: "gostring \<Rightarrow> ps_Conn \<Rightarrow> 'n server \<Rightarrow> 'n server" where
  "ps_handleConnection addr conn s = s\<lparr>ps_conns := mput addr conn (ps_conns s)\<rparr>"

definition ps_Close :: "'n server \<Rightarrow> 'n server" where
  "ps_Close s = s\<lparr>ps_conns := map (\<lambda>(addr, c). (addr, pc_close c)) (ps_conns s)\<rparr>"

definition mk_payload :: "'n server \<Rightarrow> bytes \<Rightarrow> gostring list \<Rightarrow> bool \<Rightarrow> Payload" where
  "mk_payload s objectID labels success =
     \<lparr>pl_Labels = labels, pl_NodeID = ps_nodeID s, pl_ObjectID = EncodeToString objectID, pl_Success = success\<rparr>"

fun send_conns :: "bytes \<Rightarrow> (gostring, ps_Conn) gomap \<Rightarrow> (gostring, ps_Conn) gomap \<times> gostring list" where
  "send_conns b [] = ([], [])"
| "send_conns b ((addr, c) # conns) =
     (let (r, c') = ps_Write b c; (conns', badconns) = send_conns b conns in
      ((addr, c') # conns', if is_ok r then badconns else addr # badconns))"

definition Publish :: "(Payload \<Rightarrow> bytes) \<Rightarrow> bytes \<Rightarrow> gostring list \<Rightarrow> bool \<Rightarrow> 'n server \<Rightarrow> 'n server" where
  "Publish marshal objectID labels success s =
     (let payload = mk_payload s objectID labels success;
          (conns, badconns) = send_conns (marshal payload) (ps_conns s) in
      s\<lparr>ps_notified := ps_notified s @ map (\<lambda>n. (n, payload)) (ps_notifiers s),
        ps_conns := fold mdel badconns conns\<rparr>)"

section \<open>Web sockets\<close>

text \<open>A client has a channel of capacity 100 and a flag that it is gone. \<open>Callback\<close> waits, with the
  locks of the service and the channel held, when the channel is full.\<close>

record chanCloser =
  ch_C :: "Payload list"
  ch_close :: bool

fun Callback :: "Payload \<Rightarrow> (gostring, chanCloser) gomap \<Rightarrow> (gostring, chanCloser) gomap option" where
  "Callback p [] = Some []"
| "Callback p ((k, ch) # chans) =
     (if ch_close ch then Callback p chans
      else if length (ch_C ch) < 100 then map_option (\<lambda>cs. (k, ch\<lparr>ch_C := ch_C ch @ [p]\<rparr>) # cs) (Callback p chans)
      else None)"

definition addChan :: "gostring \<Rightarrow> (gostring, chanCloser) gomap \<Rightarrow> (gostring, chanCloser) gomap" where
  "addChan cltID chans = mput cltID \<lparr>ch_C = [], ch_close = False\<rparr> chans"

text \<open>One turn of the loop of \<open>Websocket\<close> that takes a payload: the message to write, and a write
  that fails marks the channel.\<close>

definition ws_turn :: "(Payload \<Rightarrow> bytes option) \<Rightarrow> bool \<Rightarrow> chanCloser \<Rightarrow> (bytes option \<times> chanCloser) option" where
  "ws_turn marshal write_ok ch =
     (case ch_C ch of
        [] \<Rightarrow> None
      | p # ps \<Rightarrow>
          (case marshal p of
             None \<Rightarrow> Some (None, ch\<lparr>ch_C := ps, ch_close := True\<rparr>)
           | Some msg \<Rightarrow> Some (Some msg, ch\<lparr>ch_C := ps, ch_close := \<not> write_ok \<or> ch_close ch\<rparr>)))"

section \<open>Laws\<close>

definition ps_ready :: "ps_Conn \<Rightarrow> bool" where
  "ps_ready c \<longleftrightarrow> \<not> pc_closed c \<and> 4 \<le> length (pc_buf c) \<and> list_all is_data (pc_in c)"

definition ps_wready :: "ps_Conn \<Rightarrow> bool" where
  "ps_wready c \<longleftrightarrow> \<not> pc_closed c \<and> list_all takes (pc_writes c)"

text \<open>A message that JSON carries over and whose length keeps the sign bit clear.\<close>

definition ps_fits :: "(Payload \<Rightarrow> bytes) \<Rightarrow> (bytes \<Rightarrow> Payload option) \<Rightarrow> Payload \<Rightarrow> bool" where
  "ps_fits marshal json p \<longleftrightarrow> json (marshal p) = Some p \<and> length (marshal p) < 2 ^ 31"

lemma ps_Read_frame:
  assumes "ps_ready c" "pc_in c = ins0" "stream ins0 = frame (marshal p) @ rest" "ps_fits marshal json p"
  shows "\<exists>c'. ps_Read json c = (Ok (Some p), c') \<and> ps_ready c' \<and> stream (pc_in c') = rest"
proof -
  let ?q = "marshal p"
  let ?h = "PutUint32 (of_nat (length ?q))"
  have q: "json ?q = Some p" "length ?q < 2 ^ 31" using assms(4) by (simp_all add: ps_fits_def)
  obtain ins where ins: "read_loop 4 4 (pc_buf c) (pc_in c) = (None, ?h @ drop 4 (pc_buf c), ins)"
    "list_all is_data ins" "stream ins = ?q @ rest"
    using read_loop_Ok [of "pc_in c" 4 4 "pc_buf c"] assms(1-3) by (auto simp: ps_ready_def frame_def)
  define buf where "buf = grow_buf (length ?q) (?h @ drop 4 (pc_buf c))"
  have len: "length ?q \<le> length buf" "4 \<le> length buf" using assms(1) by (auto simp: buf_def grow_buf_def ps_ready_def)
  obtain ins' where ins': "read_loop (length ?q) (length ?q) buf ins = (None, ?q @ drop (length ?q) buf, ins')"
    "list_all is_data ins'" "stream ins' = rest"
    using read_loop_Ok [of ins "length ?q" "length ?q" buf] ins(2,3) len by auto
  have u: "Uint32 (?h @ drop 4 (pc_buf c)) = (Ok (of_nat (length ?q)) :: (ps_err, u32) outcome)" by (simp add: le_simps)
  have "ps_Read json c = (Ok (Some p), c\<lparr>pc_buf := ?q @ drop (length ?q) buf, pc_in := ins'\<rparr>)"
    using assms(1) ins(1) ins'(1) q(1)
    by (simp add: ps_Read_def ps_body_def ps_ready_def u sint_of_size [OF q(2)] Let_def buf_def [symmetric])
  moreover have "ps_ready (c\<lparr>pc_buf := ?q @ drop (length ?q) buf, pc_in := ins'\<rparr>)"
    using assms(1) ins'(2) len by (simp add: ps_ready_def)
  ultimately show ?thesis using ins'(3) by auto
qed

lemma ps_Write_frame:
  assumes "ps_wready c"
  shows "\<exists>c'. ps_Write b c = (Ok (), c') \<and> ps_wready c' \<and> pc_out c' = pc_out c @ frame b"
proof -
  obtain ws where "write_loop (PutUint32 (of_nat (length b)) @ b) (pc_writes c) (pc_out c) = (None, ws, pc_out c @ frame b)" "list_all takes ws"
    using write_loop_Ok assms unfolding ps_wready_def frame_def by blast
  then show ?thesis using assms by (simp add: ps_Write_def ps_wready_def)
qed

interpretation subscriber: message_reader "ps_Read json" "\<lambda>c. stream (pc_in c)" ps_ready
  "\<lambda>m. case m of None \<Rightarrow> False | Some p \<Rightarrow> ps_fits marshal json p" "\<lambda>m. case m of None \<Rightarrow> [] | Some p \<Rightarrow> frame (marshal p)"
  by unfold_locales (auto intro: ps_Read_frame split: option.splits)

interpretation publisher: message_writer "\<lambda>p. ps_Write (marshal p)" pc_out ps_wready "\<lambda>p. True" "\<lambda>p. frame (marshal p)"
  by unfold_locales (rule ps_Write_frame)

section \<open>Publishing\<close>

lemma send_conns_keys: "map fst (fst (send_conns b conns)) = map fst conns"
  by (induction conns rule: send_conns.induct) (auto simp: Let_def split: prod.splits)

lemma send_conns_bad: "set (snd (send_conns b conns)) \<subseteq> fst ` set conns"
  by (induction conns) (auto simp: Let_def split: prod.splits if_splits)

lemma send_conns_good:
  assumes "mwf conns" "map_of conns addr = Some c" "ps_wready c"
  shows "\<exists>c'. map_of (fst (send_conns b conns)) addr = Some c' \<and> ps_wready c' \<and> pc_out c' = pc_out c @ frame b \<and>
    addr \<notin> set (snd (send_conns b conns))"
  using assms
proof (induction conns)
  case (Cons x conns)
  obtain a d where x: "x = (a, d)" by (cases x)
  obtain r d' where w: "ps_Write b d = (r, d')" by (cases "ps_Write b d")
  obtain cs bad where s: "send_conns b conns = (cs, bad)" by (cases "send_conns b conns")
  show ?case
  proof (cases "a = addr")
    case True
    then have "d = c" using Cons.prems(2) x by simp
    then obtain c' where "r = Ok ()" "d' = c'" "ps_wready c'" "pc_out c' = pc_out c @ frame b"
      using ps_Write_frame [OF Cons.prems(3), of b] w by auto
    moreover have "addr \<notin> set bad" using send_conns_bad [of b conns] s True Cons.prems(1) x by auto
    ultimately show ?thesis using True w s x by simp
  next
    case False
    then have "\<exists>c'. map_of cs addr = Some c' \<and> ps_wready c' \<and> pc_out c' = pc_out c @ frame b \<and> addr \<notin> set bad"
      using Cons s x by simp
    then show ?thesis using False w s x by auto
  qed
qed simp

lemma map_of_mdels: "map_of (fold mdel ks m) k = (if k \<in> set ks then None else map_of m k)"
  by (induction ks arbitrary: m) (auto simp: gomap_simps)

lemma mwf_mdels: "mwf m \<Longrightarrow> mwf (fold mdel ks m)"
  by (induction ks arbitrary: m) auto

lemma Publish_conns:
  assumes "mwf (ps_conns s)" "map_of (ps_conns s) addr = Some c" "ps_wready c"
  shows "mwf (ps_conns (Publish marshal obj labels success s)) \<and>
    (\<exists>c'. map_of (ps_conns (Publish marshal obj labels success s)) addr = Some c' \<and> ps_wready c' \<and>
       pc_out c' = pc_out c @ frame (marshal (mk_payload s obj labels success)))"
proof -
  let ?b = "marshal (mk_payload s obj labels success)"
  have eq: "ps_conns (Publish marshal obj labels success s) = fold mdel (snd (send_conns ?b (ps_conns s))) (fst (send_conns ?b (ps_conns s)))"
    by (simp add: Publish_def Let_def split: prod.splits)
  have "mwf (fst (send_conns ?b (ps_conns s)))" using assms(1) by (simp add: send_conns_keys)
  then show ?thesis
    using send_conns_good [OF assms, of ?b] unfolding eq map_of_mdels by (auto intro: mwf_mdels)
qed

lemma Publish_nodeID: "ps_nodeID (Publish marshal obj labels success s) = ps_nodeID s"
  by (simp add: Publish_def Let_def split: prod.splits)

text \<open>Objects published one after the other.\<close>

definition publish_all :: "(Payload \<Rightarrow> bytes) \<Rightarrow> (bytes \<times> gostring list \<times> bool) list \<Rightarrow> 'n server \<Rightarrow> 'n server" where
  "publish_all marshal objs s = fold (\<lambda>(obj, labels, success). Publish marshal obj labels success) objs s"

definition payloads :: "'n server \<Rightarrow> (bytes \<times> gostring list \<times> bool) list \<Rightarrow> Payload list" where
  "payloads s objs = map (\<lambda>(obj, labels, success). mk_payload s obj labels success) objs"

lemma publish_all_Cons:
  "publish_all marshal ((obj, labels, success) # objs) s = publish_all marshal objs (Publish marshal obj labels success s)"
  by (simp add: publish_all_def)

lemma payloads_Cons: "payloads s ((obj, labels, success) # objs) = mk_payload s obj labels success # payloads s objs"
  by (simp add: payloads_def)

lemma publish_all_conns:
  assumes "mwf (ps_conns s)" "map_of (ps_conns s) addr = Some c" "ps_wready c"
  shows "\<exists>c'. map_of (ps_conns (publish_all marshal objs s)) addr = Some c' \<and>
    pc_out c' = pc_out c @ concat (map (\<lambda>p. frame (marshal p)) (payloads s objs))"
  using assms
proof (induction objs arbitrary: s c)
  case (Cons o' objs)
  obtain obj labels success where o: "o' = (obj, labels, success)" by (rule prod_cases3)
  let ?s = "Publish marshal obj labels success s"
  obtain c1 where c1: "mwf (ps_conns ?s)" "map_of (ps_conns ?s) addr = Some c1" "ps_wready c1"
    "pc_out c1 = pc_out c @ frame (marshal (mk_payload s obj labels success))"
    using Publish_conns [OF Cons.prems] by blast
  have "payloads ?s objs = payloads s objs" by (simp add: payloads_def mk_payload_def Publish_nodeID)
  with Cons.IH [OF c1(1-3)] c1(4) show ?case by (simp add: publish_all_Cons payloads_Cons o)
qed (simp add: publish_all_def payloads_def)

text \<open>
  \<^bold>\<open>C27\<close>. A subscriber whose connection takes what is written reads the published objects, each with
  its identifier, labels, outcome and the publishing node, one by one and in the order of
  publication, whatever other connections fail meanwhile and however the stream is cut.
\<close>

theorem subscribers_receive:
  assumes "mwf (ps_conns s)" and "map_of (ps_conns s) addr = Some (ps_NewConn [] ws)" and "list_all takes ws"
    and "list_all (ps_fits marshal json) (payloads s objs)"
    and "list_all is_data ins"
    and "\<And>c. map_of (ps_conns (publish_all marshal objs s)) addr = Some c \<Longrightarrow> stream ins = pc_out c"
  shows "\<exists>c. read_many (ps_Read json) (length objs) (ps_NewConn ins []) = (Ok (map Some (payloads s objs)), c) \<and> stream (pc_in c) = []"
proof -
  have "ps_wready (ps_NewConn [] ws)" using assms(3) by (simp add: ps_wready_def ps_NewConn_def)
  then obtain c where "map_of (ps_conns (publish_all marshal objs s)) addr = Some c"
    "pc_out c = pc_out (ps_NewConn [] ws) @ concat (map (\<lambda>p. frame (marshal p)) (payloads s objs))"
    using publish_all_conns [OF assms(1,2)] by blast
  then have st: "stream ins = concat (map (\<lambda>p. frame (marshal p)) (payloads s objs))"
    using assms(6) by (simp add: ps_NewConn_def)
  have "ps_ready (ps_NewConn ins [])" using assms(5) by (simp add: ps_ready_def ps_NewConn_def)
  moreover have "stream (pc_in (ps_NewConn ins [])) =
      concat (map (\<lambda>m. case m of None \<Rightarrow> [] | Some p \<Rightarrow> frame (marshal p)) (map Some (payloads s objs))) @ []"
    using st by (simp add: ps_NewConn_def o_def)
  moreover have "list_all (\<lambda>m. case m of None \<Rightarrow> False | Some p \<Rightarrow> ps_fits marshal json p) (map Some (payloads s objs))"
    using assms(4) by (simp add: list.pred_map o_def)
  moreover have "length (map Some (payloads s objs)) = length objs" by (simp add: payloads_def)
  ultimately show ?thesis using subscriber.read_frames by metis
qed

text \<open>JSON with a single message, on a socket that takes a byte, then the rest.\<close>

theorem subscribers_receive_witness:
  "\<exists>c. read_many (ps_Read (\<lambda>b. Some \<lparr>pl_Labels = [[1]], pl_NodeID = 7, pl_ObjectID = EncodeToString [2], pl_Success = True\<rparr>)) 1
     (ps_NewConn [Data [1, 0, 0], Data [0, 5]] []) =
     (Ok [Some \<lparr>pl_Labels = [[1]], pl_NodeID = 7, pl_ObjectID = EncodeToString [2], pl_Success = True\<rparr>], c) \<and> stream (pc_in c) = []"
proof -
  let ?s = "\<lparr>ps_nodeID = 7, ps_conns = [([9], ps_NewConn [] [Takes 1]), ([8], pc_close (ps_NewConn [] []))], ps_notifiers = [], ps_notified = []\<rparr> :: unit server"
  let ?m = "\<lambda>p :: Payload. [5 :: byte]"
  let ?p = "\<lparr>pl_Labels = [[1]], pl_NodeID = 7, pl_ObjectID = EncodeToString [2], pl_Success = True\<rparr>"
  have f: "frame [5] = [1, 0, 0, 0, 5]" by (simp add: frame_def PutUint32_def putLE_def upt_conv_Cons)
  have ps: "payloads ?s [([2], [[1]], True)] = [?p]" by (simp add: payloads_def mk_payload_def)
  have w: "ps_wready (ps_NewConn [] [Takes 1])" by (simp add: ps_wready_def ps_NewConn_def)
  have out: "stream [Data [1, 0, 0], Data [0, 5]] = pc_out c"
    if "map_of (ps_conns (publish_all ?m [([2], [[1]], True)] ?s)) [9] = Some c" for c
    using that publish_all_conns [of ?s "[9]", OF _ _ w, of ?m "[([2], [[1]], True)]"] f unfolding ps
    by (auto simp: ps_NewConn_def)
  have "\<exists>c. read_many (ps_Read (\<lambda>b. Some ?p)) (length [([2 :: byte], [[1 :: byte]], True)]) (ps_NewConn [Data [1, 0, 0], Data [0, 5]] []) =
      (Ok (map Some (payloads ?s [([2], [[1]], True)])), c) \<and> stream (pc_in c) = []"
    by (rule subscribers_receive [where s = ?s and ws = "[Takes 1]" and addr = "[9]" and marshal = ?m, OF _ _ _ _ _ out])
      (simp_all only: ps, simp_all add: ps_fits_def)
  then show ?thesis unfolding ps by simp
qed

section \<open>What can go wrong\<close>

text \<open>A write that times out after a part of the frame is reported as done and leaves the rest of
  the frame out: the next frame starts in the middle of this one.\<close>

lemma partial_write_unreported:
  assumes "\<not> pc_closed c" "pc_writes c = Takes n # WriteErr Timeout # ws" "n < length b"
  shows "ps_Write b c = (Ok (), c\<lparr>pc_writes := ws, pc_out := pc_out c @ take n (frame b)\<rparr>)"
proof -
  have "length (frame b) = length b + 4" by (simp add: frame_def)
  then have f: "frame b \<noteq> []" "drop n (frame b) \<noteq> []" "min n (length (frame b)) = n" using assms(3) by auto
  have "write_loop (frame b) (pc_writes c) (pc_out c) = (Some Timeout, ws, pc_out c @ take n (frame b))"
    using f unfolding assms(2) by (subst write_loop.simps, subst write_loop.simps) simp
  then show ?thesis using assms(1) by (simp add: ps_Write_def ps_soft_def frame_def)
qed

text \<open>A header with the sign bit set crashes the subscriber.\<close>

lemma negative_size_panics:
  assumes "ps_ready c" "pc_in c = [Data [0, 0, 0, 128]]"
  shows "fst (ps_Read json c) = Panic IndexOutOfRange"
proof -
  obtain ins where "read_loop 4 4 (pc_buf c) (pc_in c) = (None, [0, 0, 0, 128] @ drop 4 (pc_buf c), ins)"
    using read_loop_Ok [of "pc_in c" 4 4 "pc_buf c"] assms by (auto simp: ps_ready_def)
  moreover have "Uint32 ([0, 0, 0, 128] @ drop 4 (pc_buf c)) = (Ok 2147483648 :: (ps_err, u32) outcome)"
    by (simp add: Uint32_def)
  moreover have "sint (2147483648 :: u32) < 0" by simp
  ultimately show ?thesis using assms(1) by (simp add: ps_Read_def ps_body_def ps_ready_def)
qed

text \<open>A client whose channel is full stops the callback for all clients.\<close>

lemma full_channel_blocks:
  assumes "(k, ch) \<in> set chans" "\<not> ch_close ch" "100 \<le> length (ch_C ch)"
  shows "Callback p chans = None"
  using assms
proof (induction p chans rule: Callback.induct)
  case (2 p k ch chans)
  then show ?case by (auto simp: not_less)
qed simp

text \<open>Otherwise every client that is not gone gets the payload, and the others are removed.\<close>

lemma callback_delivers:
  assumes "\<And>k ch. (k, ch) \<in> set chans \<Longrightarrow> ch_close ch \<or> length (ch_C ch) < 100"
  shows "Callback p chans = Some (map (\<lambda>(k, ch). (k, ch\<lparr>ch_C := ch_C ch @ [p]\<rparr>)) (filter (\<lambda>(k, ch). \<not> ch_close ch) chans))"
  using assms
proof (induction p chans rule: Callback.induct)
  case (2 p k ch chans)
  have rest: "ch_close ch' \<or> length (ch_C ch') < 100" if "(k', ch') \<in> set chans" for k' ch'
    using 2(3) [of k' ch'] that by simp
  show ?case
  proof (cases "ch_close ch")
    case False
    then have "length (ch_C ch) < 100" using 2(3) [of k ch] by simp
    from 2(2) [OF False this rest] show ?thesis using False \<open>length (ch_C ch) < 100\<close> by simp
  next
    case True
    from 2(1) [OF this rest] show ?thesis using True by simp
  qed
qed simp

end
