(* ===== verification/Spec2Isabelle.thy ===== *)
theory Spec2Isabelle
  imports Prelude Lexinum Bitset Blockmania BmState BmGraph BmDelivery BmProtocol BmSafety
    Badger ServiceMsg Kv SbacStore SbacIds SbacCommon SbacPhases SbacStates SbacEffects SbacRun
    SbacService SbacTurns SbacSystem SbacAgreement Topology BcCodec BcTx
    BcStore BcRefine BcQueries BcMissing BcDepgraph BcCausal BcCache BcService
    BcRun BcNode BcDemo BcChain
    Keys Base64 Checker NetConn Conns Pubsub
begin

text \<open>
  \<^bold>\<open>chainspace-go.\<close> A node of a sharded ledger. The nodes of a shard agree on an order of blocks
  (package \<open>blockmania\<close>) that they exchange and persist (package \<open>broadcast\<close>); the transactions in
  the delivered blocks drive one state machine per transaction (package \<open>sbac\<close>), which locks,
  consumes and creates objects in the object store after the shards that hold them have voted. The
  label store (\<open>kv\<close>) and the shard layout (\<open>network\<close>) serve them. Paths below are relative to \<open>src/\<close>.

  \<^bold>\<open>Conventions\<close> (\<open>Prelude\<close>). A Go call returns an \<open>outcome\<close>: \<open>Ok\<close>, the error it returns, or \<open>Panic\<close>
  with a reason; \<open>log.Fatal\<close> is a panic. Integers keep their width as words, except the \<open>int\<close>s that
  count or index what is in memory, which are naturals. A Go map is an association list with
  distinct keys (\<open>mwf\<close>); iteration takes the order of the list, and the theorems hold for every
  list. Slices have no spare capacity. Structs are records, state is passed explicitly, a channel is a queue. Hashes,
  signatures, protobuf encoders and the transaction checkers are parameters; what is needed of them
  is a hypothesis of the theorem that needs it.

  \<^bold>\<open>Consensus.\<close> \<open>Lexinum\<close> (\<open>internal/lexinum\<close>) is the integer encoding of the database keys:
  round trip, order and freedom of separators, as the locale \<open>order_codec\<close>. \<open>Bitset\<close>
  (\<open>blockmania/bitset.go\<close>) are the vote counters, refining finite sets (locale \<open>vote_set\<close>, one
  interpretation for prepares and one for commits). \<open>Blockmania\<close> has the types of blocks and
  messages, \<open>BmState\<close> (\<open>state.go\<close>) the state a block leaves behind and its copying, \<open>BmGraph\<close>
  (\<open>graph.go\<close>) the interpreter: one definition per message handler, the batch loop, the delivery of
  rounds, \<open>Graph.run\<close>, \<open>Add\<close> and \<open>New\<close>. \<open>BmDelivery\<close> shows that rounds are reported in order,
  decisions unchanged and reports well formed; its locales \<open>interp_rel\<close> and \<open>graph_rel\<close> lift a
  relation kept by every handler to whole runs. \<open>BmProtocol\<close> shows that states only advance and that
  every decision has its quorums, and bounds the replies; \<open>BmSafety\<close> that no run fails a type assertion.

  \<^bold>\<open>Broadcast.\<close> \<open>BcCodec\<close> are the keys and encodings of \<open>broadcast/store.go\<close>, \<open>BcTx\<close> the transaction
  buffer of the next block, the iterator and the order of transactions (\<open>broadcast/ext.go\<close>,
  \<open>AddTransaction\<close>). \<open>BcStore\<close> has the operations of the store on the database, \<open>BcRefine\<close> an abstract
  store of blocks and graphs that they refine (locale \<open>op_simulation\<close>); \<open>BcQueries\<close> and \<open>BcMissing\<close>
  show what the queries and the search for missing rounds return. \<open>BcDepgraph\<close> (\<open>depgraph.go\<close>) holds
  blocks back until what they refer to is included; \<open>BcCausal\<close> shows that its queue ends and that the
  order is causal. \<open>BcCache\<close> is \<open>cache.go\<close>. \<open>BcService\<close> (\<open>broadcast.go\<close>, \<open>replay.go\<close>) has the checks of
  received blocks, the production of own blocks, the handlers and the recovery after a restart;
  \<open>BcRun\<close> runs it step by step with crashes and restarts, \<open>BcNode\<close> has the invariant of these runs,
  \<open>BcDemo\<close> a concrete run and \<open>BcChain\<close> the properties: blocks are included causally, own blocks form a
  chain that peers accept, received blocks are not lost.

  \<^bold>\<open>Objects and transactions.\<close> \<open>Badger\<close> is the contract of the key-value database. \<open>SbacStore\<close>
  (\<open>sbac/store.go\<close>) has every store operation, an abstract object store (locale \<open>object_store\<close>)
  and the theorems on locking, atomic commits and double spending over arbitrary histories. \<open>Kv\<close>
  (\<open>kv/kv.go\<close>) is the label store, \<open>SbacIds\<close> (\<open>sbac/identifiers.go\<close>) the identifiers,
  \<open>Topology\<close> (\<open>network/network.go\<close>) the shard layout. \<open>SbacCommon\<close> (\<open>common.go\<close>), \<open>SbacPhases\<close>
  (\<open>events.go\<close>, \<open>consensus_sm.go\<close>, \<open>sbac_sm.go\<close>) and \<open>SbacStates\<close> (\<open>states.go\<close>,
  \<open>state_machine.go\<close>) are the machine of a transaction: its voting phases, the actions and
  transitions of each state, and the loops that drive it. \<open>SbacEffects\<close> and \<open>SbacRun\<close> follow
  what a machine does to the store, from a submitted event to rest. \<open>SbacService\<close> (\<open>sbac.go\<close>,
  \<open>pending_events.go\<close>, \<open>state_machine_scheduler.go\<close>) is the service with its queue, scheduler and
  message handlers; \<open>SbacTurns\<close> relates the loops to their turns, \<open>SbacSystem\<close> interleaves the turns of
  all machines, the handlers and the deliveries, and \<open>SbacAgreement\<close> shows over these runs that an
  object is consumed only after all involved shards accepted, and only once.

  \<^bold>\<open>Checks, connections and publication.\<close> \<open>Keys\<close> (\<open>internal/crypto/signature\<close>) are keys and their
  serialised forms, \<open>Base64\<close> is the encoding of the standard library with its round trip. \<open>Checker\<close>
  (package \<open>checker\<close>) type checks a transaction, runs the contract checkers and signs; its theorems
  say exactly which transactions it accepts, and what its signatures do and do not show to the
  consensus of \<open>SbacPhases\<close>. \<open>NetConn\<close> (\<open>network/conn.go\<close>) is the framing of messages over sockets that
  cut the stream anywhere; its locales \<open>message_reader\<close>, \<open>message_writer\<close> and \<open>channel\<close> carry one frame
  to sequences of frames, and are interpreted for the connections of nodes and of subscribers.
  \<open>Conns\<close> (\<open>internal/conns\<close>) interleaves the callers, the reader and the retries of a connection cache
  and shows by a multiset invariant that callbacks are called once. \<open>Pubsub\<close> (package \<open>pubsub\<close>)
  publishes objects to subscribers and web sockets.

  \<^bold>\<open>Termination.\<close> All recursive definitions are total except loops of the source that need not end,
  which are \<open>partial_function\<close>s into \<open>option\<close>: \<open>moveState\<close>, for which \<open>moveState_returns\<close> says when it
  returns and \<open>moveState_livelock\<close> when it does not; \<open>release\<close> of the dependency graph, which returns in
  every reachable state (\<open>received_blocks_tracked\<close>); \<open>nodes_loop\<close>, which returns on valid shards
  (\<open>shards_partition_nodes\<close>); and the batches of \<open>replay_rounds\<close> and \<open>graph_batches\<close>. The loops on sockets
  end because every turn uses up a byte or an event of the socket. A request that is never sent is
  \<open>None\<close> after the listed attempts. There is no fuel.

  \<^bold>\<open>Not modelled.\<close> The sockets themselves, TLS and dialling, sleeping and the retry loops of
  \<open>broadcast.go\<close> around them, the HTTP layer with its JSON conversion and generated documentation
  (\<open>rest\<close>, \<open>*/api\<close> except the web sockets), the clients that send one request to many nodes,
  command-line tools and examples, configuration files, process start-up (\<open>node\<close>), logging,
  docker-run contracts, the curve, generated protobuf code and certificates: input and output, glue
  or data without an algorithm. Locks are modelled by the atomicity of what they protect.
\<close>

end
